(* ===== verification/Prelude.thy ===== *)
theory Prelude
  imports Main "HOL-Library.Finite_Map" "HOL-Library.Word" "HOL-Library.Char_ord"
    "HOL-Library.List_Lexorder" "HOL-Library.Product_Lexorder"
begin

text \<open>
  Shared vocabulary of the development: the machine types of the Rust sources, byte
  strings, the little and big endian integer codecs, iteration over hash maps, and the
  list and map lemmas that several components use.

  \<^item> A Rust \<open>HashMap<K, V>\<close> is a finite map \<open>('k, 'v) fmap\<close> and a \<open>HashSet<T>\<close> a
    finite set \<open>'a fset\<close>; a \<open>Vec<T>\<close> or a slice is a list.
  \<^item> A loop over a hash map visits its entries in an unspecified order. The model visits
    them in key order (\<open>fm_entries\<close>), and the lemmas about such loops show that the
    result does not depend on the order.
  \<^item> \<open>u8\<close>, \<open>u32\<close> and \<open>u64\<close> are words, so \<open>+\<close> wraps as the release build does.
\<close>

section \<open>Types and collections of facts\<close>

type_synonym u8 = "8 word"
type_synonym u32 = "32 word"
type_synonym u64 = "64 word"
type_synonym bytes = "u8 list"

named_theorems codec_simps "length and round-trip facts of the integer codecs"
named_theorems fm_simps "look-up facts of loops over hash maps"

section \<open>Integer codecs\<close>

text \<open>\<open>to_le_bytes\<close> and \<open>from_le_bytes\<close> of Rust's integers, on the value of the integer.\<close>

fun le_enc :: "nat \<Rightarrow> nat \<Rightarrow> bytes" where
  "le_enc 0 x = []"
| "le_enc (Suc n) x = of_nat (x mod 256) # le_enc n (x div 256)"

fun le_dec :: "bytes \<Rightarrow> nat" where
  "le_dec [] = 0"
| "le_dec (b # bs) = unat b + 256 * le_dec bs"

definition be_enc :: "nat \<Rightarrow> nat \<Rightarrow> bytes" where
  "be_enc n x = rev (le_enc n x)"

definition be_dec :: "bytes \<Rightarrow> nat" where
  "be_dec bs = le_dec (rev bs)"

lemma length_le_enc [simp, codec_simps]: "length (le_enc n x) = n"
  by (induction n x rule: le_enc.induct) auto

lemma length_be_enc [simp, codec_simps]: "length (be_enc n x) = n"
  by (simp add: be_enc_def)

lemma unat_of_nat_byte: "unat (of_nat (x mod 256) :: u8) = x mod 256"
  by (simp add: unat_of_nat)

lemma le_dec_enc [codec_simps]: "le_dec (le_enc n x) = x mod 256 ^ n"
proof (induction n x rule: le_enc.induct)
  case (2 n x)
  have "x mod 256 ^ Suc n = x mod 256 + 256 * (x div 256 mod 256 ^ n)"
    by (metis add.commute mod_mult2_eq power_Suc)
  with 2 show ?case by (simp add: unat_of_nat_byte del: of_nat_mod)
qed simp

lemma le_dec_enc_small: "x < 256 ^ n \<Longrightarrow> le_dec (le_enc n x) = x"
  by (simp add: codec_simps)

lemma be_dec_enc_small: "x < 256 ^ n \<Longrightarrow> be_dec (be_enc n x) = x"
  by (simp add: be_dec_def be_enc_def codec_simps)

lemma le_enc_u32: "le_dec (le_enc 4 (unat (w :: u32))) = unat w"
  using unsigned_less [of w, where ?'a = nat] by (intro le_dec_enc_small) simp

lemma le_enc_u64: "le_dec (le_enc 8 (unat (w :: u64))) = unat w"
  using unsigned_less [of w, where ?'a = nat] by (intro le_dec_enc_small) simp

lemma be_enc_u64: "be_dec (be_enc 8 (unat (w :: u64))) = unat w"
  using unsigned_less [of w, where ?'a = nat] by (intro be_dec_enc_small) simp

section \<open>Loops over hash maps\<close>

definition fm_entries :: "('k :: linorder, 'v) fmap \<Rightarrow> ('k \<times> 'v) list" where
  "fm_entries m = sorted_list_of_fmap m"

definition fm_get :: "'v \<Rightarrow> ('k, 'v) fmap \<Rightarrow> 'k \<Rightarrow> 'v" where
  \<comment> \<open>\<open>m.get(k).copied().unwrap_or(d)\<close>\<close>
  "fm_get d m k = (case fmlookup m k of None \<Rightarrow> d | Some v \<Rightarrow> v)"

lemma map_of_fm_entries [simp, fm_simps]: "map_of (fm_entries m) = fmlookup m"
proof
  fix k
  show "map_of (fm_entries m) k = fmlookup m k"
    by (auto simp: fm_entries_def sorted_list_of_fmap_def map_of_map_restrict restrict_map_def
        dest: fmdom_notD)
qed

lemma fst_fm_entries: "map fst (fm_entries m) = sorted_list_of_fset (fmdom m)"
  by (simp add: fm_entries_def sorted_list_of_fmap_def comp_def)

lemma distinct_fm_entries [simp]: "distinct (map fst (fm_entries m))"
  by (simp add: fst_fm_entries sorted_list_of_fset.rep_eq)

lemma set_fm_entries [simp]: "set (fm_entries m) = {(k, v). fmlookup m k = Some v}"
  by (auto simp: map_of_eq_Some_iff [symmetric])

lemma fm_get_upd [simp, fm_simps]: "fm_get d (fmupd k v m) = (fm_get d m)(k := v)"
  by (auto simp: fm_get_def)

lemma fm_get_empty [simp, fm_simps]: "fm_get d fmempty k = d"
  by (simp add: fm_get_def)

text \<open>
  A loop that updates the slot of every visited key from the slot's old content and the
  visited value.
\<close>

lemma fold_fmupd_notin:
  "k \<notin> fst ` set xs \<Longrightarrow>
    fmlookup (fold (\<lambda>(k, v) m. fmupd k (f (fmlookup m k) v) m) xs m) k = fmlookup m k"
  by (induction xs arbitrary: m) auto

lemma fold_fmupd_lookup [fm_simps]:
  "distinct (map fst xs) \<Longrightarrow>
    fmlookup (fold (\<lambda>(k, v) m. fmupd k (f (fmlookup m k) v) m) xs m) k =
      (case map_of xs k of None \<Rightarrow> fmlookup m k | Some v \<Rightarrow> Some (f (fmlookup m k) v))"
proof (induction xs arbitrary: m)
  case (Cons x xs)
  obtain k' v' where x: "x = (k', v')" by fastforce
  show ?case
  proof (cases "k = k'")
    case True
    with Cons.prems x show ?thesis by (simp add: fold_fmupd_notin)
  next
    case False
    with Cons x show ?thesis by (auto split: option.split)
  qed
qed simp

lemma fold_fm_get_lookup [fm_simps]:
  assumes "distinct (map fst xs)"
  shows "fmlookup (fold (\<lambda>(k, v) m. fmupd k (g (fm_get d m k) v) m) xs m) k =
      (case map_of xs k of None \<Rightarrow> fmlookup m k | Some v \<Rightarrow> Some (g (fm_get d m k) v))"
  unfolding fm_get_def
  using fold_fmupd_lookup [OF assms, of "\<lambda>x v. g (case x of None \<Rightarrow> d | Some y \<Rightarrow> y) v" m k] .

section \<open>Words\<close>

lemma word_less_succ: "c \<noteq> - 1 \<Longrightarrow> c < c + 1" for c :: "'a :: len word"
  using inc_less_eq_triv_imp not_le by blast

lemma word_le_succ: "c \<noteq> - 1 \<Longrightarrow> t \<le> c \<Longrightarrow> t \<le> c + 1" for c t :: "'a :: len word"
  using word_less_succ by (meson order.strict_implies_order order_trans)

end
