(* ===== verification/Crdt.thy ===== *)
theory Crdt
  imports Prelude
begin

text \<open>
  The conflict-free replicated data types of \<open>crates/joule-db-crdt\<close>: the hybrid logical
  clock (\<open>lib.rs\<close>) and the grow-only and positive-negative counters, the last-writer-wins
  register and map, the multi-value register and the observed-remove set (\<open>types.rs\<close>).

  The interface every type promises (the trait \<open>Crdt\<close>: merging is commutative, associative
  and idempotent) is the locale \<open>crdt\<close>; strong convergence is proved once inside it and
  reaches the types by interpretation. Wall-clock time is an argument of the operations
  that read it.
\<close>

section \<open>Hybrid logical clock\<close>

datatype hlc = HLCTimestamp (millis: u64) (counter: u32) (node_hash: u32)

instantiation hlc :: linorder
begin

definition less_eq_hlc :: "hlc \<Rightarrow> hlc \<Rightarrow> bool" where
  "less_eq_hlc a b \<longleftrightarrow> millis a < millis b \<or> millis a = millis b \<and>
     (counter a < counter b \<or> counter a = counter b \<and> node_hash a \<le> node_hash b)"

definition less_hlc :: "hlc \<Rightarrow> hlc \<Rightarrow> bool" where
  "less_hlc a b \<longleftrightarrow> millis a < millis b \<or> millis a = millis b \<and>
     (counter a < counter b \<or> counter a = counter b \<and> node_hash a < node_hash b)"

instance
  by standard (auto simp: less_eq_hlc_def less_hlc_def intro: hlc.expand)

end

definition simple_hash :: "string \<Rightarrow> u32" where
  "simple_hash s = foldl (\<lambda>h c. h * 31 + of_nat (of_char c)) 0 s"

definition hlc_now :: "u64 \<Rightarrow> string \<Rightarrow> hlc" where
  "hlc_now now node_id = HLCTimestamp now 0 (simple_hash node_id)"

definition tick :: "u64 \<Rightarrow> hlc option \<Rightarrow> hlc \<Rightarrow> hlc" where
  "tick now received self =
     (case received of
        Some remote \<Rightarrow>
          if now > millis self \<and> now > millis remote then HLCTimestamp now 0 (node_hash self)
          else if millis self = millis remote then
            HLCTimestamp (millis self) (max (counter self) (counter remote) + 1) (node_hash self)
          else if millis self > millis remote then
            HLCTimestamp (millis self) (counter self + 1) (node_hash self)
          else HLCTimestamp (millis remote) (counter remote + 1) (node_hash self)
      | None \<Rightarrow>
          if now > millis self then HLCTimestamp now 0 (node_hash self)
          else HLCTimestamp (millis self) (counter self + 1) (node_hash self))"

section \<open>The interface: state-based replicated types\<close>

locale crdt =
  fixes merge :: "'s \<Rightarrow> 's \<Rightarrow> 's" and ok :: "'s \<Rightarrow> bool"
  assumes ok_merge: "ok a \<Longrightarrow> ok b \<Longrightarrow> ok (merge a b)"
    and merge_commute: "ok a \<Longrightarrow> ok b \<Longrightarrow> merge a b = merge b a"
    and merge_assoc: "ok a \<Longrightarrow> ok b \<Longrightarrow> ok c \<Longrightarrow> merge (merge a b) c = merge a (merge b c)"
    and merge_absorb: "ok a \<Longrightarrow> ok b \<Longrightarrow> merge (merge a b) b = merge a b"
begin

abbreviation receive :: "'s list \<Rightarrow> 's \<Rightarrow> 's" where
  "receive xs a \<equiv> fold (\<lambda>r s. merge s r) xs a"

lemma ok_receive: "ok a \<Longrightarrow> \<forall>x\<in>set xs. ok x \<Longrightarrow> ok (receive xs a)"
  by (induction xs arbitrary: a) (auto simp: ok_merge)

lemma merge_right_commute:
  "ok a \<Longrightarrow> ok x \<Longrightarrow> ok y \<Longrightarrow> merge (merge a x) y = merge (merge a y) x"
  by (metis merge_assoc merge_commute)

lemma receive_merge:
  "ok a \<Longrightarrow> ok y \<Longrightarrow> \<forall>x\<in>set xs. ok x \<Longrightarrow> receive xs (merge a y) = merge (receive xs a) y"
  by (induction xs arbitrary: a) (auto simp: ok_merge merge_right_commute)

lemma receive_absorb:
  "ok a \<Longrightarrow> \<forall>x\<in>set xs. ok x \<Longrightarrow> y \<in> set xs \<Longrightarrow> merge (receive xs a) y = receive xs a"
proof (induction xs arbitrary: a)
  case (Cons x xs)
  show ?case
  proof (cases "y = x")
    case True
    with Cons.prems show ?thesis
      by (simp add: receive_merge ok_receive merge_absorb)
  next
    case False
    with Cons show ?thesis by (simp add: ok_merge)
  qed
qed simp

lemma receive_again:
  "ok a \<Longrightarrow> \<forall>x\<in>set ys. ok x \<Longrightarrow> set xs \<subseteq> set ys \<Longrightarrow> receive xs (receive ys a) = receive ys a"
  by (induction xs) (auto simp: receive_absorb)

lemma receive_commute:
  "ok a \<Longrightarrow> \<forall>x\<in>set xs. ok x \<Longrightarrow> \<forall>y\<in>set ys. ok y \<Longrightarrow>
    receive xs (receive ys a) = receive ys (receive xs a)"
proof (induction ys arbitrary: a)
  case (Cons y ys)
  then show ?case by (simp add: ok_merge ok_receive receive_merge)
qed simp

text \<open>
  Two replicas that start from the same state and receive the same set of states, in any
  order and with any repetition, end in the same state.
\<close>

lemma convergence:
  assumes "ok a" "\<forall>x\<in>set xs. ok x" "set xs = set ys"
  shows "receive xs a = receive ys a"
proof -
  have "receive ys a = receive xs (receive ys a)"
    using assms by (simp add: receive_again)
  also have "\<dots> = receive ys (receive xs a)"
    using assms by (simp add: receive_commute)
  also have "\<dots> = receive xs a"
    using assms by (simp add: receive_again)
  finally show ?thesis by simp
qed

end

section \<open>Counters\<close>

text \<open>
  The loop \<open>for (node, &v) in other { let e = self.entry(node).or_insert(0); *e = (*e).max(v) }\<close>,
  which the counters, the multi-value register's clocks and the tag counters share.
\<close>

definition max_into :: "(string, u64) fmap \<Rightarrow> (string, u64) fmap \<Rightarrow> (string, u64) fmap" where
  "max_into m other = fold (\<lambda>(node, v) m. fmupd node (max (fm_get 0 m node) v) m) (fm_entries other) m"

lemma fmlookup_max_into [fm_simps]:
  "fmlookup (max_into m other) n =
    (case fmlookup other n of
       None \<Rightarrow> fmlookup m n | Some v \<Rightarrow> Some (max (fm_get 0 m n) v))"
  by (simp add: max_into_def fold_fm_get_lookup)

lemma word_zero_max [simp]: "max 0 (x :: u64) = x" "max x 0 = x"
  by (simp_all add: max_def)

lemma fm_get_max_into [simp, fm_simps]:
  "fm_get 0 (max_into m other) n = max (fm_get 0 m n) (fm_get 0 other n)"
  by (simp add: fm_get_def fm_simps split: option.split)

lemma fmdom_max_into [simp]: "fmdom (max_into m other) = fmdom m |\<union>| fmdom other"
  by (rule fset_eqI) (simp add: fmlookup_dom_iff fm_simps split: option.splits)

lemma max_into_commute: "max_into a b = max_into b a"
  by (rule fmap_ext)
     (auto simp: fm_simps fm_get_def max.commute split: option.split)

lemma max_into_assoc: "max_into (max_into a b) c = max_into a (max_into b c)"
  by (rule fmap_ext)
     (auto simp: fm_simps fm_get_def max.assoc split: option.split)

lemma max_into_absorb: "max_into (max_into a b) b = max_into a b"
  by (rule fmap_ext) (auto simp: fm_simps fm_get_def split: option.split)

record gcounter =
  counts :: "(string, u64) fmap"

definition gc_new :: gcounter where
  "gc_new = \<lparr>counts = fmempty\<rparr>"

definition gc_increment :: "gcounter \<Rightarrow> string \<Rightarrow> u64 \<Rightarrow> gcounter" where
  "gc_increment c node_id amount =
     c\<lparr>counts := fmupd node_id (fm_get 0 (counts c) node_id + amount) (counts c)\<rparr>"

definition gc_value :: "gcounter \<Rightarrow> u64" where
  "gc_value c = sum_list (map snd (fm_entries (counts c)))"

definition gc_node_value :: "gcounter \<Rightarrow> string \<Rightarrow> u64" where
  "gc_node_value c node_id = fm_get 0 (counts c) node_id"

definition gc_merge :: "gcounter \<Rightarrow> gcounter \<Rightarrow> gcounter" where
  "gc_merge self other = self\<lparr>counts := max_into (counts self) (counts other)\<rparr>"

record pncounter =
  positive :: gcounter
  negative :: gcounter

definition pn_new :: pncounter where
  "pn_new = \<lparr>positive = gc_new, negative = gc_new\<rparr>"

definition pn_increment :: "pncounter \<Rightarrow> string \<Rightarrow> u64 \<Rightarrow> pncounter" where
  "pn_increment c node_id amount = c\<lparr>positive := gc_increment (positive c) node_id amount\<rparr>"

definition pn_decrement :: "pncounter \<Rightarrow> string \<Rightarrow> u64 \<Rightarrow> pncounter" where
  "pn_decrement c node_id amount = c\<lparr>negative := gc_increment (negative c) node_id amount\<rparr>"

text \<open>\<open>u64 as i64\<close> keeps the bits, so the difference is taken on the words and read signed.\<close>

definition pn_value :: "pncounter \<Rightarrow> u64" where
  "pn_value c = gc_value (positive c) - gc_value (negative c)"

definition pn_merge :: "pncounter \<Rightarrow> pncounter \<Rightarrow> pncounter" where
  "pn_merge self other =
     self\<lparr>positive := gc_merge (positive self) (positive other),
          negative := gc_merge (negative self) (negative other)\<rparr>"

interpretation gc: crdt gc_merge "\<lambda>_. True"
proof
  fix a b c :: gcounter
  show "gc_merge a b = gc_merge b a"
    by (simp add: gc_merge_def max_into_commute)
  show "gc_merge (gc_merge a b) c = gc_merge a (gc_merge b c)"
    by (simp add: gc_merge_def max_into_assoc)
  show "gc_merge (gc_merge a b) b = gc_merge a b"
    by (simp add: gc_merge_def max_into_absorb)
qed simp_all

interpretation pn: crdt pn_merge "\<lambda>_. True"
proof
  fix a b c :: pncounter
  show "pn_merge a b = pn_merge b a"
    by (simp add: pn_merge_def gc.merge_commute)
  show "pn_merge (pn_merge a b) c = pn_merge a (pn_merge b c)"
    by (simp add: pn_merge_def gc.merge_assoc)
  show "pn_merge (pn_merge a b) b = pn_merge a b"
    by (simp add: pn_merge_def gc.merge_absorb)
qed simp_all

section \<open>Last-writer-wins register and map\<close>

record lww_register =
  lww_value :: bytes
  timestamp :: hlc

definition lww_new :: "u64 \<Rightarrow> bytes \<Rightarrow> string \<Rightarrow> lww_register" where
  "lww_new now v node_id = \<lparr>lww_value = v, timestamp = hlc_now now node_id\<rparr>"

definition lww_set :: "u64 \<Rightarrow> lww_register \<Rightarrow> bytes \<Rightarrow> string \<Rightarrow> lww_register" where
  "lww_set now r v node_id =
     (let t = tick now None (timestamp r)
      in r\<lparr>lww_value := v,
           timestamp := HLCTimestamp (millis t) (counter t) (simple_hash node_id)\<rparr>)"

definition lww_merge :: "lww_register \<Rightarrow> lww_register \<Rightarrow> lww_register" where
  "lww_merge self other =
     (if timestamp other > timestamp self
      then self\<lparr>lww_value := lww_value other, timestamp := timestamp other\<rparr> else self)"

record lww_map =
  map_entries :: "(string, lww_register) fmap"

definition map_new :: lww_map where
  "map_new = \<lparr>map_entries = fmempty\<rparr>"

definition map_set :: "u64 \<Rightarrow> lww_map \<Rightarrow> string \<Rightarrow> bytes \<Rightarrow> string \<Rightarrow> lww_map" where
  "map_set now m key v node_id =
     (case fmlookup (map_entries m) key of
        Some reg \<Rightarrow> m\<lparr>map_entries := fmupd key (lww_set now reg v node_id) (map_entries m)\<rparr>
      | None \<Rightarrow> m\<lparr>map_entries := fmupd key (lww_new now v node_id) (map_entries m)\<rparr>)"

definition map_get :: "lww_map \<Rightarrow> string \<Rightarrow> bytes option" where
  "map_get m key = map_option lww_value (fmlookup (map_entries m) key)"

definition map_merge :: "lww_map \<Rightarrow> lww_map \<Rightarrow> lww_map" where
  "map_merge self other =
     self\<lparr>map_entries := fold (\<lambda>(key, remote_reg) m.
        fmupd key (case fmlookup m key of
            Some local_reg \<Rightarrow> lww_merge local_reg remote_reg | None \<Rightarrow> remote_reg) m)
        (fm_entries (map_entries other)) (map_entries self)\<rparr>"

text \<open>
  Two registers with the same timestamp but different values do not merge symmetrically.
  The laws hold on registers whose value is determined by their timestamp: \<open>w\<close> is the
  write history, the value written at each timestamp.
\<close>

definition lww_from :: "(hlc \<Rightarrow> bytes) \<Rightarrow> lww_register \<Rightarrow> bool" where
  "lww_from w r \<longleftrightarrow> lww_value r = w (timestamp r)"

definition map_from :: "(string \<Rightarrow> hlc \<Rightarrow> bytes) \<Rightarrow> lww_map \<Rightarrow> bool" where
  "map_from w m \<longleftrightarrow> (\<forall>k r. fmlookup (map_entries m) k = Some r \<longrightarrow> lww_from (w k) r)"

lemma lww_merge_commute_iff_aux:
  "lww_merge a b = lww_merge b a \<longleftrightarrow> (timestamp a = timestamp b \<longrightarrow> lww_value a = lww_value b)"
  by (auto simp: lww_merge_def)

interpretation lww: crdt lww_merge "lww_from w" for w
proof
  fix a b c :: lww_register
  assume a: "lww_from w a" and b: "lww_from w b"
  show "lww_from w (lww_merge a b)"
    using a b by (simp add: lww_merge_def lww_from_def)
  show "lww_merge a b = lww_merge b a"
    using a b by (simp add: lww_merge_commute_iff_aux lww_from_def)
  show "lww_merge (lww_merge a b) b = lww_merge a b"
    by (simp add: lww_merge_def)
  show "lww_merge (lww_merge a b) c = lww_merge a (lww_merge b c)"
    by (auto simp: lww_merge_def)
qed

lemma fmlookup_map_merge [fm_simps]:
  "fmlookup (map_entries (map_merge a b)) k =
    (case fmlookup (map_entries b) k of
       None \<Rightarrow> fmlookup (map_entries a) k
     | Some rb \<Rightarrow> Some (case fmlookup (map_entries a) k of
         Some ra \<Rightarrow> lww_merge ra rb | None \<Rightarrow> rb))"
  unfolding map_merge_def
  using fold_fmupd_lookup [of "fm_entries (map_entries b)"
      "\<lambda>x rb. case x of Some ra \<Rightarrow> lww_merge ra rb | None \<Rightarrow> rb" "map_entries a" k]
  by simp

lemma map_eqI: "(\<And>k. fmlookup (map_entries a) k = fmlookup (map_entries b) k) \<Longrightarrow> a = b"
  for a b :: lww_map
  by (simp add: fmap_ext)

interpretation lwwmap: crdt map_merge "map_from w" for w
proof
  fix a b c :: lww_map
  assume a: "map_from w a" and b: "map_from w b"
  show "map_from w (map_merge a b)"
    using a b by (auto simp: map_from_def fm_simps lww.ok_merge split: option.splits)
  show "map_merge a b = map_merge b a"
    using a b by (intro map_eqI)
      (auto simp: map_from_def fm_simps split: option.splits, metis lww.merge_commute)
  show "map_merge (map_merge a b) b = map_merge a b"
    using a b by (intro map_eqI)
      (auto simp: map_from_def fm_simps lww_merge_def split: option.splits)
  assume c: "map_from w c"
  show "map_merge (map_merge a b) c = map_merge a (map_merge b c)"
    using a b c by (intro map_eqI)
      (auto simp: map_from_def fm_simps split: option.splits, metis lww.merge_assoc)
qed

section \<open>Properties\<close>

lemma less_hlc_simps [simp]:
  "HLCTimestamp m c n < HLCTimestamp m' c' n' \<longleftrightarrow>
     m < m' \<or> m = m' \<and> (c < c' \<or> c = c' \<and> n < n')"
  by (simp add: less_hlc_def)

text \<open>
  Advancing a hybrid logical clock yields a timestamp greater than the local clock and,
  when a remote timestamp was received, greater than it too, as long as the logical
  counters are below their maximum.
\<close>

theorem hlc_tick_advances:
  assumes "counter self \<noteq> - 1"
    and "\<forall>remote. received = Some remote \<longrightarrow> counter remote \<noteq> - 1"
  shows "self < tick now received self \<and>
    (\<forall>remote. received = Some remote \<longrightarrow> remote < tick now received self)"
proof (cases received)
  case None
  with assms show ?thesis
    by (cases self) (auto simp: tick_def word_less_succ)
next
  case (Some remote)
  have "max (counter self) (counter remote) \<noteq> - 1"
    using assms Some by (auto simp: max_def)
  then have "max (counter self) (counter remote) < max (counter self) (counter remote) + 1"
    by (rule word_less_succ)
  then have "counter self < max (counter self) (counter remote) + 1"
    "counter remote < max (counter self) (counter remote) + 1"
    by (meson le_less_trans max.cobounded1 max.cobounded2)+
  with assms Some show ?thesis
    by (cases self; cases remote) (auto simp: tick_def word_less_succ)
qed

theorem hlc_tick_advances_witness:
  "HLCTimestamp 9 4 1 < tick 5 (Some (HLCTimestamp 9 7 2)) (HLCTimestamp 9 4 1) \<and>
   HLCTimestamp 9 7 2 < tick 5 (Some (HLCTimestamp 9 7 2)) (HLCTimestamp 9 4 1)"
  using hlc_tick_advances [of "HLCTimestamp 9 4 1" "Some (HLCTimestamp 9 7 2)" 5] by simp

text \<open>
  replicas of a positive-negative counter that receive the same set of replica states,
  in any order and any number of times, hold the same counter and read the same value.
\<close>

theorem pn_counter_converges:
  assumes "set xs = set ys"
  shows "fold (\<lambda>r s. pn_merge s r) xs a = fold (\<lambda>r s. pn_merge s r) ys a \<and>
    pn_value (fold (\<lambda>r s. pn_merge s r) xs a) = pn_value (fold (\<lambda>r s. pn_merge s r) ys a)"
  using pn.convergence [where a = a and xs = xs and ys = ys] assms by simp

theorem pn_counter_converges_witness:
  "fold (\<lambda>r s. pn_merge s r) [pn_increment pn_new ''a'' 2, pn_decrement pn_new ''b'' 1] pn_new =
   fold (\<lambda>r s. pn_merge s r) [pn_decrement pn_new ''b'' 1, pn_increment pn_new ''a'' 2,
     pn_decrement pn_new ''b'' 1] pn_new"
proof -
  have "set [pn_increment pn_new ''a'' 2, pn_decrement pn_new ''b'' 1] =
      set [pn_decrement pn_new ''b'' 1, pn_increment pn_new ''a'' 2, pn_decrement pn_new ''b'' 1]"
    by auto
  from pn_counter_converges [OF this, of pn_new] show ?thesis by (rule conjunct1)
qed

text \<open>
  C39: last-writer-wins maps whose registers come from one write history (a timestamp on a
  key determines the value written there) converge: from the same starting map, the same set of received maps, in any
  order and with repetitions, gives the same map.
\<close>

theorem lww_map_converges:
  assumes "map_from w a" "\<forall>m\<in>set xs. map_from w m" "set xs = set ys"
  shows "fold (\<lambda>r s. map_merge s r) xs a = fold (\<lambda>r s. map_merge s r) ys a"
  using lwwmap.convergence [of w a xs ys] assms by simp

theorem lww_map_converges_witness:
  "let a = map_set 5 map_new ''k'' [1] ''n1''; b = map_set 6 map_new ''k'' [2] ''n2''
   in fold (\<lambda>r s. map_merge s r) [a, b] map_new = fold (\<lambda>r s. map_merge s r) [b, a, b] map_new"
proof -
  let ?a = "map_set 5 map_new ''k'' [1] ''n1''" and ?b = "map_set 6 map_new ''k'' [2] ''n2''"
  define w :: "string \<Rightarrow> hlc \<Rightarrow> bytes" where "w = (\<lambda>_ t. if millis t = 5 then [1] else [2])"
  have "map_from w map_new" "map_from w ?a" "map_from w ?b"
    by (auto simp: w_def map_from_def lww_from_def map_set_def map_new_def lww_new_def hlc_now_def
        split: if_splits)
  with lww_map_converges [of w map_new "[?a, ?b]" "[?b, ?a, ?b]"] show ?thesis
    by (simp add: Let_def insert_commute)
qed

text \<open>
  Merging two last-writer-wins registers is commutative exactly when equal timestamps
  carry equal values; two writes with the same timestamp and different values leave the
  replicas different for ever.
\<close>

theorem lww_merge_commute_iff:
  "lww_merge a b = lww_merge b a \<longleftrightarrow> (timestamp a = timestamp b \<longrightarrow> lww_value a = lww_value b)"
  by (rule lww_merge_commute_iff_aux)

theorem lww_merge_commute_iff_witness:
  "lww_merge (lww_new 7 [1] ''n'') (lww_new 7 [2] ''n'') \<noteq>
   lww_merge (lww_new 7 [2] ''n'') (lww_new 7 [1] ''n'')"
  using lww_merge_commute_iff [of "lww_new 7 [1] ''n''" "lww_new 7 [2] ''n''"]
  by (simp add: lww_new_def)

end
