(* ===== verification/Crdt_Mv.thy ===== *)
theory Crdt_Mv
  imports Crdt
begin

text \<open>
  The multi-value register of \<open>crates/joule-db-crdt/src/types.rs\<close>: a list of values with
  their vector clocks. The abstract merge keeps the undominated entries of a union; it is
  a \<open>crdt\<close>, and the list-based merge of the code refines it.
\<close>

section \<open>Multi-value register\<close>

type_synonym clock = "(string, u64) fmap"

record mv_register =
  mv_entries :: "(bytes \<times> clock) list"

definition mv_new :: mv_register where
  "mv_new = \<lparr>mv_entries = []\<rparr>"

definition mv_set :: "mv_register \<Rightarrow> bytes \<Rightarrow> string \<Rightarrow> mv_register" where
  "mv_set r v node_id =
     (let new_clock = fold (\<lambda>(_, clock) m. max_into m clock) (mv_entries r) fmempty;
          new_clock = fmupd node_id (fm_get 0 new_clock node_id + 1) new_clock
      in r\<lparr>mv_entries := [(v, new_clock)]\<rparr>)"

definition mv_values :: "mv_register \<Rightarrow> bytes list" where
  "mv_values r = map fst (mv_entries r)"

definition dominates :: "clock \<Rightarrow> clock \<Rightarrow> bool" where
  "dominates a b \<longleftrightarrow>
     list_all (\<lambda>(node, va). \<not> va < fm_get 0 b node) (fm_entries a) \<and>
     list_all (\<lambda>(node, vb). \<not> (fmlookup a node = None \<and> vb > 0)) (fm_entries b) \<and>
     list_ex (\<lambda>(node, va). va > fm_get 0 b node) (fm_entries a)"

text \<open>\<open>Vec::dedup_by\<close>: an element is dropped when it matches the last one kept.\<close>

fun dedup_by :: "('a \<Rightarrow> 'a \<Rightarrow> bool) \<Rightarrow> 'a list \<Rightarrow> 'a list" where
  "dedup_by same [] = []"
| "dedup_by same [x] = [x]"
| "dedup_by same (x # y # ys) =
     (if same y x then dedup_by same (x # ys) else x # dedup_by same (y # ys))"

definition mv_merge :: "mv_register \<Rightarrow> mv_register \<Rightarrow> mv_register" where
  "mv_merge self other =
     (let combined = mv_entries self @ mv_entries other;
          result = map snd (filter (\<lambda>(i, (val_i, clock_i)).
              \<not> list_ex (\<lambda>(j, (val_j, clock_j)). i \<noteq> j \<and> dominates clock_j clock_i)
                  (enumerate 0 combined)) (enumerate 0 combined))
      in self\<lparr>mv_entries := dedup_by (\<lambda>a b. snd a = snd b) result\<rparr>)"

lemma dominates_iff:
  "dominates a b \<longleftrightarrow>
    (\<forall>n. fm_get 0 b n \<le> fm_get 0 a n) \<and> (\<exists>n. fm_get 0 b n < fm_get 0 a n)" (is "?l \<longleftrightarrow> ?r")
proof
  assume ?l
  then have ge: "\<And>n va. fmlookup a n = Some va \<Longrightarrow> fm_get 0 b n \<le> va"
    and miss: "\<And>n vb. fmlookup b n = Some vb \<Longrightarrow> fmlookup a n = None \<Longrightarrow> vb = 0"
    and gt: "\<exists>n va. fmlookup a n = Some va \<and> fm_get 0 b n < va"
    by (auto simp: dominates_def list_all_iff list_ex_iff not_less) fastforce
  have "fm_get 0 b n \<le> fm_get 0 a n" for n
    using ge [of n] miss [of n]
    by (cases "fmlookup a n"; cases "fmlookup b n") (auto simp: fm_get_def)
  moreover from gt have "\<exists>n. fm_get 0 b n < fm_get 0 a n"
    by (metis fm_get_def option.simps(5))
  ultimately show ?r by blast
next
  assume r: ?r
  then obtain n where n: "fm_get 0 b n < fm_get 0 a n" by blast
  then obtain va where "fmlookup a n = Some va"
    by (cases "fmlookup a n") (auto simp: fm_get_def)
  moreover have "\<not> va < fm_get 0 b m" if "fmlookup a m = Some va" for m va
    using r that by (metis fm_get_def leD option.simps(5))
  moreover have "vb = 0" if "fmlookup b m = Some vb" "fmlookup a m = None" for m vb
    using r that by (metis fm_get_def option.simps(4,5) word_le_0_iff)
  ultimately show ?l
    using n by (auto simp: dominates_def list_all_iff list_ex_iff fm_get_def [of 0 a])
qed

lemma dominates_irrefl [simp]: "\<not> dominates a a"
  by (simp add: dominates_iff)

lemma dominates_trans: "dominates a b \<Longrightarrow> dominates b c \<Longrightarrow> dominates a c"
  unfolding dominates_iff by (meson le_less_trans order_trans)

text \<open>The abstract merge: the entries of the union that no other entry dominates.\<close>

definition undominated :: "(bytes \<times> clock) set \<Rightarrow> (bytes \<times> clock) set" where
  "undominated S = {e \<in> S. \<forall>e' \<in> S. \<not> dominates (snd e') (snd e)}"

definition mv_join :: "(bytes \<times> clock) set \<Rightarrow> (bytes \<times> clock) set \<Rightarrow> (bytes \<times> clock) set" where
  "mv_join A B = undominated (A \<union> B)"

lemma undominated_subset: "undominated S \<subseteq> S"
  by (auto simp: undominated_def)

lemma undominated_above:
  assumes "finite S" "x \<in> S"
  shows "\<exists>m \<in> undominated S. m = x \<or> dominates (snd m) (snd x)"
  using assms(2)
proof (induction "card {y \<in> S. dominates (snd y) (snd x)}" arbitrary: x rule: less_induct)
  case less
  show ?case
  proof (cases "x \<in> undominated S")
    case False
    with less.prems obtain y where y: "y \<in> S" "dominates (snd y) (snd x)"
      by (auto simp: undominated_def)
    have "{z \<in> S. dominates (snd z) (snd y)} \<subset> {z \<in> S. dominates (snd z) (snd x)}"
      using y dominates_trans dominates_irrefl by blast
    then have "card {z \<in> S. dominates (snd z) (snd y)} < card {z \<in> S. dominates (snd z) (snd x)}"
      using assms(1) by (simp add: psubset_card_mono)
    from less.hyps [OF this y(1)] y show ?thesis
      using dominates_trans by blast
  qed auto
qed

lemma undominated_Un:
  assumes "finite A"
  shows "undominated (undominated A \<union> B) = undominated (A \<union> B)" (is "?l = ?r")
proof
  show "?r \<subseteq> ?l"
    by (auto simp: undominated_def)
  show "?l \<subseteq> ?r"
  proof
    fix e assume e: "e \<in> ?l"
    have "\<not> dominates (snd e') (snd e)" if e': "e' \<in> A" for e'
    proof
      assume d: "dominates (snd e') (snd e)"
      obtain m where m: "m \<in> undominated A" "m = e' \<or> dominates (snd m) (snd e')"
        using undominated_above [OF assms e'] by blast
      then have "dominates (snd m) (snd e)"
        using d dominates_trans by blast
      with e m show False by (simp add: undominated_def [of "undominated A \<union> B"])
    qed
    with e show "e \<in> ?r"
      by (auto simp: undominated_def [of "undominated A \<union> B"] undominated_def [of "A \<union> B"]
          dest: undominated_subset [THEN subsetD])
  qed
qed

interpretation mv: crdt mv_join finite
proof
  fix A B C :: "(bytes \<times> clock) set"
  assume fin: "finite A" "finite B"
  show "finite (mv_join A B)"
    using fin undominated_subset [of "A \<union> B"] by (simp add: mv_join_def finite_subset)
  show "mv_join A B = mv_join B A"
    by (simp add: mv_join_def Un_commute)
  show "mv_join (mv_join A B) B = mv_join A B"
    using fin by (simp add: mv_join_def undominated_Un Un_assoc)
  have "A \<union> undominated (B \<union> C) = undominated (B \<union> C) \<union> A" "B \<union> C \<union> A = A \<union> B \<union> C"
    by auto
  moreover assume "finite C"
  ultimately show "mv_join (mv_join A B) C = mv_join A (mv_join B C)"
    using fin by (simp add: mv_join_def undominated_Un)
qed

definition mv_from :: "(clock \<Rightarrow> bytes) \<Rightarrow> mv_register \<Rightarrow> bool" where
  "mv_from w r \<longleftrightarrow> (\<forall>(v, c) \<in> set (mv_entries r). v = w c)"

lemma set_dedup_by:
  "inj_on f (set xs) \<Longrightarrow> set (dedup_by (\<lambda>a b. f a = f b) xs) = set xs"
proof (induction "\<lambda>a b. f a = f b" xs rule: dedup_by.induct)
  case (3 x y ys)
  show ?case
  proof (cases "f y = f x")
    case True
    with "3.prems" have "y = x" by (meson inj_onD list.set_intros)
    with 3 True show ?thesis by simp
  next
    case False
    with 3 show ?thesis by simp
  qed
qed simp_all

lemma filter_enumerate_undominated:
  "set (map snd (filter (\<lambda>(i, (val_i, clock_i)).
      \<not> list_ex (\<lambda>(j, (val_j, clock_j)). i \<noteq> j \<and> dominates clock_j clock_i)
          (enumerate 0 xs)) (enumerate 0 xs))) = undominated (set xs)" (is "set (map snd (filter ?P _)) = _")
proof -
  have mem: "(j, e) \<in> set (enumerate 0 xs) \<longleftrightarrow> j < length xs \<and> xs ! j = e" for j e
    by (auto simp: in_set_enumerate_eq)
  have P: "?P (i, e) \<longleftrightarrow> (\<forall>e'\<in>set xs. \<not> dominates (snd e') (snd e))"
    if "i < length xs" "xs ! i = e" for i e
  proof -
    have "?P (i, e) \<longleftrightarrow> (\<forall>j<length xs. i \<noteq> j \<longrightarrow> \<not> dominates (snd (xs ! j)) (snd e))"
      by (auto simp: list_ex_length nth_enumerate_eq split_beta)
    also have "\<dots> \<longleftrightarrow> (\<forall>j<length xs. \<not> dominates (snd (xs ! j)) (snd e))"
      using that by auto
    also have "\<dots> \<longleftrightarrow> (\<forall>e'\<in>set xs. \<not> dominates (snd e') (snd e))"
      by (simp add: all_set_conv_all_nth)
    finally show ?thesis .
  qed
  have "set (map snd (filter ?P (enumerate 0 xs))) = {e. \<exists>i. (i, e) \<in> set (enumerate 0 xs) \<and> ?P (i, e)}"
    by force
  also have "\<dots> = {e \<in> set xs. \<forall>e'\<in>set xs. \<not> dominates (snd e') (snd e)}"
    unfolding mem using P by (metis (lifting) in_set_conv_nth)
  finally show ?thesis by (simp add: undominated_def)
qed

lemma mv_merge_refines_aux:
  assumes "mv_from w a" "mv_from w b"
  shows "set (mv_entries (mv_merge a b)) = mv_join (set (mv_entries a)) (set (mv_entries b))"
proof -
  let ?xs = "mv_entries a @ mv_entries b"
  let ?r = "map snd (filter (\<lambda>(i, (val_i, clock_i)).
      \<not> list_ex (\<lambda>(j, (val_j, clock_j)). i \<noteq> j \<and> dominates clock_j clock_i)
          (enumerate 0 ?xs)) (enumerate 0 ?xs))"
  have set_r: "set ?r = undominated (set ?xs)"
    by (rule filter_enumerate_undominated)
  have "inj_on snd (undominated (set ?xs))"
  proof (rule inj_onI)
    fix e e' assume "e \<in> undominated (set ?xs)" "e' \<in> undominated (set ?xs)" "snd e = snd e'"
    moreover from this have "fst e = w (snd e)" "fst e' = w (snd e')"
      using assms by (auto simp: undominated_def mv_from_def)
    ultimately show "e = e'" by (simp add: prod_eq_iff)
  qed
  then have "inj_on snd (set ?r)" unfolding set_r .
  from set_dedup_by [OF this] have "set (dedup_by (\<lambda>a b. snd a = snd b) ?r) = undominated (set ?xs)"
    unfolding set_r .
  moreover have "mv_entries (mv_merge a b) = dedup_by (\<lambda>a b. snd a = snd b) ?r"
    by (simp add: mv_merge_def Let_def)
  ultimately show ?thesis by (simp add: mv_join_def)
qed

lemma mv_from_merge:
  assumes "mv_from w a" "mv_from w b" shows "mv_from w (mv_merge a b)"
proof -
  have "set (mv_entries (mv_merge a b)) \<subseteq> set (mv_entries a) \<union> set (mv_entries b)"
    using mv_merge_refines_aux [OF assms] undominated_subset by (simp add: mv_join_def)
  with assms show ?thesis unfolding mv_from_def by blast
qed

lemma mv_merges_refine:
  "mv_from w a \<Longrightarrow> \<forall>r\<in>set xs. mv_from w r \<Longrightarrow>
    set (mv_entries (fold (\<lambda>r s. mv_merge s r) xs a)) =
      fold (\<lambda>R S. mv_join S R) (map (\<lambda>r. set (mv_entries r)) xs) (set (mv_entries a))"
  by (induction xs arbitrary: a) (simp_all add: mv_from_merge mv_merge_refines_aux)

section \<open>Properties\<close>

text \<open>
  C40: Multi-value registers whose entries come from one write history (equal clocks carry equal values) merge as sets
  of entries. A merge leaves exactly the entries of both registers that no entry of either dominates, so a sequence
  of merges into one register refines the same sequence of joins of entry sets; and replicas that start from the same register and
  receive the same set of registers, in any order and with any repetition, hold the same set of entries. The
  order and the number of copies of the entries in the vector may differ.
\<close>

theorem mv_merge_refines:
  assumes "mv_from w a" "\<forall>r\<in>set xs. mv_from w r" "mv_from w b" "set xs = set ys"
  shows "set (mv_entries (mv_merge a b)) =
      {e \<in> set (mv_entries a) \<union> set (mv_entries b).
        \<forall>e'\<in>set (mv_entries a) \<union> set (mv_entries b). \<not> dominates (snd e') (snd e)}
    \<and> set (mv_entries (fold (\<lambda>r s. mv_merge s r) xs a)) =
      fold (\<lambda>R S. mv_join S R) (map (\<lambda>r. set (mv_entries r)) xs) (set (mv_entries a))
    \<and> set (mv_entries (fold (\<lambda>r s. mv_merge s r) xs a)) = set (mv_entries (fold (\<lambda>r s. mv_merge s r) ys a))"
proof -
  have "fold (\<lambda>R S. mv_join S R) (map (\<lambda>r. set (mv_entries r)) xs) (set (mv_entries a)) =
      fold (\<lambda>R S. mv_join S R) (map (\<lambda>r. set (mv_entries r)) ys) (set (mv_entries a))"
    using assms(4) by (intro mv.convergence) auto
  with mv_merges_refine [OF assms(1,2)] mv_merges_refine [OF assms(1), of ys] mv_merge_refines_aux [OF assms(1,3)] assms(2,4)
  show ?thesis by (simp add: mv_join_def undominated_def)
qed

theorem mv_merge_refines_witness:
  "let a = mv_set mv_new [1] ''x''; b = mv_set mv_new [2] ''y''
   in set (mv_entries (mv_merge (mv_merge mv_new a) b)) = set (mv_entries (mv_merge (mv_merge (mv_merge mv_new b) a) b))"
proof -
  let ?a = "mv_set mv_new [1] ''x''" and ?b = "mv_set mv_new [2] ''y''"
  define w :: "clock \<Rightarrow> bytes" where "w = (\<lambda>c. if fmlookup c ''x'' = None then [2] else [1])"
  have w: "mv_from w mv_new" "mv_from w ?a" "mv_from w ?b"
    by (simp_all add: w_def mv_from_def mv_set_def mv_new_def Let_def)
  then have "\<forall>r\<in>set [?a, ?b]. mv_from w r" "set [?a, ?b] = set [?b, ?a, ?b]" by auto
  from mv_merge_refines [OF w(1) this(1) w(3) this(2), THEN conjunct2, THEN conjunct2] show ?thesis by (simp add: Let_def)
qed

text \<open>
  Merging is not idempotent on the register itself: a register that holds two
  concurrent values doubles its entries when it is merged with itself, because only
  adjacent entries with equal clocks are removed.
\<close>

definition mv_concurrent :: mv_register where
  "mv_concurrent = mv_merge (mv_set mv_new [1] ''x'') (mv_set mv_new [2] ''y'')"

theorem mv_merge_self_duplicates:
  "mv_values mv_concurrent = [[1], [2]] \<and>
   mv_values (mv_merge mv_concurrent mv_concurrent) = [[1], [2], [1], [2]]"
  by code_simp

end
