(* ===== verification/Crdt_Orset.thy ===== *)
theory Crdt_Orset
  imports Crdt
begin

text \<open>
  The observed-remove set of \<open>crates/joule-db-crdt/src/types.rs\<close>. Every addition carries a
  tag (a per-node counter and the node's id); a removal moves the tags it has observed to
  the tombstones; a merge unites the tags and drops the tombstoned ones. An element is in
  the set when it has a tag left.
\<close>

type_synonym tag = "u64 \<times> string"

record orset =
  entries :: "(string, tag fset) fmap"
  tombstones :: "tag fset"
  tag_counter :: "(string, u64) fmap"

definition or_new :: orset where
  "or_new = \<lparr>entries = fmempty, tombstones = {||}, tag_counter = fmempty\<rparr>"

definition next_tag :: "orset \<Rightarrow> string \<Rightarrow> u64 \<times> orset" where
  "next_tag s node_id =
     (let c = fm_get 0 (tag_counter s) node_id + 1
      in (c, s\<lparr>tag_counter := fmupd node_id c (tag_counter s)\<rparr>))"

definition or_add :: "orset \<Rightarrow> string \<Rightarrow> string \<Rightarrow> orset" where
  "or_add s element node_id =
     (let (t, s) = next_tag s node_id
      in s\<lparr>entries := fmupd element (finsert (t, node_id) (fm_get {||} (entries s) element)) (entries s)\<rparr>)"

definition or_remove :: "orset \<Rightarrow> string \<Rightarrow> orset" where
  "or_remove s element =
     (case fmlookup (entries s) element of
        Some tags \<Rightarrow> s\<lparr>entries := fmdrop element (entries s), tombstones := tombstones s |\<union>| tags\<rparr>
      | None \<Rightarrow> s)"

definition or_contains :: "orset \<Rightarrow> string \<Rightarrow> bool" where
  "or_contains s element =
     (case fmlookup (entries s) element of Some tags \<Rightarrow> tags \<noteq> {||} | None \<Rightarrow> False)"

definition or_elements :: "orset \<Rightarrow> string list" where
  "or_elements s = map fst (filter (\<lambda>(_, tags). tags \<noteq> {||}) (fm_entries (entries s)))"

definition or_len :: "orset \<Rightarrow> nat" where
  "or_len s = length (filter (\<lambda>(_, tags). tags \<noteq> {||}) (fm_entries (entries s)))"

definition or_is_empty :: "orset \<Rightarrow> bool" where
  "or_is_empty s \<longleftrightarrow> or_len s = 0"

definition or_merge :: "orset \<Rightarrow> orset \<Rightarrow> orset" where
  "or_merge self other =
     (let tombs = tombstones self |\<union>| tombstones other;
          counters = max_into (tag_counter self) (tag_counter other);
          es = fold (\<lambda>(elem, remote_tags) m.
                 fmupd elem (fm_get {||} m elem |\<union>| ffilter (\<lambda>t. t |\<notin>| tombs) remote_tags) m)
                 (fm_entries (entries other)) (entries self)
      in self\<lparr>entries := fmmap (ffilter (\<lambda>t. t |\<notin>| tombs)) es,
              tombstones := tombs, tag_counter := counters\<rparr>)"

section \<open>The laws of merging\<close>

definition or_tags :: "orset \<Rightarrow> string \<Rightarrow> tag fset" where
  "or_tags s e = fm_get {||} (entries s) e"

lemma tombstones_merge [simp]: "tombstones (or_merge a b) = tombstones a |\<union>| tombstones b"
  by (simp add: or_merge_def Let_def)

lemma tag_counter_merge [simp]: "tag_counter (or_merge a b) = max_into (tag_counter a) (tag_counter b)"
  by (simp add: or_merge_def Let_def)

lemma fmlookup_or_merge [fm_simps]:
  "fmlookup (entries (or_merge a b)) e =
    (if fmlookup (entries a) e = None \<and> fmlookup (entries b) e = None then None
     else Some (ffilter (\<lambda>t. t |\<notin>| tombstones a |\<union>| tombstones b) (or_tags a e |\<union>| or_tags b e)))"
proof -
  let ?T = "tombstones a |\<union>| tombstones b"
  have "fmlookup (fold (\<lambda>(elem, remote_tags) m.
      fmupd elem (fm_get {||} m elem |\<union>| ffilter (\<lambda>t. t |\<notin>| ?T) remote_tags) m)
      (fm_entries (entries b)) (entries a)) e =
    (case fmlookup (entries b) e of None \<Rightarrow> fmlookup (entries a) e
     | Some v \<Rightarrow> Some (fm_get {||} (entries a) e |\<union>| ffilter (\<lambda>t. t |\<notin>| ?T) v))"
    by (rule fold_fm_get_lookup [OF distinct_fm_entries, unfolded map_of_fm_entries,
          where g = "\<lambda>x v. x |\<union>| ffilter (\<lambda>t. t |\<notin>| ?T) v"])
  then show ?thesis
    by (auto simp: or_merge_def Let_def or_tags_def fm_get_def split: option.splits)
qed

lemma or_tags_merge [simp]:
  "or_tags (or_merge a b) e =
    ffilter (\<lambda>t. t |\<notin>| tombstones a |\<union>| tombstones b) (or_tags a e |\<union>| or_tags b e)"
  unfolding or_tags_def [of "or_merge a b"] fm_get_def
  by (auto simp: fmlookup_or_merge) (auto simp: or_tags_def fm_get_def)

lemma or_eqI:
  assumes "\<And>e. fmlookup (entries a) e = fmlookup (entries b) e"
    and "tombstones a = tombstones b" "tag_counter a = tag_counter b"
  shows "(a :: orset) = b"
  using assms by (simp add: fmap_ext)

interpretation orset: crdt or_merge "\<lambda>_. True"
proof
  fix a b c :: orset
  show "or_merge a b = or_merge b a"
    by (rule or_eqI) (auto simp: fmlookup_or_merge max_into_commute)
  show "or_merge (or_merge a b) c = or_merge a (or_merge b c)"
    by (rule or_eqI) (auto simp: fmlookup_or_merge max_into_assoc)
  show "or_merge (or_merge a b) b = or_merge a b"
    by (rule or_eqI) (auto simp: fmlookup_or_merge max_into_absorb)
qed simp

section \<open>The tag invariant\<close>

text \<open>
  Tags never run ahead of the tag counters, no live tag is tombstoned and no tag belongs
  to two elements. Merging needs the last of these across the two replicas, which holds
  when every node id is used by one replica only.
\<close>

definition or_inv :: "orset \<Rightarrow> bool" where
  "or_inv s \<longleftrightarrow>
     (\<forall>e t n. (t, n) |\<in>| or_tags s e \<longrightarrow> t \<le> fm_get 0 (tag_counter s) n) \<and>
     (\<forall>t n. (t, n) |\<in>| tombstones s \<longrightarrow> t \<le> fm_get 0 (tag_counter s) n) \<and>
     (\<forall>e t. t |\<in>| or_tags s e \<longrightarrow> t |\<notin>| tombstones s) \<and>
     (\<forall>e e' t. t |\<in>| or_tags s e \<longrightarrow> t |\<in>| or_tags s e' \<longrightarrow> e = e')"

lemma or_contains_iff: "or_contains s e \<longleftrightarrow> or_tags s e \<noteq> {||}"
  by (simp add: or_contains_def or_tags_def fm_get_def split: option.split)

lemma or_tags_new [simp]: "or_tags or_new e = {||}"
  by (simp add: or_tags_def or_new_def)

lemma or_add_fields:
  "or_tags (or_add s e n) e' =
     (if e' = e then finsert (fm_get 0 (tag_counter s) n + 1, n) (or_tags s e) else or_tags s e')"
  "tombstones (or_add s e n) = tombstones s"
  "tag_counter (or_add s e n) = fmupd n (fm_get 0 (tag_counter s) n + 1) (tag_counter s)"
  by (simp_all add: or_add_def next_tag_def or_tags_def Let_def)

lemma or_remove_fields:
  "or_tags (or_remove s e) e' = (if e' = e then {||} else or_tags s e')"
  "tombstones (or_remove s e) = tombstones s |\<union>| or_tags s e"
  "tag_counter (or_remove s e) = tag_counter s"
  by (simp_all add: or_remove_def or_tags_def fm_get_def split: option.split)

lemmas or_fields = or_add_fields or_remove_fields or_contains_iff

lemma or_inv_new: "or_inv or_new"
  by (simp add: or_inv_def) (simp add: or_new_def)

lemma or_inv_add:
  assumes inv: "or_inv s" and fresh: "fm_get 0 (tag_counter s) n \<noteq> - 1"
  shows "or_inv (or_add s e n)"
proof -
  let ?c = "fm_get 0 (tag_counter s) n"
  have lt: "?c < ?c + 1" using fresh by (rule word_less_succ)
  have new: "(?c + 1, n) |\<notin>| or_tags s e'" "(?c + 1, n) |\<notin>| tombstones s" for e'
    using inv lt by (meson leD or_inv_def)+
  show ?thesis
    using inv new lt unfolding or_inv_def or_add_fields
    by (auto simp: or_fields intro: word_le_succ [OF fresh] split: if_splits)
qed

lemma or_inv_remove: "or_inv s \<Longrightarrow> or_inv (or_remove s e)"
  unfolding or_inv_def or_remove_fields by (auto split: if_splits)

lemma or_inv_merge:
  assumes "or_inv a" "or_inv b"
    and unique: "\<forall>e e' t. t |\<in>| or_tags a e \<longrightarrow> t |\<in>| or_tags b e' \<longrightarrow> e = e'"
  shows "or_inv (or_merge a b)"
  using assms unfolding or_inv_def
  by (simp add: le_max_iff_disj) (intro conjI allI impI; metis)

text \<open>
  A removal only takes away what it has observed: a concurrent addition of the same element
  on the node that owns the tag survives the merge, in either order.
\<close>

lemma or_add_wins_aux:
  assumes inv: "or_inv a" "or_inv b"
    and own: "fm_get 0 (tag_counter a) n \<le> fm_get 0 (tag_counter b) n"
    and fresh: "fm_get 0 (tag_counter b) n \<noteq> - 1"
  shows "or_contains (or_merge (or_remove a e) (or_add b e n)) e"
proof -
  let ?t = "(fm_get 0 (tag_counter b) n + 1, n)"
  have lt: "fm_get 0 (tag_counter b) n < fm_get 0 (tag_counter b) n + 1"
    using fresh by (rule word_less_succ)
  have "?t |\<notin>| tombstones b"
    using inv(2) lt by (meson leD or_inv_def)
  moreover have "?t |\<notin>| tombstones a" "?t |\<notin>| or_tags a e"
    using inv(1) lt own by (meson leD le_less_trans or_inv_def)+
  ultimately have "?t |\<in>| or_tags (or_merge (or_remove a e) (or_add b e n)) e"
    by (simp add: or_fields)
  then show ?thesis by (auto simp: or_contains_iff)
qed

text \<open>An element whose tags the other replica has all observed is gone after its removal.\<close>

lemma or_remove_observed_aux:
  assumes "or_tags b e |\<subseteq>| or_tags a e |\<union>| tombstones a"
  shows "\<not> or_contains (or_merge (or_remove a e) b) e"
  using assms by (auto simp: or_fields)

section \<open>Properties\<close>

text \<open>
  C16: observed-remove sets converge unconditionally: replicas that start from the same state and receive the same set of
  states in any order and with any repetition end in the same state, tombstones and tag
  counters included, and so agree on every element.
\<close>

theorem orset_converges:
  assumes "set xs = set ys"
  shows "fold (\<lambda>r s. or_merge s r) xs a = fold (\<lambda>r s. or_merge s r) ys a"
  using orset.convergence [where a = a and xs = xs and ys = ys] assms by simp

theorem orset_converges_witness:
  "fold (\<lambda>r s. or_merge s r) [or_add or_new ''e'' ''n1'', or_add or_new ''f'' ''n2''] or_new =
   fold (\<lambda>r s. or_merge s r) [or_add or_new ''f'' ''n2'', or_add or_new ''e'' ''n1'',
     or_add or_new ''f'' ''n2''] or_new"
  by (rule orset_converges) auto

text \<open>
  C38: additions win over concurrent removals: if one replica removes an element while the
  node that owns the next tag adds it, the merged set contains the element, provided the
  removing replica has not seen more additions of that node than the node itself.
\<close>

theorem orset_add_wins:
  assumes "or_inv a" "or_inv b"
    and "fm_get 0 (tag_counter a) n \<le> fm_get 0 (tag_counter b) n"
    and "fm_get 0 (tag_counter b) n \<noteq> - 1"
  shows "or_contains (or_merge (or_remove a e) (or_add b e n)) e \<and>
    or_contains (or_merge (or_add b e n) (or_remove a e)) e"
  using or_add_wins_aux [OF assms, of e] orset.merge_commute by metis

theorem orset_add_wins_witness:
  "let b = or_add or_new ''e'' ''n1''
   in or_contains (or_merge (or_remove b ''e'') (or_add b ''e'' ''n1'')) ''e'' \<and>
      \<not> or_contains (or_remove b ''e'') ''e''"
proof -
  let ?b = "or_add or_new ''e'' ''n1''"
  have inv: "or_inv ?b"
    by (rule or_inv_add [OF or_inv_new]) (simp add: or_new_def)
  have "fm_get 0 (tag_counter ?b) ''n1'' \<noteq> - 1"
    by (simp add: or_add_fields) (simp add: or_new_def)
  from orset_add_wins [OF inv inv order_refl this, of "''e''"]
  show ?thesis by (simp only: Let_def) (simp add: or_contains_iff [of "or_remove _ _"] or_remove_fields)
qed

text \<open>
  the tag invariant (tags never run ahead of the tag counters, no live tag is
  tombstoned, a tag belongs to one element) holds of the empty set and is kept by adding,
  removing and merging, where merging needs the two replicas to agree on which element
  each tag belongs to.
\<close>

theorem orset_invariant:
  "or_inv or_new \<and>
   (or_inv s \<longrightarrow> fm_get 0 (tag_counter s) n \<noteq> - 1 \<longrightarrow> or_inv (or_add s e n)) \<and>
   (or_inv s \<longrightarrow> or_inv (or_remove s e)) \<and>
   (or_inv s \<longrightarrow> or_inv s' \<longrightarrow>
     (\<forall>e e' t. t |\<in>| or_tags s e \<longrightarrow> t |\<in>| or_tags s' e' \<longrightarrow> e = e') \<longrightarrow> or_inv (or_merge s s'))"
  using or_inv_new or_inv_add or_inv_remove or_inv_merge by blast

theorem orset_invariant_witness: "or_inv (or_remove (or_add or_new ''e'' ''n1'') ''e'')"
proof -
  have "or_inv (or_add or_new ''e'' ''n1'')"
    using orset_invariant [of or_new "''n1''" "''e''"] by (simp add: or_new_def)
  then show ?thesis
    using orset_invariant [of "or_add or_new ''e'' ''n1''"] by blast
qed

end
