(* ===== verification/Mvcc_Chain.thy ===== *)
theory Mvcc_Chain
  imports Prelude
begin

text \<open>
  Version chains of the multi-version store, \<open>crates/joule-db-core/src/concurrency/mvcc.rs\<close>:
  one key's versions, newest last, with commit, abort, visibility and garbage collection.

  Timestamps and transaction ids are the values of one counter that starts at 1 and is only
  incremented; they are natural numbers here, since \<open>2 ^ 64\<close> increments are out of reach.
\<close>

type_synonym txid = nat

record version =
  data :: "bytes option"
  write_ts :: nat
  created_by :: txid
  committed :: bool

definition version_new :: "bytes option \<Rightarrow> nat \<Rightarrow> txid \<Rightarrow> version" where
  "version_new d ts tx = \<lparr>data = d, write_ts = ts, created_by = tx, committed = False\<rparr>"

definition is_tombstone :: "version \<Rightarrow> bool" where
  "is_tombstone v \<longleftrightarrow> data v = None"

record version_chain =
  versions :: "version list"
  min_retain_ts :: nat
  cached_latest_committed_ts :: "nat option"

definition chain_new :: version_chain where
  "chain_new = \<lparr>versions = [], min_retain_ts = 0, cached_latest_committed_ts = None\<rparr>"

definition add_version :: "version_chain \<Rightarrow> version \<Rightarrow> version_chain" where
  "add_version c v = c\<lparr>versions := versions c @ [v]\<rparr>"

text \<open>The loop of \<open>find_visible\<close>, over the versions newest first.\<close>

fun find_visible_loop :: "nat \<Rightarrow> txid fset \<Rightarrow> version list \<Rightarrow> version option" where
  "find_visible_loop read_ts active [] = None"
| "find_visible_loop read_ts active (v # vs) =
     (if \<not> committed v \<and> created_by v |\<in>| active then find_visible_loop read_ts active vs
      else if committed v \<and> write_ts v \<le> read_ts then Some v
      else find_visible_loop read_ts active vs)"

definition find_visible :: "version_chain \<Rightarrow> nat \<Rightarrow> txid fset \<Rightarrow> version option" where
  "find_visible c read_ts active = find_visible_loop read_ts active (rev (versions c))"

definition find_by_txn :: "version_chain \<Rightarrow> txid \<Rightarrow> version option" where
  "find_by_txn c tx = List.find (\<lambda>v. created_by v = tx) (rev (versions c))"

text \<open>Writing through \<open>find_by_txn_mut\<close>: the newest version of the transaction is changed.\<close>

fun update_first :: "('a \<Rightarrow> bool) \<Rightarrow> ('a \<Rightarrow> 'a) \<Rightarrow> 'a list \<Rightarrow> 'a list" where
  "update_first P f [] = []"
| "update_first P f (x # xs) = (if P x then f x # xs else x # update_first P f xs)"

definition update_by_txn :: "version_chain \<Rightarrow> txid \<Rightarrow> (version \<Rightarrow> version) \<Rightarrow> version_chain" where
  "update_by_txn c tx f =
     c\<lparr>versions := rev (update_first (\<lambda>v. created_by v = tx) f (rev (versions c)))\<rparr>"

definition raise_cached :: "nat option \<Rightarrow> nat \<Rightarrow> nat option" where
  "raise_cached cached ts =
     (case cached of Some c \<Rightarrow> if c \<ge> ts then cached else Some ts | None \<Rightarrow> Some ts)"

definition commit_version :: "version_chain \<Rightarrow> txid \<Rightarrow> version_chain" where
  "commit_version c tx =
     (case find_by_txn c tx of
        Some v \<Rightarrow> (update_by_txn c tx (\<lambda>v. v\<lparr>committed := True\<rparr>))
          \<lparr>cached_latest_committed_ts := raise_cached (cached_latest_committed_ts c) (write_ts v)\<rparr>
      | None \<Rightarrow> c)"

definition commit_version_with_ts :: "version_chain \<Rightarrow> txid \<Rightarrow> nat \<Rightarrow> version_chain" where
  "commit_version_with_ts c tx commit_ts =
     (update_by_txn c tx (\<lambda>v. v\<lparr>write_ts := commit_ts, committed := True\<rparr>))
       \<lparr>cached_latest_committed_ts := raise_cached (cached_latest_committed_ts c) commit_ts\<rparr>"

definition abort_version :: "version_chain \<Rightarrow> txid \<Rightarrow> version_chain" where
  "abort_version c tx = c\<lparr>versions := filter (\<lambda>v. created_by v \<noteq> tx \<or> committed v) (versions c)\<rparr>"

text \<open>\<open>Iterator::max\<close>: nothing for an empty iterator.\<close>

definition max_opt :: "nat list \<Rightarrow> nat option" where
  "max_opt xs = (if xs = [] then None else Some (Max (set xs)))"

definition keeper_idx :: "version list \<Rightarrow> nat \<Rightarrow> nat option" where
  "keeper_idx vs oldest_active_ts =
     map_option fst (List.find (\<lambda>(_, v). committed v \<and> write_ts v < oldest_active_ts)
       (rev (enumerate 0 vs)))"

definition gc_keep :: "version list \<Rightarrow> nat \<Rightarrow> nat \<Rightarrow> version \<Rightarrow> bool" where
  "gc_keep vs oldest_active_ts i v \<longleftrightarrow>
     (if \<not> committed v then True
      else if write_ts v \<ge> oldest_active_ts then True
      else Some i = keeper_idx vs oldest_active_ts)"

definition chain_gc :: "version_chain \<Rightarrow> nat \<Rightarrow> version_chain" where
  "chain_gc c oldest_active_ts =
     (let vs = map snd (filter (\<lambda>(i, v). gc_keep (versions c) oldest_active_ts i v)
                 (enumerate 0 (versions c)))
      in c\<lparr>min_retain_ts := oldest_active_ts, versions := vs,
           cached_latest_committed_ts := max_opt (map write_ts (filter committed vs))\<rparr>)"

text \<open>The loop of \<open>has_write_conflict\<close>.\<close>

fun write_conflict_loop :: "txid \<Rightarrow> nat \<Rightarrow> version list \<Rightarrow> bool" where
  "write_conflict_loop tx read_ts [] = False"
| "write_conflict_loop tx read_ts (v # vs) =
     (if \<not> committed v \<and> created_by v \<noteq> tx then True
      else if committed v \<and> write_ts v > read_ts then True
      else write_conflict_loop tx read_ts vs)"

definition has_write_conflict :: "version_chain \<Rightarrow> txid \<Rightarrow> nat \<Rightarrow> bool" where
  "has_write_conflict c tx read_ts = write_conflict_loop tx read_ts (rev (versions c))"

definition latest_committed_ts :: "version_chain \<Rightarrow> nat option" where
  "latest_committed_ts c = cached_latest_committed_ts c"

definition chain_is_empty :: "version_chain \<Rightarrow> bool" where
  "chain_is_empty c \<longleftrightarrow> versions c = []"

definition chain_len :: "version_chain \<Rightarrow> nat" where
  "chain_len c = length (versions c)"

section \<open>Lemmas\<close>

text \<open>Visibility depends on the committed versions alone: the newest one not after the read timestamp.\<close>

lemma find_visible_loop_eq:
  "find_visible_loop read_ts active vs = List.find (\<lambda>v. committed v \<and> write_ts v \<le> read_ts) vs"
  by (induction vs) auto

lemma find_visible_eq:
  "find_visible c read_ts active =
    List.find (\<lambda>v. committed v \<and> write_ts v \<le> read_ts) (rev (versions c))"
  by (simp add: find_visible_def find_visible_loop_eq)

lemma find_append: "List.find P (xs @ ys) = (case List.find P xs of None \<Rightarrow> List.find P ys | Some x \<Rightarrow> Some x)"
  by (induction xs) auto

lemma find_filter: "(\<And>x. x \<in> set xs \<Longrightarrow> P x \<Longrightarrow> Q x) \<Longrightarrow> List.find P (filter Q xs) = List.find P xs"
  by (induction xs) auto

lemma find_None_iff_set: "List.find P xs = None \<longleftrightarrow> (\<forall>x\<in>set xs. \<not> P x)"
  by (auto simp: find_None_iff)

lemma find_SomeD: "List.find P xs = Some x \<Longrightarrow> P x \<and> x \<in> set xs"
  by (induction xs) (auto split: if_splits)

lemma update_first_id: "\<forall>x\<in>set xs. \<not> P x \<Longrightarrow> update_first P f xs = xs"
  by (induction xs) auto

lemma set_update_first: "set (update_first P f xs) \<subseteq> set xs \<union> f ` {x \<in> set xs. P x}"
  by (induction xs) auto

text \<open>Changing a version that is invisible before and after the change is not observable.\<close>

lemma find_update_first_invisible:
  "(\<And>x. x \<in> set xs \<Longrightarrow> P x \<Longrightarrow> \<not> Q x \<and> \<not> Q (f x)) \<Longrightarrow>
    List.find Q (update_first P f xs) = List.find Q xs"
  by (induction xs) auto

lemma find_filter_keep:
  "(\<And>x. List.find P xs = Some x \<Longrightarrow> K x) \<Longrightarrow> List.find P (filter K xs) = List.find P xs"
  by (induction xs) (auto split: if_splits)

lemma find_stronger:
  "List.find P xs = Some x \<Longrightarrow> P' x \<Longrightarrow> (\<And>y. P' y \<Longrightarrow> P y) \<Longrightarrow> List.find P' xs = Some x"
  by (induction xs) (auto split: if_splits)

lemma find_map: "List.find P (map f xs) = map_option f (List.find (\<lambda>x. P (f x)) xs)"
  by (induction xs) auto

lemma find_visible_update_by_txn:
  assumes "\<And>v. v \<in> set (versions c) \<Longrightarrow> created_by v = tx \<Longrightarrow>
      \<not> (committed v \<and> write_ts v \<le> r) \<and> \<not> (committed (f v) \<and> write_ts (f v) \<le> r)"
  shows "find_visible (update_by_txn c tx f) r A = find_visible c r A"
proof -
  have "List.find (\<lambda>v. committed v \<and> write_ts v \<le> r)
      (update_first (\<lambda>v. created_by v = tx) f (rev (versions c))) =
    List.find (\<lambda>v. committed v \<and> write_ts v \<le> r) (rev (versions c))"
    using assms by (intro find_update_first_invisible) auto
  then show ?thesis by (simp add: find_visible_eq update_by_txn_def)
qed

lemma find_visible_add_uncommitted:
  "\<not> committed v \<Longrightarrow> find_visible (add_version c v) r A = find_visible c r A"
  by (simp add: find_visible_eq add_version_def)

lemma find_visible_abort: "find_visible (abort_version c tx) r A = find_visible c r A"
proof -
  have "List.find (\<lambda>v. committed v \<and> write_ts v \<le> r)
      (filter (\<lambda>v. created_by v \<noteq> tx \<or> committed v) (rev (versions c))) =
    List.find (\<lambda>v. committed v \<and> write_ts v \<le> r) (rev (versions c))"
    by (rule find_filter) auto
  then show ?thesis by (simp add: find_visible_eq abort_version_def rev_filter)
qed

text \<open>
  Garbage collection keeps what every snapshot from \<open>oldest_active_ts\<close> on sees: the version such a
  snapshot reads is either not older than \<open>oldest_active_ts\<close>, or the designated keeper.
\<close>

lemma versions_chain_gc:
  "versions (chain_gc c old) =
    map snd (filter (\<lambda>(i, v). gc_keep (versions c) old i v) (enumerate 0 (versions c)))"
  by (simp add: chain_gc_def Let_def)

lemma map_snd_enumerate: "map snd (enumerate n xs) = xs"
  by simp

lemma find_visible_gc:
  assumes "old \<le> r"
  shows "find_visible (chain_gc c old) r A = find_visible c r A"
proof -
  let ?es = "rev (enumerate 0 (versions c))"
  let ?P = "\<lambda>e. committed (snd e) \<and> write_ts (snd e) \<le> r"
  have "List.find ?P (filter (\<lambda>(i, v). gc_keep (versions c) old i v) ?es) = List.find ?P ?es"
  proof (rule find_filter_keep)
    fix e assume e: "List.find ?P ?es = Some e"
    then have vis: "committed (snd e)" "write_ts (snd e) \<le> r" using find_SomeD [OF e] by auto
    show "case e of (i, v) \<Rightarrow> gc_keep (versions c) old i v"
    proof (cases "write_ts (snd e) \<ge> old")
      case True then show ?thesis by (simp add: gc_keep_def split_beta)
    next
      case False
      with e vis assms have "List.find (\<lambda>(_, v). committed v \<and> write_ts v < old) ?es = Some e"
        by (intro find_stronger [OF e]) auto
      then show ?thesis by (simp add: gc_keep_def keeper_idx_def split_beta)
    qed
  qed
  moreover have "rev (versions c) = map snd ?es" by (simp flip: rev_map)
  ultimately show ?thesis
    by (simp add: find_visible_eq versions_chain_gc rev_map rev_filter find_map)
qed

lemma set_versions_chain_gc: "set (versions (chain_gc c old)) \<subseteq> set (versions c)"
  by (auto simp: versions_chain_gc in_set_enumerate_eq)

lemma uncommitted_chain_gc:
  "filter (\<lambda>v. \<not> committed v) (versions (chain_gc c old)) = filter (\<lambda>v. \<not> committed v) (versions c)"
proof -
  have "filter (\<lambda>v. \<not> committed v) (versions (chain_gc c old)) =
      map snd (filter (\<lambda>e. \<not> committed (snd e)) (enumerate 0 (versions c)))"
    by (simp add: versions_chain_gc filter_map comp_def gc_keep_def split_beta)
  also have "\<dots> = filter (\<lambda>v. \<not> committed v) (map snd (enumerate 0 (versions c)))"
    by (simp add: filter_map comp_def del: map_snd_enumerate)
  finally show ?thesis by simp
qed

text \<open>At most one old committed version survives: the collection is not vacuous.\<close>

lemma length_chain_gc_old:
  "length (filter (\<lambda>v. committed v \<and> write_ts v < old) (versions (chain_gc c old))) \<le> 1"
proof -
  let ?K = "\<lambda>(i, v). gc_keep (versions c) old i v"
  let ?O = "\<lambda>e :: nat \<times> version. committed (snd e) \<and> write_ts (snd e) < old"
  let ?xs = "filter (\<lambda>e. ?O e \<and> ?K e) (enumerate 0 (versions c))"
  have d: "distinct (map fst ?xs)"
    by (rule distinct_map_filter) simp
  have "set (map fst ?xs) \<subseteq> set_option (keeper_idx (versions c) old)"
    by (auto simp: gc_keep_def split: option.splits)
  then have "card (set (map fst ?xs)) \<le> card (set_option (keeper_idx (versions c) old))"
    by (rule card_mono [rotated]) simp
  also have "\<dots> \<le> 1" by (cases "keeper_idx (versions c) old") auto
  finally have "card (set (map fst ?xs)) \<le> 1" .
  then have "length ?xs \<le> 1" unfolding distinct_card [OF d] by simp
  moreover have "filter (\<lambda>v. committed v \<and> write_ts v < old) (versions (chain_gc c old)) = map snd ?xs"
    by (simp add: versions_chain_gc filter_map comp_def conj_commute)
  ultimately show ?thesis by (simp del: filter_filter)
qed

section \<open>Well-formed chains\<close>

text \<open>
  A chain between two operations, for the oracle value \<open>n\<close> and the active transactions \<open>A\<close>:
  committed versions in the order of their timestamps, all drawn from the oracle before, then at most
  one intent, of an active transaction; the cached timestamp is the one of the newest committed version.
\<close>

definition chain_ok :: "nat \<Rightarrow> txid fset \<Rightarrow> version_chain \<Rightarrow> bool" where
  "chain_ok n A c \<longleftrightarrow>
     (let cs = filter committed (versions c); us = filter (\<lambda>v. \<not> committed v) (versions c)
      in versions c = cs @ us \<and> length us \<le> 1 \<and> sorted_wrt (<) (map write_ts cs) \<and>
         list_all (\<lambda>v. write_ts v < n \<and> created_by v < n \<and> created_by v |\<notin>| A) cs \<and>
         list_all (\<lambda>v. created_by v |\<in>| A) us \<and>
         cached_latest_committed_ts c = (if cs = [] then None else Some (write_ts (last cs))))"

definition own_intent :: "version_chain \<Rightarrow> txid \<Rightarrow> bytes option option" where
  "own_intent c tx = map_option data (List.find (\<lambda>v. \<not> committed v \<and> created_by v = tx) (versions c))"

lemma chain_okE:
  assumes "chain_ok n A c"
  obtains cs us where "versions c = cs @ us" "us = [] \<or> (\<exists>u. us = [u])"
    "\<forall>v\<in>set cs. committed v \<and> write_ts v < n \<and> created_by v < n \<and> created_by v |\<notin>| A"
    "\<forall>v\<in>set us. \<not> committed v \<and> created_by v |\<in>| A"
    "sorted_wrt (<) (map write_ts cs)"
    "cached_latest_committed_ts c = (if cs = [] then None else Some (write_ts (last cs)))"
proof -
  let ?cs = "filter committed (versions c)" and ?us = "filter (\<lambda>v. \<not> committed v) (versions c)"
  have c: "versions c = ?cs @ ?us" "length ?us \<le> 1" "sorted_wrt (<) (map write_ts ?cs)"
    "list_all (\<lambda>v. write_ts v < n \<and> created_by v < n \<and> created_by v |\<notin>| A) ?cs"
    "list_all (\<lambda>v. created_by v |\<in>| A) ?us"
    "cached_latest_committed_ts c = (if ?cs = [] then None else Some (write_ts (last ?cs)))"
    using assms unfolding chain_ok_def Let_def by blast+
  from c(2) have "?us = [] \<or> (\<exists>u. ?us = [u])"
    by (metis One_nat_def le_SucE le_zero_eq length_0_conv length_Suc_conv)
  moreover from c(4,5) have
    "\<forall>v\<in>set ?cs. committed v \<and> write_ts v < n \<and> created_by v < n \<and> created_by v |\<notin>| A"
    "\<forall>v\<in>set ?us. \<not> committed v \<and> created_by v |\<in>| A"
    by (simp_all add: list_all_iff)
  ultimately show thesis using c(1,3,6) that by blast
qed

lemma chain_okI:
  assumes "versions c = cs @ us" "us = [] \<or> (\<exists>u. us = [u])"
    "\<forall>v\<in>set cs. committed v \<and> write_ts v < n \<and> created_by v < n \<and> created_by v |\<notin>| A"
    "\<forall>v\<in>set us. \<not> committed v \<and> created_by v |\<in>| A"
    "sorted_wrt (<) (map write_ts cs)"
    "cached_latest_committed_ts c = (if cs = [] then None else Some (write_ts (last cs)))"
  shows "chain_ok n A c"
proof -
  have "filter committed cs = cs" "filter (\<lambda>v. \<not> committed v) cs = []"
    "filter committed us = []" "filter (\<lambda>v. \<not> committed v) us = us"
    using assms(3,4) by (simp_all add: filter_id_conv filter_empty_conv)
  with assms show ?thesis by (auto simp: chain_ok_def list_all_iff)
qed

lemma chain_ok_new: "chain_ok n A chain_new"
  by (simp add: chain_ok_def chain_new_def)

lemma chain_ok_cong:
  "versions c = versions c' \<Longrightarrow> cached_latest_committed_ts c = cached_latest_committed_ts c' \<Longrightarrow>
    chain_ok n A c = chain_ok n A c'"
  by (simp add: chain_ok_def)

lemma own_intent_None:
  "own_intent c tx = None \<longleftrightarrow> (\<forall>v\<in>set (versions c). \<not> committed v \<longrightarrow> created_by v \<noteq> tx)"
  by (auto simp: own_intent_def find_None_iff_set)

text \<open>Time passes and the set of active transactions changes.\<close>

lemma chain_ok_mono:
  assumes "chain_ok n A c" "n \<le> n'" "A' |\<subseteq>| finsert n A"
    "\<forall>v\<in>set (versions c). \<not> committed v \<longrightarrow> created_by v |\<in>| A'"
  shows "chain_ok n' A' c"
proof -
  obtain cs us where c: "versions c = cs @ us" "us = [] \<or> (\<exists>u. us = [u])"
    "\<forall>v\<in>set cs. committed v \<and> write_ts v < n \<and> created_by v < n \<and> created_by v |\<notin>| A"
    "\<forall>v\<in>set us. \<not> committed v \<and> created_by v |\<in>| A"
    "sorted_wrt (<) (map write_ts cs)"
    "cached_latest_committed_ts c = (if cs = [] then None else Some (write_ts (last cs)))"
    using assms(1) by (rule chain_okE)
  have "\<forall>v\<in>set cs. committed v \<and> write_ts v < n' \<and> created_by v < n' \<and> created_by v |\<notin>| A'"
    using c(3) assms(2,3) by fastforce
  with c assms(4) show ?thesis by (intro chain_okI [of c cs us]) auto
qed

text \<open>While a transaction is active its newest version is its intent.\<close>

lemma find_by_txn_own:
  assumes "chain_ok n A c" "tx |\<in>| A"
  shows "map_option data (find_by_txn c tx) = own_intent c tx"
    and "find_by_txn c tx = None \<longleftrightarrow> own_intent c tx = None"
proof -
  obtain cs us where c: "versions c = cs @ us" "us = [] \<or> (\<exists>u. us = [u])"
    "\<forall>v\<in>set cs. committed v \<and> created_by v |\<notin>| A" "\<forall>v\<in>set us. \<not> committed v"
    using assms(1) by (rule chain_okE) blast
  have "List.find (\<lambda>v. created_by v = tx) (rev cs) = None"
    using c(3) assms(2) by (auto simp: find_None_iff_set)
  moreover have "List.find (\<lambda>v. \<not> committed v \<and> created_by v = tx) cs = None"
    using c(3) by (auto simp: find_None_iff_set)
  ultimately show "map_option data (find_by_txn c tx) = own_intent c tx"
    using c by (auto simp: find_by_txn_def own_intent_def find_append)
  then show "find_by_txn c tx = None \<longleftrightarrow> own_intent c tx = None"
    by (metis map_option_is_None)
qed

text \<open>With no conflicting intent and none of its own, a transaction may add one.\<close>

lemma chain_ok_add_intent:
  assumes ok: "chain_ok n A c" and tx: "tx |\<in>| A" and none: "\<forall>v\<in>set (versions c). committed v"
  shows "chain_ok n A (add_version c (version_new d ts tx))"
proof -
  obtain cs us where c: "versions c = cs @ us" "us = [] \<or> (\<exists>u. us = [u])"
    "\<forall>v\<in>set cs. committed v \<and> write_ts v < n \<and> created_by v < n \<and> created_by v |\<notin>| A"
    "\<forall>v\<in>set us. \<not> committed v \<and> created_by v |\<in>| A"
    "sorted_wrt (<) (map write_ts cs)"
    "cached_latest_committed_ts c = (if cs = [] then None else Some (write_ts (last cs)))"
    using ok by (rule chain_okE)
  with none have "us = []" by auto
  with c tx show ?thesis
    by (intro chain_okI [of _ cs "[version_new d ts tx]"]) (auto simp: add_version_def version_new_def)
qed

text \<open>A chain whose intent belongs to \<open>tx\<close>.\<close>

lemma chain_ok_ownE:
  assumes "chain_ok n A c" "own_intent c tx = Some d" "tx |\<in>| A"
  obtains cs u where "versions c = cs @ [u]" "data u = d" "created_by u = tx" "\<not> committed u"
    "\<forall>v\<in>set cs. committed v \<and> write_ts v < n \<and> created_by v < n \<and> created_by v |\<notin>| A"
    "sorted_wrt (<) (map write_ts cs)"
    "cached_latest_committed_ts c = (if cs = [] then None else Some (write_ts (last cs)))"
proof -
  obtain cs us where c: "versions c = cs @ us" "us = [] \<or> (\<exists>u. us = [u])"
    "\<forall>v\<in>set cs. committed v \<and> write_ts v < n \<and> created_by v < n \<and> created_by v |\<notin>| A"
    "\<forall>v\<in>set us. \<not> committed v \<and> created_by v |\<in>| A"
    "sorted_wrt (<) (map write_ts cs)"
    "cached_latest_committed_ts c = (if cs = [] then None else Some (write_ts (last cs)))"
    using assms(1) by (rule chain_okE)
  have "List.find (\<lambda>v. \<not> committed v \<and> created_by v = tx) cs = None"
    using c(3) by (auto simp: find_None_iff_set)
  with assms(2) c obtain u where "us = [u]" "created_by u = tx" "data u = d"
    by (auto simp: own_intent_def find_append split: if_splits)
  with c that [of cs u] show thesis by simp
qed

lemma update_first_rev_last: "P u \<Longrightarrow> rev (update_first P f (rev (cs @ [u]))) = cs @ [f u]"
  by simp

lemma chain_ok_update_intent:
  assumes "chain_ok n A c" "own_intent c tx = Some d0" "tx |\<in>| A"
  shows "chain_ok n A (update_by_txn c tx (\<lambda>w. w\<lparr>data := d, write_ts := ts\<rparr>))"
proof -
  obtain cs u where c: "versions c = cs @ [u]" "created_by u = tx" "\<not> committed u"
    "\<forall>v\<in>set cs. committed v \<and> write_ts v < n \<and> created_by v < n \<and> created_by v |\<notin>| A"
    "sorted_wrt (<) (map write_ts cs)"
    "cached_latest_committed_ts c = (if cs = [] then None else Some (write_ts (last cs)))"
    using assms by (rule chain_ok_ownE)
  with assms(3) show ?thesis
    by (intro chain_okI [of _ cs "[u\<lparr>data := d, write_ts := ts\<rparr>]"]) (auto simp: update_by_txn_def)
qed

text \<open>Committing at the oracle's value: the intent becomes the newest committed version.\<close>

lemma commit_chain:
  assumes "chain_ok n A c" "own_intent c tx = Some d" "tx |\<in>| A" "tx < n"
  shows chain_ok_commit: "chain_ok (n + 1) (A |-| {|tx|}) (commit_version_with_ts c tx n)"
    and find_visible_commit: "map_option (\<lambda>v. (data v, write_ts v)) (find_visible (commit_version_with_ts c tx n) r B) =
        (if n \<le> r then Some (d, n) else map_option (\<lambda>v. (data v, write_ts v)) (find_visible c r B))"
    and own_intent_commit: "own_intent (commit_version_with_ts c tx n) tx' = (if tx' = tx then None else own_intent c tx')"
proof -
  obtain cs u where c: "versions c = cs @ [u]" "data u = d" "created_by u = tx" "\<not> committed u"
    "\<forall>v\<in>set cs. committed v \<and> write_ts v < n \<and> created_by v < n \<and> created_by v |\<notin>| A"
    "sorted_wrt (<) (map write_ts cs)"
    "cached_latest_committed_ts c = (if cs = [] then None else Some (write_ts (last cs)))"
    using assms(1-3) by (rule chain_ok_ownE)
  let ?u = "u\<lparr>write_ts := n, committed := True\<rparr>"
  have v: "versions (commit_version_with_ts c tx n) = cs @ [?u]"
    using c by (simp add: commit_version_with_ts_def update_by_txn_def)
  have cached: "cached_latest_committed_ts (commit_version_with_ts c tx n) = Some n"
    using c(5,7) by (auto simp: commit_version_with_ts_def raise_cached_def last_in_set
        dest!: bspec [of "set cs" _ "last cs"])
  show "chain_ok (n + 1) (A |-| {|tx|}) (commit_version_with_ts c tx n)"
    using c v cached assms(4)
    by (intro chain_okI [of _ "cs @ [?u]" "[]"]) (auto simp: sorted_wrt_append)
  show "map_option (\<lambda>v. (data v, write_ts v)) (find_visible (commit_version_with_ts c tx n) r B) =
        (if n \<le> r then Some (d, n) else map_option (\<lambda>v. (data v, write_ts v)) (find_visible c r B))"
    using c v by (simp add: find_visible_eq)
  have "List.find (\<lambda>v. \<not> committed v \<and> created_by v = tx') cs = None"
    using c(5) by (auto simp: find_None_iff_set)
  with c v show "own_intent (commit_version_with_ts c tx n) tx' = (if tx' = tx then None else own_intent c tx')"
    by (auto simp: own_intent_def find_append)
qed

lemma abort_chain:
  assumes "chain_ok n A c"
  shows chain_ok_abort: "chain_ok n (A |-| {|tx|}) (abort_version c tx)"
    and own_intent_abort: "own_intent (abort_version c tx) tx' = (if tx' = tx then None else own_intent c tx')"
proof -
  obtain cs us where c: "versions c = cs @ us" "us = [] \<or> (\<exists>u. us = [u])"
    "\<forall>v\<in>set cs. committed v \<and> write_ts v < n \<and> created_by v < n \<and> created_by v |\<notin>| A"
    "\<forall>v\<in>set us. \<not> committed v \<and> created_by v |\<in>| A"
    "sorted_wrt (<) (map write_ts cs)"
    "cached_latest_committed_ts c = (if cs = [] then None else Some (write_ts (last cs)))"
    using assms by (rule chain_okE)
  let ?us = "filter (\<lambda>v. created_by v \<noteq> tx) us"
  have "filter (\<lambda>v. created_by v \<noteq> tx \<or> committed v) cs = cs"
    using c(3) by (simp add: filter_id_conv)
  moreover have "filter (\<lambda>v. created_by v \<noteq> tx \<or> committed v) us = ?us"
    using c(4) by (auto intro: filter_cong)
  ultimately have v: "versions (abort_version c tx) = cs @ ?us" using c by (simp add: abort_version_def)
  show "chain_ok n (A |-| {|tx|}) (abort_version c tx)"
    using c v by (intro chain_okI [of _ cs ?us]) (auto simp: abort_version_def split: if_splits)
  have "List.find (\<lambda>v. \<not> committed v \<and> created_by v = tx') cs = None"
    using c(3) by (auto simp: find_None_iff_set)
  with c v show "own_intent (abort_version c tx) tx' = (if tx' = tx then None else own_intent c tx')"
    by (auto simp: own_intent_def find_append)
qed

lemma find_visible_latest:
  assumes "chain_ok n A c" "n \<le> r"
  shows "cached_latest_committed_ts c = map_option write_ts (find_visible c r B)"
proof -
  obtain cs us where c: "versions c = cs @ us"
    "\<forall>v\<in>set cs. committed v \<and> write_ts v < n" "\<forall>v\<in>set us. \<not> committed v"
    "cached_latest_committed_ts c = (if cs = [] then None else Some (write_ts (last cs)))"
    using assms(1) by (rule chain_okE) blast
  have "List.find (\<lambda>v. committed v \<and> write_ts v \<le> r) (rev us) = None"
    using c(3) by (auto simp: find_None_iff_set)
  with c assms(2) show ?thesis
    by (cases cs rule: rev_cases) (auto simp: find_visible_eq find_append)
qed

text \<open>Garbage collection keeps a chain well formed and every intent.\<close>

lemma own_intent_filter: "own_intent c tx = map_option data
    (List.find (\<lambda>v. \<not> committed v \<and> created_by v = tx) (filter (\<lambda>v. \<not> committed v) (versions c)))"
proof -
  have "List.find (\<lambda>v. \<not> committed v \<and> created_by v = tx) (filter (\<lambda>v. \<not> committed v) (versions c)) =
      List.find (\<lambda>v. \<not> committed v \<and> created_by v = tx) (versions c)"
    by (rule find_filter) auto
  then show ?thesis by (simp add: own_intent_def)
qed

lemma own_intent_gc [simp]: "own_intent (chain_gc c old) tx = own_intent c tx"
  by (simp add: own_intent_filter uncommitted_chain_gc)

lemma Max_sorted_last: "sorted_wrt (<) xs \<Longrightarrow> xs \<noteq> [] \<Longrightarrow> Max (set xs) = last xs" for xs :: "nat list"
  by (induction xs rule: rev_induct) (auto simp: sorted_wrt_append intro!: Max_eqI)

lemma chain_ok_gc:
  assumes "chain_ok n A c"
  shows "chain_ok n A (chain_gc c old)"
proof -
  obtain cs us where c: "versions c = cs @ us" "us = [] \<or> (\<exists>u. us = [u])"
    "\<forall>v\<in>set cs. committed v \<and> write_ts v < n \<and> created_by v < n \<and> created_by v |\<notin>| A"
    "\<forall>v\<in>set us. \<not> committed v \<and> created_by v |\<in>| A"
    "sorted_wrt (<) (map write_ts cs)"
    using assms by (rule chain_okE) blast
  let ?es = "filter (\<lambda>(i, v). gc_keep (versions c) old i v) (enumerate 0 cs)"
  let ?cs = "map snd ?es"
  have us: "map snd (filter (\<lambda>(i, v). gc_keep (versions c) old i v) (enumerate m us)) = us" for m
    using c(2,4) by (auto simp: gc_keep_def)
  have v: "versions (chain_gc c old) = ?cs @ us"
    using us by (simp add: versions_chain_gc c(1) enumerate_append_eq)
  have sub: "set ?cs \<subseteq> set cs" by (auto simp: in_set_enumerate_eq)
  have "sorted_wrt (\<lambda>x y. write_ts (snd x) < write_ts (snd y)) (enumerate 0 cs)"
    using c(5) sorted_wrt_map [of "\<lambda>x y. write_ts x < write_ts y" snd "enumerate 0 cs"]
    by (simp add: sorted_wrt_map)
  then have sorted: "sorted_wrt (<) (map write_ts ?cs)"
    by (simp add: sorted_wrt_map sorted_wrt_filter)
  have "filter committed ?cs = ?cs" "filter committed us = []"
    using c(3,4) sub by (auto simp: filter_id_conv filter_empty_conv)
  then have "filter committed (versions (chain_gc c old)) = ?cs" unfolding v by simp
  then have "cached_latest_committed_ts (chain_gc c old) = max_opt (map write_ts ?cs)"
    by (simp add: chain_gc_def Let_def)
  then have cached: "cached_latest_committed_ts (chain_gc c old) =
      (if ?cs = [] then None else Some (write_ts (last ?cs)))"
    using Max_sorted_last [OF sorted] by (auto simp: max_opt_def last_map)
  show ?thesis
    using c v cached sorted sub by (intro chain_okI [of _ ?cs us]) blast+
qed

end
