(* ===== verification/Mvcc.thy ===== *)
theory Mvcc
  imports Mvcc_Chain
begin

text \<open>
  The multi-version store and its transactions, \<open>crates/joule-db-core/src/concurrency/mvcc.rs\<close>:
  \<open>MvccStore\<close>, \<open>MvccTransaction\<close>, \<open>MvccTransactionManager\<close> and the record key encoding.

  The store is passed through every operation. \<open>next_timestamp\<close> is the global oracle: an
  operation that draws a timestamp takes the oracle's value and returns its successor. The lock
  poisoning branches of the source are left out: they need a panic in another thread.
\<close>

section \<open>Errors and transaction state\<close>

datatype tx_error =
    NotFound txid
  | AlreadyCommitted txid
  | AlreadyAborted txid
  | WriteConflict bytes txid
  | SerializationFailure string
  | ReadOnly
  | Timeout
  | Deadlock "txid list"

datatype tx_state = Active | Committed | Aborted

definition next_timestamp :: "nat \<Rightarrow> nat \<times> nat" where
  "next_timestamp oracle = (oracle, oracle + 1)"

section \<open>The store\<close>

record mvcc_store =
  chains :: "(bytes, version_chain) fmap"
  active_txns :: "txid fset"
  oldest_active_ts :: nat
  gc_threshold :: nat
  version_count :: nat

definition with_gc_threshold :: "nat \<Rightarrow> mvcc_store" where
  "with_gc_threshold t = \<lparr>chains = fmempty, active_txns = {||}, oldest_active_ts = 0,
     gc_threshold = t, version_count = 0\<rparr>"

definition store_new :: mvcc_store where
  "store_new = with_gc_threshold 10000"

definition register_active :: "mvcc_store \<Rightarrow> txid \<Rightarrow> mvcc_store" where
  "register_active s tx =
     (let current_oldest = oldest_active_ts s
      in s\<lparr>active_txns := finsert tx (active_txns s),
           oldest_active_ts := (if current_oldest = 0 \<or> tx < current_oldest then tx else current_oldest)\<rparr>)"

definition min_or_zero :: "nat fset \<Rightarrow> nat" where
  "min_or_zero A = (if A = {||} then 0 else fMin A)"

definition unregister_active :: "mvcc_store \<Rightarrow> txid \<Rightarrow> mvcc_store" where
  "unregister_active s tx =
     (let active = active_txns s |-| {|tx|}
      in s\<lparr>active_txns := active, oldest_active_ts := min_or_zero active\<rparr>)"

definition store_read :: "mvcc_store \<Rightarrow> bytes \<Rightarrow> nat \<Rightarrow> txid \<Rightarrow> bytes option \<times> nat option" where
  "store_read s key read_ts tx =
     (case fmlookup (chains s) key of
        Some chain \<Rightarrow>
          (case find_by_txn chain tx of
             Some v \<Rightarrow> (data v, Some (write_ts v))
           | None \<Rightarrow>
               (case find_visible chain read_ts (active_txns s) of
                  Some v \<Rightarrow> if is_tombstone v then (None, Some (write_ts v)) else (data v, Some (write_ts v))
                | None \<Rightarrow> (None, None)))
      | None \<Rightarrow> (None, None))"

definition starts_with :: "'a list \<Rightarrow> 'a list \<Rightarrow> bool" where
  "starts_with key prefix \<longleftrightarrow> take (length prefix) key = prefix"

text \<open>What one chain contributes to a prefix scan.\<close>

definition scan_chain :: "mvcc_store \<Rightarrow> nat \<Rightarrow> txid \<Rightarrow> version_chain \<Rightarrow> bytes option option" where
  "scan_chain s read_ts tx chain =
     (case find_by_txn chain tx of
        Some v \<Rightarrow> Some (data v)
      | None \<Rightarrow> map_option data (find_visible chain read_ts (active_txns s)))"

definition store_scan_prefix ::
    "mvcc_store \<Rightarrow> bytes \<Rightarrow> nat \<Rightarrow> txid \<Rightarrow> (bytes, bytes option) fmap" where
  "store_scan_prefix s prefix read_ts tx =
     fold (\<lambda>(key, chain) results.
         if \<not> starts_with key prefix then results
         else case scan_chain s read_ts tx chain of
                Some d \<Rightarrow> fmupd key d results
              | None \<Rightarrow> results)
       (fm_entries (chains s)) fmempty"

definition run_gc :: "mvcc_store \<Rightarrow> mvcc_store" where
  "run_gc s =
     (let oldest_ts = oldest_active_ts s
      in if oldest_ts = 0 then s
         else let cs = fmmap (\<lambda>chain. chain_gc chain oldest_ts) (chains s);
                  total = sum_list (map (\<lambda>(_, chain). chain_len chain) (fm_entries cs));
                  empty_keys = map fst (filter (\<lambda>(_, chain). chain_is_empty chain) (fm_entries cs))
              in s\<lparr>chains := fold fmdrop empty_keys cs, version_count := total\<rparr>)"

text \<open>\<open>fetch_add\<close> on the version counter; the old value triggers the collection.\<close>

definition count_version :: "mvcc_store \<Rightarrow> mvcc_store" where
  "count_version s =
     (let count = version_count s; s' = s\<lparr>version_count := count + 1\<rparr>
      in if count > gc_threshold s then run_gc s' else s')"

definition store_write :: "mvcc_store \<Rightarrow> bytes \<Rightarrow> bytes option \<Rightarrow> nat \<Rightarrow> txid \<Rightarrow> mvcc_store" where
  "store_write s key v ts tx =
     (let chain = fm_get chain_new (chains s) key
      in count_version (s\<lparr>chains := fmupd key (add_version chain (version_new v ts tx)) (chains s)\<rparr>))"

definition check_write_conflict_detailed :: "mvcc_store \<Rightarrow> bytes \<Rightarrow> txid \<Rightarrow> txid option" where
  "check_write_conflict_detailed s key tx =
     (case fmlookup (chains s) key of
        Some chain \<Rightarrow>
          map_option created_by
            (List.find (\<lambda>v. \<not> committed v \<and> created_by v \<noteq> tx) (rev (versions chain)))
      | None \<Rightarrow> None)"

definition write_intent :: "mvcc_store \<Rightarrow> bytes \<Rightarrow> bytes option \<Rightarrow> nat \<Rightarrow> txid \<Rightarrow> mvcc_store" where
  "write_intent s key v ts tx =
     (let chain = fm_get chain_new (chains s) key
      in case find_by_txn chain tx of
           Some _ \<Rightarrow> s\<lparr>chains := fmupd key
             (update_by_txn chain tx (\<lambda>w. w\<lparr>data := v, write_ts := ts\<rparr>)) (chains s)\<rparr>
         | None \<Rightarrow> count_version
             (s\<lparr>chains := fmupd key (add_version chain (version_new v ts tx)) (chains s)\<rparr>))"

definition get_latest_committed_ts :: "mvcc_store \<Rightarrow> bytes \<Rightarrow> nat option" where
  "get_latest_committed_ts s key = Option.bind (fmlookup (chains s) key) latest_committed_ts"

definition commit_transaction :: "mvcc_store \<Rightarrow> txid \<Rightarrow> mvcc_store" where
  "commit_transaction s tx = s\<lparr>chains := fmmap (\<lambda>c. commit_version c tx) (chains s)\<rparr>"

definition commit_transaction_with_ts :: "mvcc_store \<Rightarrow> txid \<Rightarrow> nat \<Rightarrow> mvcc_store" where
  "commit_transaction_with_ts s tx ts =
     s\<lparr>chains := fmmap (\<lambda>c. commit_version_with_ts c tx ts) (chains s)\<rparr>"

definition abort_transaction :: "mvcc_store \<Rightarrow> txid \<Rightarrow> mvcc_store" where
  "abort_transaction s tx = s\<lparr>chains := fmmap (\<lambda>c. abort_version c tx) (chains s)\<rparr>"

text \<open>\<open>if let Some(chain) = chains.get_mut(key) { .. }\<close> for each of the given keys.\<close>

definition update_chain :: "(version_chain \<Rightarrow> version_chain) \<Rightarrow> bytes \<Rightarrow>
    (bytes, version_chain) fmap \<Rightarrow> (bytes, version_chain) fmap" where
  "update_chain f key m = (case fmlookup m key of Some c \<Rightarrow> fmupd key (f c) m | None \<Rightarrow> m)"

definition commit_transaction_with_ts_keys :: "mvcc_store \<Rightarrow> txid \<Rightarrow> nat \<Rightarrow> bytes list \<Rightarrow> mvcc_store" where
  "commit_transaction_with_ts_keys s tx ts keys =
     s\<lparr>chains := fold (update_chain (\<lambda>c. commit_version_with_ts c tx ts)) keys (chains s)\<rparr>"

definition abort_transaction_keys :: "mvcc_store \<Rightarrow> txid \<Rightarrow> bytes list \<Rightarrow> mvcc_store" where
  "abort_transaction_keys s tx keys =
     s\<lparr>chains := fold (update_chain (\<lambda>c. abort_version c tx)) keys (chains s)\<rparr>"

definition store_get :: "mvcc_store \<Rightarrow> nat \<Rightarrow> bytes \<Rightarrow> bytes option \<times> nat" where
  "store_get s oracle key =
     (let (current_ts, oracle') = next_timestamp oracle
      in (Option.bind (fmlookup (chains s) key)
            (\<lambda>c. Option.bind (find_visible c current_ts (active_txns s)) data), oracle'))"

definition insert_committed :: "mvcc_store \<Rightarrow> bytes \<Rightarrow> bytes \<Rightarrow> nat \<Rightarrow> mvcc_store" where
  "insert_committed s key v ts =
     (let chain = add_version (fm_get chain_new (chains s) key)
            ((version_new (Some v) ts 0)\<lparr>committed := True\<rparr>)
      in s\<lparr>chains := fmupd key (chain\<lparr>cached_latest_committed_ts :=
            raise_cached (cached_latest_committed_ts chain) ts\<rparr>) (chains s)\<rparr>)"

record mvcc_stats =
  st_key_count :: nat
  st_version_count :: nat
  st_active_transaction_count :: nat
  st_oldest_active_ts :: nat

definition stats :: "mvcc_store \<Rightarrow> mvcc_stats" where
  "stats s = \<lparr>st_key_count = length (fm_entries (chains s)),
     st_version_count = sum_list (map (\<lambda>(_, c). chain_len c) (fm_entries (chains s))),
     st_active_transaction_count = fcard (active_txns s),
     st_oldest_active_ts = oldest_active_ts s\<rparr>"

section \<open>Transactions\<close>

record mvcc_tx =
  tx_id :: txid
  read_ts :: nat
  commit_ts :: "nat option"
  state :: tx_state
  read_set :: "(bytes, nat) fmap"
  write_set :: "(bytes, bytes option) fmap"

definition tx_new :: "mvcc_store \<Rightarrow> nat \<Rightarrow> mvcc_tx \<times> mvcc_store \<times> nat" where
  "tx_new s oracle =
     (let (ts, oracle') = next_timestamp oracle
      in (\<lparr>tx_id = ts, read_ts = ts, commit_ts = None, state = Active,
           read_set = fmempty, write_set = fmempty\<rparr>, register_active s ts, oracle'))"

definition write_set_snapshot :: "mvcc_tx \<Rightarrow> (bytes \<times> bytes option) list" where
  "write_set_snapshot t = fm_entries (write_set t)"

definition restore_write_set :: "mvcc_tx \<Rightarrow> (bytes \<times> bytes option) list \<Rightarrow> mvcc_tx" where
  "restore_write_set t snapshot = t\<lparr>write_set := fold (\<lambda>(k, v) m. fmupd k v m) snapshot fmempty\<rparr>"

definition tx_get :: "mvcc_store \<Rightarrow> mvcc_tx \<Rightarrow> bytes \<Rightarrow> (tx_error + bytes option) \<times> mvcc_tx" where
  "tx_get s t key =
     (if state t \<noteq> Active then (Inl (AlreadyAborted (tx_id t)), t)
      else case fmlookup (write_set t) key of
        Some local_value \<Rightarrow> (Inr local_value, t)
      | None \<Rightarrow>
          (let (v, version_ts) = store_read s key (read_ts t) (tx_id t)
           in case version_ts of
                Some ts \<Rightarrow> (Inr v, t\<lparr>read_set := fmupd key ts (read_set t)\<rparr>)
              | None \<Rightarrow> (Inr v, t)))"

definition tx_put :: "mvcc_store \<Rightarrow> mvcc_tx \<Rightarrow> bytes \<Rightarrow> bytes \<Rightarrow>
    (tx_error + unit) \<times> mvcc_tx \<times> mvcc_store" where
  "tx_put s t key v =
     (if state t \<noteq> Active then (Inl (AlreadyAborted (tx_id t)), t, s)
      else case check_write_conflict_detailed s key (tx_id t) of
        Some holder \<Rightarrow> (Inl (WriteConflict key holder), t\<lparr>state := Aborted\<rparr>, s)
      | None \<Rightarrow> (Inr (), t\<lparr>write_set := fmupd key (Some v) (write_set t)\<rparr>,
          write_intent s key (Some v) (read_ts t) (tx_id t)))"

definition tx_delete :: "mvcc_store \<Rightarrow> mvcc_tx \<Rightarrow> bytes \<Rightarrow>
    (tx_error + bool) \<times> mvcc_tx \<times> mvcc_store" where
  "tx_delete s t key =
     (if state t \<noteq> Active then (Inl (AlreadyAborted (tx_id t)), t, s)
      else case tx_get s t key of
        (Inl e, t') \<Rightarrow> (Inl e, t', s)
      | (Inr found, t') \<Rightarrow>
          (case check_write_conflict_detailed s key (tx_id t') of
             Some holder \<Rightarrow> (Inl (WriteConflict key holder), t'\<lparr>state := Aborted\<rparr>, s)
           | None \<Rightarrow> (Inr (found \<noteq> None), t'\<lparr>write_set := fmupd key None (write_set t')\<rparr>,
               write_intent s key None (read_ts t') (tx_id t'))))"

text \<open>Pairs whose value is not a tombstone, from a map of values.\<close>

definition live_entries :: "(bytes, bytes option) fmap \<Rightarrow> (bytes \<times> bytes) list" where
  "live_entries m = List.map_filter (\<lambda>(k, v). map_option (Pair k) v) (fm_entries m)"

definition tx_scan_prefix :: "mvcc_store \<Rightarrow> mvcc_tx \<Rightarrow> bytes \<Rightarrow> tx_error + (bytes \<times> bytes) list" where
  "tx_scan_prefix s t prefix =
     (if state t \<noteq> Active then Inl (AlreadyAborted (tx_id t))
      else Inr (live_entries
        (fold (\<lambda>(k, v) m. if starts_with k prefix then fmupd k v m else m)
          (fm_entries (write_set t)) (store_scan_prefix s prefix (read_ts t) (tx_id t)))))"

definition scan_prefix_at :: "mvcc_store \<Rightarrow> bytes \<Rightarrow> nat \<Rightarrow> (bytes \<times> bytes) list" where
  "scan_prefix_at s prefix ts = live_entries (store_scan_prefix s prefix ts 0)"

text \<open>The keys of the write set, in the order the loops visit them.\<close>

definition write_keys :: "mvcc_tx \<Rightarrow> bytes list" where
  "write_keys t = map fst (fm_entries (write_set t))"

definition validate :: "mvcc_store \<Rightarrow> mvcc_tx \<Rightarrow> bool" where
  "validate s t \<longleftrightarrow>
     list_all (\<lambda>key. case get_latest_committed_ts s key of
         Some latest_ts \<Rightarrow> \<not> latest_ts > read_ts t
       | None \<Rightarrow> True) (write_keys t)"

definition tx_commit :: "mvcc_store \<Rightarrow> nat \<Rightarrow> mvcc_tx \<Rightarrow>
    (tx_error + unit) \<times> mvcc_tx \<times> mvcc_store \<times> nat" where
  "tx_commit s oracle t =
     (if state t \<noteq> Active then (Inl (AlreadyCommitted (tx_id t)), t, s, oracle)
      else if \<not> validate s t then
        (Inl (SerializationFailure ''write-write conflict detected''), t\<lparr>state := Aborted\<rparr>,
         abort_transaction_keys (unregister_active s (tx_id t)) (tx_id t) (write_keys t), oracle)
      else let (ts, oracle') = next_timestamp oracle;
               s' = commit_transaction_with_ts_keys s (tx_id t) ts (write_keys t)
           in (Inr (), t\<lparr>commit_ts := Some ts, state := Committed\<rparr>,
               unregister_active s' (tx_id t), oracle'))"

definition tx_rollback :: "mvcc_store \<Rightarrow> mvcc_tx \<Rightarrow> (tx_error + unit) \<times> mvcc_tx \<times> mvcc_store" where
  "tx_rollback s t =
     (if state t \<noteq> Active then (Inl (AlreadyAborted (tx_id t)), t, s)
      else (Inr (), t\<lparr>state := Aborted\<rparr>,
        unregister_active (abort_transaction_keys s (tx_id t) (write_keys t)) (tx_id t)))"

section \<open>Record keys\<close>

definition encode_table_prefix :: "bytes \<Rightarrow> bytes" where
  "encode_table_prefix table = table @ [0]"

definition encode_record_key :: "bytes \<Rightarrow> u64 \<Rightarrow> bytes" where
  "encode_record_key table record_id = table @ [0] @ be_enc 8 (unat record_id)"

definition decode_record_id :: "bytes \<Rightarrow> bytes \<Rightarrow> u64 option" where
  "decode_record_id key table =
     (let prefix = encode_table_prefix table
      in if length key \<noteq> length prefix + 8 \<or> \<not> starts_with key prefix then None
         else Some (of_nat (be_dec (drop (length prefix) key))))"

end
