(* ===== verification/Mvcc_System.thy ===== *)
theory Mvcc_System
  imports Mvcc
begin

text \<open>
  The store together with its open transactions as a transition system: every operation of
  \<open>MvccTransaction\<close> and \<open>MvccTransactionManager\<close> is one step, taken atomically, and the steps of
  different transactions interleave in any order. A ghost history records the successful commits, so
  that snapshot isolation can be stated: reads see the history as it was when the transaction began,
  and two committed transactions that overlap in time write different keys.

  Savepoints (\<open>restore_write_set\<close>) and seeding (\<open>insert_committed\<close>) are not steps; the
  former is treated on its own below.
\<close>

section \<open>One key of the store\<close>

definition chain_at :: "mvcc_store \<Rightarrow> bytes \<Rightarrow> version_chain" where
  "chain_at s k = fm_get chain_new (chains s) k"

definition view :: "version_chain \<Rightarrow> nat \<Rightarrow> (bytes option \<times> nat) option" where
  "view c r = map_option (\<lambda>v. (data v, write_ts v)) (find_visible c r {||})"

lemma find_visible_any: "find_visible c r A = find_visible c r {||}"
  by (simp add: find_visible_eq)

lemma chain_new_simps [simp]:
  "versions chain_new = []" "find_visible chain_new r A = None" "find_by_txn chain_new tx = None"
  "cached_latest_committed_ts chain_new = None" "own_intent chain_new tx = None" "view chain_new r = None" "abort_version chain_new tx = chain_new"
  by (simp_all add: chain_new_def find_visible_def find_by_txn_def own_intent_def view_def abort_version_def)

lemma chain_cong:
  assumes "versions c = versions c'"
  shows "view c r = view c' r" "own_intent c tx = own_intent c' tx"
  using assms by (simp_all add: view_def own_intent_def find_visible_eq)

definition store_ok :: "nat \<Rightarrow> mvcc_store \<Rightarrow> bool" where
  "store_ok n s \<longleftrightarrow>
     (\<forall>a. a |\<in>| active_txns s \<longrightarrow> 0 < a \<and> a < n) \<and>
     oldest_active_ts s = min_or_zero (active_txns s) \<and>
     (\<forall>k. chain_ok n (active_txns s) (chain_at s k))"

text \<open>Snapshots from here on are intact: the oldest active one, or any later one if none is active.\<close>

definition floor_ts :: "nat \<Rightarrow> mvcc_store \<Rightarrow> nat" where
  "floor_ts n s = (if active_txns s = {||} then n else fMin (active_txns s))"

subsection \<open>Garbage collection\<close>

lemma fold_fmdrop_lookup: "fmlookup (fold fmdrop ks m) k = (if k \<in> set ks then None else fmlookup m k)"
  by (induction ks arbitrary: m) auto

lemma chain_gc_new: "versions (chain_gc chain_new old) = []" "cached_latest_committed_ts (chain_gc chain_new old) = None"
  by (simp_all add: chain_gc_def max_opt_def)

lemma run_gc_chain:
  assumes "oldest_active_ts s \<noteq> 0"
  shows "versions (chain_at (run_gc s) k) = versions (chain_gc (chain_at s k) (oldest_active_ts s))"
    and "cached_latest_committed_ts (chain_at (run_gc s) k) =
         cached_latest_committed_ts (chain_gc (chain_at s k) (oldest_active_ts s))"
proof -
  let ?cs = "fmmap (\<lambda>c. chain_gc c (oldest_active_ts s)) (chains s)"
  let ?empty = "map fst (filter (\<lambda>(_, c). chain_is_empty c) (fm_entries ?cs))"
  have cached: "cached_latest_committed_ts (chain_gc c old) = None" if "versions (chain_gc c old) = []" for c old
    using that by (auto simp: chain_gc_def max_opt_def Let_def)
  have mem: "k \<in> set ?empty \<longleftrightarrow>
      (\<exists>c. fmlookup (chains s) k = Some c \<and> versions (chain_gc c (oldest_active_ts s)) = [])"
    by (force simp: chain_is_empty_def)
  have lk: "fmlookup (chains (run_gc s)) k = (if k \<in> set ?empty then None else fmlookup ?cs k)"
    using assms by (simp add: run_gc_def Let_def fold_fmdrop_lookup)
  show "versions (chain_at (run_gc s) k) = versions (chain_gc (chain_at s k) (oldest_active_ts s))"
    by (cases "k \<in> set ?empty"; cases "fmlookup (chains s) k")
      (use lk mem in \<open>auto simp: chain_at_def fm_get_def chain_gc_new\<close>)
  show "cached_latest_committed_ts (chain_at (run_gc s) k) =
         cached_latest_committed_ts (chain_gc (chain_at s k) (oldest_active_ts s))"
    by (cases "k \<in> set ?empty"; cases "fmlookup (chains s) k")
      (use lk mem cached in \<open>auto simp: chain_at_def fm_get_def chain_gc_new\<close>)
qed

lemma run_gc_frame [simp]:
  "active_txns (run_gc s) = active_txns s" "oldest_active_ts (run_gc s) = oldest_active_ts s"
  by (simp_all add: run_gc_def Let_def)

lemma run_gc_zero: "oldest_active_ts s = 0 \<Longrightarrow> run_gc s = s"
  by (simp add: run_gc_def)

lemma store_ok_gc: "store_ok n s \<Longrightarrow> store_ok n (run_gc s)"
proof (cases "oldest_active_ts s = 0")
  case False
  assume ok: "store_ok n s"
  have "chain_ok n (active_txns s) (chain_at (run_gc s) k)" for k
    using ok chain_ok_gc [of n "active_txns s" "chain_at s k" "oldest_active_ts s"]
      chain_ok_cong [OF run_gc_chain [OF False, of k]]
    by (simp add: store_ok_def)
  with ok show ?thesis by (simp add: store_ok_def)
qed (simp add: run_gc_zero)

lemma own_intent_run_gc: "own_intent (chain_at (run_gc s) k) tx = own_intent (chain_at s k) tx"
  by (cases "oldest_active_ts s = 0")
    (simp_all add: run_gc_zero chain_cong(2) [OF run_gc_chain(1)])

text \<open>Every snapshot of an active transaction reads the same before and after a collection.\<close>

lemma view_run_gc:
  assumes "oldest_active_ts s \<le> r"
  shows "view (chain_at (run_gc s) k) r = view (chain_at s k) r"
proof (cases "oldest_active_ts s = 0")
  case False
  show ?thesis unfolding chain_cong(1) [OF run_gc_chain(1) [OF False]]
    using assms by (simp add: view_def find_visible_gc)
qed (simp add: run_gc_zero)

lemma floor_oldest:
  assumes "store_ok n s" "floor_ts n s \<le> r" shows "oldest_active_ts s \<le> r"
  using assms by (auto simp: store_ok_def floor_ts_def min_or_zero_def split: if_splits)

lemma oldest_le_active:
  assumes "store_ok n s" "a |\<in>| active_txns s" shows "oldest_active_ts s \<le> a" "0 < oldest_active_ts s"
  using assms fMin_le [of a "active_txns s"] fMin_in [of "active_txns s"]
  by (auto simp: store_ok_def min_or_zero_def)

subsection \<open>Intents\<close>

lemma chain_at_upd [simp]: "chain_at (s\<lparr>chains := fmupd k c (chains s)\<rparr>) k' = (if k' = k then c else chain_at s k')"
  by (simp add: chain_at_def)

lemma chain_at_frame [simp]: "chain_at (s\<lparr>version_count := n\<rparr>) k = chain_at s k"
  "chain_at (s\<lparr>active_txns := A\<rparr>) k = chain_at s k" "chain_at (s\<lparr>oldest_active_ts := n\<rparr>) k = chain_at s k"
  by (simp_all add: chain_at_def)

lemma check_conflict_None:
  "check_write_conflict_detailed s k tx = None \<longleftrightarrow>
    (\<forall>v\<in>set (versions (chain_at s k)). committed v \<or> created_by v = tx)"
  by (auto simp: check_write_conflict_detailed_def chain_at_def fm_get_def find_None_iff_set split: option.split)

lemma store_ok_version_count [simp]: "store_ok n (s\<lparr>version_count := m\<rparr>) = store_ok n s"
  by (simp add: store_ok_def)

lemma count_version:
  shows count_version_active [simp]: "active_txns (count_version s) = active_txns s"
    and count_version_oldest [simp]: "oldest_active_ts (count_version s) = oldest_active_ts s"
    and store_ok_count_version: "store_ok n s \<Longrightarrow> store_ok n (count_version s)"
    and own_intent_count_version: "own_intent (chain_at (count_version s) k) tx = own_intent (chain_at s k) tx"
    and view_count_version: "oldest_active_ts s \<le> r \<Longrightarrow> view (chain_at (count_version s) k) r = view (chain_at s k) r"
  using store_ok_gc [of n "s\<lparr>version_count := version_count s + 1\<rparr>"]
    view_run_gc [of "s\<lparr>version_count := version_count s + 1\<rparr>" r k]
  by (simp_all add: count_version_def Let_def own_intent_run_gc)

text \<open>The chain with the new intent, before the collection that counting may trigger.\<close>

definition intent_chain :: "version_chain \<Rightarrow> bytes option \<Rightarrow> nat \<Rightarrow> txid \<Rightarrow> version_chain" where
  "intent_chain c v ts tx =
     (case find_by_txn c tx of
        Some _ \<Rightarrow> update_by_txn c tx (\<lambda>w. w\<lparr>data := v, write_ts := ts\<rparr>)
      | None \<Rightarrow> add_version c (version_new v ts tx))"

lemma write_intent_alt:
  "write_intent s k v ts tx =
    (let s' = s\<lparr>chains := fmupd k (intent_chain (chain_at s k) v ts tx) (chains s)\<rparr>
     in if find_by_txn (chain_at s k) tx = None then count_version s' else s')"
  by (simp add: write_intent_def intent_chain_def chain_at_def Let_def split: option.split)

lemma intent_chain:
  assumes ok: "chain_ok n A c" and tx: "tx |\<in>| A"
    and free: "\<forall>v\<in>set (versions c). committed v \<or> created_by v = tx"
  shows chain_ok_intent: "chain_ok n A (intent_chain c v ts tx)"
    and own_intent_intent: "own_intent (intent_chain c v ts tx) tx' = (if tx' = tx then Some v else own_intent c tx')"
    and view_intent: "view (intent_chain c v ts tx) r = view c r"
proof -
  consider (new) "find_by_txn c tx = None" "own_intent c tx = None"
    | (old) d where "find_by_txn c tx \<noteq> None" "own_intent c tx = Some d"
    using find_by_txn_own(2) [OF ok tx] by (cases "own_intent c tx") auto
  then have "chain_ok n A (intent_chain c v ts tx) \<and>
    own_intent (intent_chain c v ts tx) tx' = (if tx' = tx then Some v else own_intent c tx') \<and>
    view (intent_chain c v ts tx) r = view c r"
  proof cases
    case new
    with free have all: "\<forall>v\<in>set (versions c). committed v" by (auto simp: own_intent_None)
    then have "List.find (\<lambda>v. \<not> committed v \<and> created_by v = tx'') (versions c) = None" for tx''
      by (auto simp: find_None_iff_set)
    with new all chain_ok_add_intent [OF ok tx all] show ?thesis
      by (simp add: intent_chain_def own_intent_def find_append add_version_def version_new_def view_def
          find_visible_eq)
  next
    case old
    obtain cs u where c: "versions c = cs @ [u]" "created_by u = tx" "\<not> committed u" "\<forall>v\<in>set cs. committed v"
      using chain_ok_ownE [OF ok old(2) tx] by metis
    have "List.find (\<lambda>v. \<not> committed v \<and> created_by v = tx'') cs = None" for tx''
      using c(4) by (auto simp: find_None_iff_set)
    with old c chain_ok_update_intent [OF ok old(2) tx] show ?thesis
      by (auto simp: intent_chain_def own_intent_def find_append update_by_txn_def view_def find_visible_eq)
  qed
  then show "chain_ok n A (intent_chain c v ts tx)"
    "own_intent (intent_chain c v ts tx) tx' = (if tx' = tx then Some v else own_intent c tx')"
    "view (intent_chain c v ts tx) r = view c r" by auto
qed

lemma write_intent:
  assumes ok: "store_ok n s" and tx: "tx |\<in>| active_txns s" and free: "check_write_conflict_detailed s k tx = None"
  shows write_intent_active: "active_txns (write_intent s k v ts tx) = active_txns s"
    and write_intent_ok: "store_ok n (write_intent s k v ts tx)"
    and write_intent_own: "own_intent (chain_at (write_intent s k v ts tx) k') tx' =
        (if k' = k \<and> tx' = tx then Some v else own_intent (chain_at s k') tx')"
    and write_intent_view: "oldest_active_ts s \<le> r \<Longrightarrow>
        view (chain_at (write_intent s k v ts tx) k') r = view (chain_at s k') r"
proof -
  let ?c = "intent_chain (chain_at s k) v ts tx"
  let ?s = "s\<lparr>chains := fmupd k ?c (chains s)\<rparr>"
  have c: "chain_ok n (active_txns s) (chain_at s k)" using ok by (simp add: store_ok_def)
  note ic = intent_chain [OF c tx free [unfolded check_conflict_None]]
  have s: "store_ok n ?s" using ok ic(1) by (simp add: store_ok_def)
  show "active_txns (write_intent s k v ts tx) = active_txns s"
    by (simp add: write_intent_alt Let_def)
  show "store_ok n (write_intent s k v ts tx)"
    using s store_ok_count_version [OF s] by (simp add: write_intent_alt Let_def)
  show "own_intent (chain_at (write_intent s k v ts tx) k') tx' =
        (if k' = k \<and> tx' = tx then Some v else own_intent (chain_at s k') tx')"
    by (simp add: write_intent_alt Let_def own_intent_count_version ic(2))
  show "view (chain_at (write_intent s k v ts tx) k') r = view (chain_at s k') r"
    if "oldest_active_ts s \<le> r"
    using that view_count_version [of ?s r k'] ic(3) by (simp add: write_intent_alt Let_def)
qed

subsection \<open>The end of a transaction\<close>

lemma fold_update_chain_lookup:
  "distinct ks \<Longrightarrow> fmlookup (fold (update_chain f) ks m) k =
    (if k \<in> set ks then map_option f (fmlookup m k) else fmlookup m k)"
  by (induction ks arbitrary: m) (auto simp: update_chain_def split: option.split)

lemma write_keys_props:
  "distinct (write_keys t)"
  "k \<in> set (write_keys t) \<longleftrightarrow> fmlookup (write_set t) k \<noteq> None"
  by (auto simp: write_keys_def image_iff)

lemma chain_at_fold_update:
  assumes "distinct ks" "fmlookup (chains s) k \<noteq> None \<or> k \<notin> set ks \<or> f chain_new = chain_new"
  shows "chain_at (s\<lparr>chains := fold (update_chain f) ks (chains s)\<rparr>) k =
    (if k \<in> set ks then f (chain_at s k) else chain_at s k)"
  using assms by (auto simp: chain_at_def fm_get_def fold_update_chain_lookup split: option.split)

lemma unregister_frame [simp]:
  "active_txns (unregister_active s tx) = active_txns s |-| {|tx|}"
  "oldest_active_ts (unregister_active s tx) = min_or_zero (active_txns s |-| {|tx|})"
  "chain_at (unregister_active s tx) k = chain_at s k"
  "chains (unregister_active s tx) = chains s"
  by (simp_all add: unregister_active_def Let_def chain_at_def)

lemma floor_mono:
  assumes "store_ok n s" "active_txns s' |\<subseteq>| active_txns s" "n \<le> n'"
  shows "floor_ts n s \<le> floor_ts n' s'"
proof (cases "active_txns s' = {||}")
  case True
  have "fMin (active_txns s) < n" if "active_txns s \<noteq> {||}"
    using assms(1) fMin_in [OF that] by (auto simp: store_ok_def)
  with True assms(3) show ?thesis by (fastforce simp: floor_ts_def)
next
  case False
  with assms(2) have "active_txns s \<noteq> {||}" by auto
  moreover have "fMin (active_txns s) \<le> fMin (active_txns s')"
    using fMin_in [OF False] assms(2) fMin_le [of "fMin (active_txns s')" "active_txns s"] by auto
  ultimately show ?thesis using False by (simp add: floor_ts_def)
qed

text \<open>\<open>ws\<close> describes all intents of \<open>tx\<close>.\<close>

definition intents_are :: "mvcc_store \<Rightarrow> txid \<Rightarrow> (bytes, bytes option) fmap \<Rightarrow> bool" where
  "intents_are s tx ws \<longleftrightarrow> (\<forall>k. fmlookup ws k = own_intent (chain_at s k) tx)"

lemma chain_ok_no_intent:
  assumes "chain_ok n A c" "own_intent c tx = None" "n \<le> n'"
  shows "chain_ok n' (A |-| {|tx|}) c"
proof -
  have "\<forall>v\<in>set (versions c). \<not> committed v \<longrightarrow> created_by v |\<in>| A"
    using assms(1) by (rule chain_okE) auto
  then show ?thesis using assms by (intro chain_ok_mono [OF assms(1,3)]) (auto simp: own_intent_None)
qed

text \<open>Rollback, and the failing branch of commit: the intents vanish, no reader notices.\<close>

definition abort_store :: "mvcc_store \<Rightarrow> mvcc_tx \<Rightarrow> mvcc_store" where
  "abort_store s t = unregister_active (abort_transaction_keys s (tx_id t) (write_keys t)) (tx_id t)"

lemma abort_order:
  "abort_transaction_keys (unregister_active s tx) tx ks = unregister_active (abort_transaction_keys s tx ks) tx"
  by (simp add: abort_transaction_keys_def unregister_active_def Let_def)

lemma abort_store_chain:
  "chain_at (abort_store s t) k =
    (if fmlookup (write_set t) k \<noteq> None then abort_version (chain_at s k) (tx_id t) else chain_at s k)"
  by (simp add: abort_store_def write_keys_props abort_transaction_keys_def chain_at_fold_update)

lemma abort_store:
  assumes ok: "store_ok n s" and ws: "intents_are s (tx_id t) (write_set t)"
  shows abort_store_active: "active_txns (abort_store s t) = active_txns s |-| {|tx_id t|}"
    and abort_store_ok: "store_ok n (abort_store s t)"
    and abort_store_own: "own_intent (chain_at (abort_store s t) k) tx' =
        (if tx' = tx_id t then None else own_intent (chain_at s k) tx')"
    and abort_store_view: "view (chain_at (abort_store s t) k) r = view (chain_at s k) r"
proof -
  have c: "chain_ok n (active_txns s) (chain_at s k)" for k using ok by (simp add: store_ok_def)
  show active: "active_txns (abort_store s t) = active_txns s |-| {|tx_id t|}"
    by (simp add: abort_store_def abort_transaction_keys_def)
  show "own_intent (chain_at (abort_store s t) k) tx' =
        (if tx' = tx_id t then None else own_intent (chain_at s k) tx')"
    using ws own_intent_abort [OF c] by (auto simp: abort_store_chain intents_are_def)
  show "view (chain_at (abort_store s t) k) r = view (chain_at s k) r"
    by (simp add: abort_store_chain view_def find_visible_abort)
  have "chain_ok n (active_txns s |-| {|tx_id t|}) (chain_at (abort_store s t) k)" for k
    using chain_ok_abort [OF c] chain_ok_no_intent [OF c, of k "tx_id t" n] ws
    by (simp add: abort_store_chain intents_are_def)
  then show "store_ok n (abort_store s t)"
    using ok active unfolding store_ok_def by (auto simp: abort_store_def)
qed

text \<open>A successful commit publishes every written key at the commit timestamp.\<close>

definition commit_store :: "mvcc_store \<Rightarrow> mvcc_tx \<Rightarrow> nat \<Rightarrow> mvcc_store" where
  "commit_store s t ts =
     unregister_active (commit_transaction_with_ts_keys s (tx_id t) ts (write_keys t)) (tx_id t)"

lemma commit_store:
  assumes ok: "store_ok n s" and ws: "intents_are s (tx_id t) (write_set t)" and tx: "tx_id t |\<in>| active_txns s"
  shows commit_store_active: "active_txns (commit_store s t n) = active_txns s |-| {|tx_id t|}"
    and commit_store_ok: "store_ok (n + 1) (commit_store s t n)"
    and commit_store_own: "own_intent (chain_at (commit_store s t n) k) tx' =
        (if tx' = tx_id t then None else own_intent (chain_at s k) tx')"
    and commit_store_view: "view (chain_at (commit_store s t n) k) r =
        (case fmlookup (write_set t) k of
           Some d \<Rightarrow> if n \<le> r then Some (d, n) else view (chain_at s k) r
         | None \<Rightarrow> view (chain_at s k) r)"
proof -
  have c: "chain_ok n (active_txns s) (chain_at s k)" for k using ok by (simp add: store_ok_def)
  have txn: "tx_id t < n" using ok tx by (simp add: store_ok_def)
  have present: "fmlookup (chains s) k \<noteq> None" if "fmlookup (write_set t) k \<noteq> None" for k
    using ws that by (auto simp: intents_are_def chain_at_def fm_get_def split: option.splits)
  have ch: "chain_at (commit_store s t n) k = (if fmlookup (write_set t) k \<noteq> None
      then commit_version_with_ts (chain_at s k) (tx_id t) n else chain_at s k)" for k
    using present [of k]
    by (simp add: write_keys_props commit_store_def commit_transaction_with_ts_keys_def chain_at_fold_update)
  have own: "own_intent (chain_at s k) (tx_id t) = fmlookup (write_set t) k" for k
    using ws by (simp add: intents_are_def)
  note cc = commit_chain [OF c _ tx txn, unfolded own]
  show active: "active_txns (commit_store s t n) = active_txns s |-| {|tx_id t|}"
    by (simp add: commit_store_def commit_transaction_with_ts_keys_def)
  show "own_intent (chain_at (commit_store s t n) k) tx' =
        (if tx' = tx_id t then None else own_intent (chain_at s k) tx')"
    using cc(3) [of k] own by (cases "fmlookup (write_set t) k") (auto simp: ch)
  show "view (chain_at (commit_store s t n) k) r =
        (case fmlookup (write_set t) k of
           Some d \<Rightarrow> if n \<le> r then Some (d, n) else view (chain_at s k) r
         | None \<Rightarrow> view (chain_at s k) r)"
    using cc(2) [of k] by (cases "fmlookup (write_set t) k") (auto simp: ch view_def)
  have "chain_ok (n + 1) (active_txns s |-| {|tx_id t|}) (chain_at (commit_store s t n) k)" for k
    using cc(1) [of k] chain_ok_no_intent [OF c, of k "tx_id t" "n + 1"] own [of k]
    by (cases "fmlookup (write_set t) k") (auto simp: ch)
  then show "store_ok (n + 1) (commit_store s t n)"
    using ok active unfolding store_ok_def by (auto simp: commit_store_def less_SucI)
qed

section \<open>Interleaved transactions\<close>

text \<open>A successful commit: who, when, and what was written.\<close>

record commit_rec =
  h_tx :: txid
  h_ts :: nat
  h_ws :: "(bytes, bytes option) fmap"

record world =
  clock :: nat
  store :: mvcc_store
  txs :: "(txid, mvcc_tx) fmap"
  hist :: "commit_rec list"

definition world_init :: "nat \<Rightarrow> world" where
  "world_init threshold = \<lparr>clock = 1, store = with_gc_threshold threshold, txs = fmempty, hist = []\<rparr>"

inductive mvcc_step :: "world \<Rightarrow> world \<Rightarrow> bool" where
  step_begin: "tx_new (store w) (clock w) = (t, s', n') \<Longrightarrow>
    mvcc_step w (w\<lparr>store := s', clock := n', txs := fmupd (tx_id t) t (txs w)\<rparr>)"
| step_get: "fmlookup (txs w) i = Some t \<Longrightarrow> tx_get (store w) t key = (res, t') \<Longrightarrow>
    mvcc_step w (w\<lparr>txs := fmupd i t' (txs w)\<rparr>)"
| step_put: "fmlookup (txs w) i = Some t \<Longrightarrow> tx_put (store w) t key v = (res, t', s') \<Longrightarrow>
    mvcc_step w (w\<lparr>store := s', txs := fmupd i t' (txs w)\<rparr>)"
| step_delete: "fmlookup (txs w) i = Some t \<Longrightarrow> tx_delete (store w) t key = (res, t', s') \<Longrightarrow>
    mvcc_step w (w\<lparr>store := s', txs := fmupd i t' (txs w)\<rparr>)"
| step_commit: "fmlookup (txs w) i = Some t \<Longrightarrow> tx_commit (store w) (clock w) t = (Inr (), t', s', n') \<Longrightarrow>
    mvcc_step w (w\<lparr>store := s', clock := n', txs := fmdrop i (txs w),
      hist := \<lparr>h_tx = tx_id t', h_ts = the (commit_ts t'), h_ws = write_set t'\<rparr> # hist w\<rparr>)"
| step_commit_err: "fmlookup (txs w) i = Some t \<Longrightarrow> tx_commit (store w) (clock w) t = (Inl e, t', s', n') \<Longrightarrow>
    mvcc_step w (w\<lparr>store := s', clock := n', txs := fmdrop i (txs w)\<rparr>)"
| step_rollback: "fmlookup (txs w) i = Some t \<Longrightarrow> tx_rollback (store w) t = (res, t', s') \<Longrightarrow>
    mvcc_step w (w\<lparr>store := s', txs := fmdrop i (txs w)\<rparr>)"
| step_drop: "fmlookup (txs w) i = Some t \<Longrightarrow> mvcc_step w (w\<lparr>txs := fmdrop i (txs w)\<rparr>)"
| step_gc: "mvcc_step w (w\<lparr>store := run_gc (store w)\<rparr>)"
| step_store_get: "store_get (store w) (clock w) key = (res, n') \<Longrightarrow> mvcc_step w (w\<lparr>clock := n'\<rparr>)"

inductive mvcc_reachable :: "nat \<Rightarrow> world \<Rightarrow> bool" for threshold :: nat where
  reach_init: "mvcc_reachable threshold (world_init threshold)"
| reach_step: "mvcc_reachable threshold w \<Longrightarrow> mvcc_step w w' \<Longrightarrow> mvcc_reachable threshold w'"

text \<open>The abstract read: the newest commit at or before the snapshot that wrote the key.\<close>

fun hist_at :: "commit_rec list \<Rightarrow> nat \<Rightarrow> bytes \<Rightarrow> (bytes option \<times> nat) option" where
  "hist_at [] r k = None"
| "hist_at (h # hs) r k =
     (case fmlookup (h_ws h) k of
        Some d \<Rightarrow> if h_ts h \<le> r then Some (d, h_ts h) else hist_at hs r k
      | None \<Rightarrow> hist_at hs r k)"

text \<open>First committer wins: an earlier commit that happened after a later one began wrote other keys.\<close>

fun fcw :: "commit_rec list \<Rightarrow> bool" where
  "fcw [] = True"
| "fcw (h # hs) =
     (list_all (\<lambda>h'. h_ts h' < h_ts h \<and> (h_tx h < h_ts h' \<longrightarrow> fmdom (h_ws h) |\<inter>| fmdom (h_ws h') = {||})) hs \<and>
      h_tx h < h_ts h \<and> fcw hs)"

definition handle_ok :: "mvcc_store \<Rightarrow> txid \<Rightarrow> mvcc_tx \<Rightarrow> bool" where
  "handle_ok s i t \<longleftrightarrow>
     tx_id t = i \<and> read_ts t = i \<and> i |\<in>| active_txns s \<and> intents_are s i (write_set t)"

definition world_ok :: "world \<Rightarrow> bool" where
  "world_ok w \<longleftrightarrow>
     0 < clock w \<and> store_ok (clock w) (store w) \<and>
     (\<forall>i t. fmlookup (txs w) i = Some t \<longrightarrow> handle_ok (store w) i t) \<and>
     (\<forall>k r. floor_ts (clock w) (store w) \<le> r \<longrightarrow> view (chain_at (store w) k) r = hist_at (hist w) r k) \<and>
     (\<forall>h\<in>set (hist w). h_ts h < clock w) \<and> fcw (hist w)"

lemma world_okD:
  assumes "world_ok w"
  shows "0 < clock w" "store_ok (clock w) (store w)"
    "fmlookup (txs w) i = Some t \<Longrightarrow> handle_ok (store w) i t"
    "floor_ts (clock w) (store w) \<le> r \<Longrightarrow> view (chain_at (store w) k) r = hist_at (hist w) r k"
    "h \<in> set (hist w) \<Longrightarrow> h_ts h < clock w" "fcw (hist w)"
  using assms by (auto simp: world_ok_def)

lemma handle_okD:
  assumes "handle_ok s i t"
  shows "tx_id t = i" "read_ts t = i" "i |\<in>| active_txns s" "intents_are s i (write_set t)"
  using assms by (auto simp: handle_ok_def)

lemma min_or_zero_insert:
  "(\<forall>a. a |\<in>| A \<longrightarrow> 0 < a \<and> a < n) \<Longrightarrow> 0 < n \<Longrightarrow>
    min_or_zero (finsert n A) = (if min_or_zero A = 0 \<or> n < min_or_zero A then n else min_or_zero A)"
  using fMin_in [of A] by (auto simp: min_or_zero_def fMin_finsert min_def)

text \<open>What a step may do to the store without the history noticing.\<close>

lemma world_ok_frame:
  assumes ok: "world_ok w" and s': "store_ok (clock w) s'" "active_txns s' |\<subseteq>| active_txns (store w)"
    and view: "\<And>k r. floor_ts (clock w) (store w) \<le> r \<Longrightarrow> view (chain_at s' k) r = view (chain_at (store w) k) r"
    and hs: "\<And>i t. fmlookup txs' i = Some t \<Longrightarrow> handle_ok s' i t"
  shows "world_ok (w\<lparr>store := s', txs := txs'\<rparr>)"
proof -
  have "view (chain_at s' k) r = hist_at (hist w) r k" if "floor_ts (clock w) s' \<le> r" for k r
    using floor_mono [OF world_okD(2) [OF ok] s'(2), of "clock w"] that view [of r k]
      world_okD(4) [OF ok, of r k] by simp
  with world_okD(1,5,6) [OF ok] s'(1) hs show ?thesis by (simp add: world_ok_def)
qed

subsection \<open>Every step keeps the invariant\<close>

lemma world_ok_init: "world_ok (world_init threshold)"
  by (simp add: world_ok_def world_init_def with_gc_threshold_def store_ok_def min_or_zero_def
      chain_at_def chain_ok_new)

lemma chain_ok_later:
  assumes "chain_ok n A c" "n \<le> n'" "A' = A \<or> A' = finsert n A"
  shows "chain_ok n' A' c"
proof -
  have "\<forall>v\<in>set (versions c). \<not> committed v \<longrightarrow> created_by v |\<in>| A"
    using assms(1) by (rule chain_okE) auto
  then show ?thesis using assms(3) by (intro chain_ok_mono [OF assms(1,2)]) auto
qed

lemma register_frame [simp]:
  "active_txns (register_active s tx) = finsert tx (active_txns s)"
  "chain_at (register_active s tx) k = chain_at s k"
  by (simp_all add: register_active_def Let_def chain_at_def)

lemma store_ok_register: "store_ok n s \<Longrightarrow> 0 < n \<Longrightarrow> store_ok (n + 1) (register_active s n)"
  using min_or_zero_insert [of "active_txns s" n] chain_ok_later [of n "active_txns s" _ "n + 1"]
  by (auto simp: store_ok_def register_active_def Let_def chain_at_def less_SucI)

lemma floor_register:
  assumes "store_ok n s" shows "floor_ts m (register_active s n) = floor_ts n s"
proof (cases "active_txns s = {||}")
  case False
  then have "fMin (active_txns s) < n" using assms fMin_in [OF False] by (auto simp: store_ok_def)
  with False show ?thesis by (simp add: floor_ts_def fMin_finsert min_def)
qed (simp add: floor_ts_def)

lemma world_ok_begin:
  assumes ok: "world_ok w" and t: "tx_new (store w) (clock w) = (t, s', n')"
  shows "world_ok (w\<lparr>store := s', clock := n', txs := fmupd (tx_id t) t (txs w)\<rparr>)"
proof -
  let ?n = "clock w" and ?s = "store w"
  note D = world_okD [OF ok]
  have t': "s' = register_active ?s ?n" "n' = ?n + 1" "tx_id t = ?n" "read_ts t = ?n" "write_set t = fmempty"
    using t by (auto simp: tx_new_def next_timestamp_def)
  have none: "own_intent (chain_at ?s k) ?n = None" for k
  proof -
    have "chain_ok ?n (active_txns ?s) (chain_at ?s k)" using D(2) by (simp add: store_ok_def)
    then have "\<forall>v\<in>set (versions (chain_at ?s k)). \<not> committed v \<longrightarrow> created_by v |\<in>| active_txns ?s"
      by (rule chain_okE) auto
    moreover have "?n |\<notin>| active_txns ?s" using D(2) by (auto simp: store_ok_def)
    ultimately show ?thesis by (auto simp: own_intent_None)
  qed
  have "handle_ok s' i h" if "fmlookup (fmupd (tx_id t) t (txs w)) i = Some h" for i h
    using that D(3) [of i h] none t' by (auto simp: handle_ok_def intents_are_def split: if_splits)
  moreover have "\<forall>h\<in>set (hist w). h_ts h < n'" using D(5) t'(2) by (auto intro: less_SucI)
  ultimately show ?thesis
    using D(4,6) store_ok_register [OF D(2,1)] floor_register [OF D(2)] t'(1,2) by (simp add: world_ok_def)
qed

lemma tx_get_frame:
  "tx_get s t k = (res, t') \<Longrightarrow>
    tx_id t' = tx_id t \<and> read_ts t' = read_ts t \<and> write_set t' = write_set t \<and> state t' = state t"
  by (auto simp: tx_get_def split: if_splits option.splits prod.splits)

lemma handle_ok_same:
  "handle_ok s i t \<Longrightarrow> tx_id t' = tx_id t \<Longrightarrow> read_ts t' = read_ts t \<Longrightarrow> write_set t' = write_set t \<Longrightarrow>
    handle_ok s i t'"
  by (simp add: handle_ok_def)

text \<open>Writing a key: the common part of \<open>put\<close> and \<open>delete\<close>.\<close>

lemma world_ok_write:
  assumes ok: "world_ok w" and i: "fmlookup (txs w) i = Some t"
    and free: "check_write_conflict_detailed (store w) k i = None"
    and t': "tx_id t' = i" "read_ts t' = i" "write_set t' = fmupd k v (write_set t)"
  shows "world_ok (w\<lparr>store := write_intent (store w) k v i i, txs := fmupd i t' (txs w)\<rparr>)"
proof -
  note D = world_okD [OF ok]
  note H = handle_okD [OF D(3) [OF i]]
  note W = write_intent [OF D(2) H(3) free]
  have "handle_ok (write_intent (store w) k v i i) j h" if "fmlookup (fmupd i t' (txs w)) j = Some h" for j h
  proof (cases "j = i")
    case True
    with that t' H(3,4) show ?thesis by (auto simp: handle_ok_def intents_are_def W(1,3))
  next
    case False
    with that D(3) [of j h] show ?thesis by (simp add: handle_ok_def intents_are_def W(1,3))
  qed
  then show ?thesis
    using W(2,4) floor_oldest [OF D(2)] by (intro world_ok_frame [OF ok]) (simp_all add: W(1))
qed

text \<open>A handle changes without touching the store.\<close>

lemma world_ok_handle:
  assumes ok: "world_ok w" and i: "fmlookup (txs w) i = Some t"
    and t': "tx_id t' = tx_id t" "read_ts t' = read_ts t" "write_set t' = write_set t"
  shows "world_ok (w\<lparr>txs := fmupd i t' (txs w)\<rparr>)"
proof -
  have "handle_ok (store w) j h" if "fmlookup (fmupd i t' (txs w)) j = Some h" for j h
    using that world_okD(3) [OF ok, of j h] handle_ok_same [OF world_okD(3) [OF ok i] t'] by (auto split: if_splits)
  with world_ok_frame [OF ok world_okD(2) [OF ok], of "fmupd i t' (txs w)"] show ?thesis by simp
qed

lemma world_ok_put:
  assumes ok: "world_ok w" and i: "fmlookup (txs w) i = Some t" and r: "tx_put (store w) t k v = (res, t', s')"
  shows "world_ok (w\<lparr>store := s', txs := fmupd i t' (txs w)\<rparr>)"
proof -
  note H = handle_okD [OF world_okD(3) [OF ok i]]
  show ?thesis
    using r H(1,2) world_ok_handle [OF ok i, of t'] world_ok_write [OF ok i, of k t' "Some v"]
    by (auto simp: tx_put_def split: if_splits option.splits)
qed

lemma world_ok_delete:
  assumes ok: "world_ok w" and i: "fmlookup (txs w) i = Some t" and r: "tx_delete (store w) t k = (res, t', s')"
  shows "world_ok (w\<lparr>store := s', txs := fmupd i t' (txs w)\<rparr>)"
proof -
  note H = handle_okD [OF world_okD(3) [OF ok i]]
  obtain g t1 where g: "tx_get (store w) t k = (g, t1)" by fastforce
  note F = tx_get_frame [OF g]
  show ?thesis
    using r H(1,2) F g world_ok_handle [OF ok i, of t'] world_ok_write [OF ok i, of k t' None]
    by (auto simp: tx_delete_def split: if_splits option.splits sum.splits)
qed

text \<open>The end of a transaction without a commit.\<close>

lemma world_ok_abort:
  assumes ok: "world_ok w" and i: "fmlookup (txs w) i = Some t"
  shows "world_ok (w\<lparr>store := abort_store (store w) t, txs := fmdrop i (txs w)\<rparr>)"
proof -
  note D = world_okD [OF ok]
  note H = handle_okD [OF D(3) [OF i]]
  note A = abort_store [OF D(2) H(4) [folded H(1)]]
  have "handle_ok (abort_store (store w) t) j h" if "fmlookup (fmdrop i (txs w)) j = Some h" for j h
    using that D(3) [of j h] H(1) by (auto simp: handle_ok_def intents_are_def A(1,3) split: if_splits)
  then show ?thesis using A(2,4) by (intro world_ok_frame [OF ok]) (auto simp: A(1))
qed

lemma world_ok_drop:
  assumes ok: "world_ok w"
  shows "world_ok (w\<lparr>txs := fmdrop i (txs w)\<rparr>)"
proof -
  have "handle_ok (store w) j h" if "fmlookup (fmdrop i (txs w)) j = Some h" for j h
    using that world_okD(3) [OF ok, of j h] by (simp split: if_splits)
  with world_ok_frame [OF ok world_okD(2) [OF ok], of "fmdrop i (txs w)"] show ?thesis by simp
qed

text \<open>A successful commit: the validation rules out every overlapping writer of the same key.\<close>

lemma hist_at_ge:
  "fcw hs \<Longrightarrow> h \<in> set hs \<Longrightarrow> fmlookup (h_ws h) k \<noteq> None \<Longrightarrow> h_ts h \<le> r \<Longrightarrow>
    \<exists>d ts. hist_at hs r k = Some (d, ts) \<and> h_ts h \<le> ts"
proof (induction hs)
  case (Cons h' hs)
  show ?case
  proof (cases "h \<in> set hs")
    case True
    then have "h_ts h < h_ts h'" using Cons.prems(1) by (auto simp: list_all_iff)
    with True Cons show ?thesis by (auto split: option.split)
  next
    case False
    with Cons.prems show ?thesis by auto
  qed
qed simp

lemma latest_committed_chain:
  "get_latest_committed_ts s k = cached_latest_committed_ts (chain_at s k)"
  by (simp add: get_latest_committed_ts_def latest_committed_ts_def chain_at_def fm_get_def split: option.split)

lemma validate_no_overlap:
  assumes ok: "world_ok w" and i: "fmlookup (txs w) i = Some t" and v: "validate (store w) t"
    and h: "h \<in> set (hist w)" "i < h_ts h"
  shows "fmdom (write_set t) |\<inter>| fmdom (h_ws h) = {||}"
proof (rule ccontr)
  assume "fmdom (write_set t) |\<inter>| fmdom (h_ws h) \<noteq> {||}"
  then obtain k where k: "k |\<in>| fmdom (write_set t)" "k |\<in>| fmdom (h_ws h)" by auto
  then have k': "fmlookup (write_set t) k \<noteq> None" "fmlookup (h_ws h) k \<noteq> None"
    by (auto simp: fmdom_notI)
  note D = world_okD [OF ok]
  note H = handle_okD [OF D(3) [OF i]]
  let ?n = "clock w" and ?c = "chain_at (store w) k"
  have "floor_ts ?n (store w) \<le> ?n"
    using floor_mono [OF D(2), of "store w\<lparr>active_txns := {||}\<rparr>" ?n] by (simp add: floor_ts_def)
  with D(4) have view: "view ?c ?n = hist_at (hist w) ?n k" by simp
  obtain d ts where ts: "hist_at (hist w) ?n k = Some (d, ts)" "h_ts h \<le> ts"
    using hist_at_ge [OF D(6) h(1) k'(2), of ?n] D(5) [OF h(1)] by auto
  have "chain_ok ?n (active_txns (store w)) ?c" using D(2) by (simp add: store_ok_def)
  from find_visible_latest [OF this order_refl, of "{||}"] view ts
  have "get_latest_committed_ts (store w) k = Some ts"
    by (auto simp: latest_committed_chain view_def)
  moreover have "k \<in> set (write_keys t)" using k'(1) by (simp add: write_keys_props)
  ultimately have "\<not> ts > read_ts t" using v by (auto simp: validate_def list_all_iff)
  with ts(2) h(2) H(2) show False by simp
qed

lemma tx_commit_ok:
  assumes "tx_commit s n t = (Inr (), t', s', n')"
  shows "state t = Active" "validate s t" "s' = commit_store s t n" "n' = n + 1"
    "t' = t\<lparr>commit_ts := Some n, state := Committed\<rparr>"
  using assms by (auto simp: tx_commit_def commit_store_def next_timestamp_def Let_def split: if_splits)

lemma tx_commit_err:
  assumes "tx_commit s n t = (Inl e, t', s', n')"
  shows "n' = n" "s' = s \<or> s' = abort_store s t"
  using assms by (auto simp: tx_commit_def next_timestamp_def abort_store_def abort_order Let_def split: if_splits)

lemma world_ok_commit:
  assumes ok: "world_ok w" and i: "fmlookup (txs w) i = Some t"
    and r: "tx_commit (store w) (clock w) t = (Inr (), t', s', n')"
  shows "world_ok (w\<lparr>store := s', clock := n', txs := fmdrop i (txs w),
      hist := \<lparr>h_tx = tx_id t', h_ts = the (commit_ts t'), h_ws = write_set t'\<rparr> # hist w\<rparr>)"
proof -
  let ?n = "clock w" and ?s = "store w"
  note R = tx_commit_ok [OF r]
  note D = world_okD [OF ok]
  note H = handle_okD [OF D(3) [OF i]]
  note C = commit_store [OF D(2) H(4) [folded H(1)] H(3) [folded H(1)]]
  have i': "i < ?n" using D(2) H(3) by (auto simp: store_ok_def)
  have "handle_ok s' j h" if "fmlookup (fmdrop i (txs w)) j = Some h" for j h
    using that D(3) [of j h] H(1) by (auto simp: R(3) handle_ok_def intents_are_def C(1,3) split: if_splits)
  moreover have "view (chain_at s' k) r = hist_at (\<lparr>h_tx = tx_id t', h_ts = the (commit_ts t'),
      h_ws = write_set t'\<rparr> # hist w) r k" if "floor_ts n' s' \<le> r" for k r
  proof -
    have "floor_ts ?n ?s \<le> floor_ts n' s'"
      using R(4) by (intro floor_mono [OF D(2)]) (auto simp: R(3) C(1))
    with that D(4) have "view (chain_at ?s k) r = hist_at (hist w) r k" by simp
    then show ?thesis by (simp add: R(3,5) C(4) split: option.split)
  qed
  moreover have "fcw (\<lparr>h_tx = tx_id t', h_ts = the (commit_ts t'), h_ws = write_set t'\<rparr> # hist w)"
    using D(5,6) i' H(1) validate_no_overlap [OF ok i R(2)] by (auto simp: R(5) list_all_iff)
  ultimately show ?thesis
    using D(5) C(2) R(3,4,5) by (auto simp: world_ok_def intro: less_SucI)
qed

text \<open>The clock moves on without a transaction (\<open>MvccStore::get\<close>).\<close>

lemma world_ok_tick:
  assumes ok: "world_ok w" shows "world_ok (w\<lparr>clock := clock w + 1\<rparr>)"
proof -
  note D = world_okD [OF ok]
  have "store_ok (clock w + 1) (store w)"
    using D(2) chain_ok_later [of "clock w" "active_txns (store w)" _ "clock w + 1"]
    by (auto simp: store_ok_def less_SucI)
  with D(1,3,4,6) D(5) floor_mono [OF D(2), of "store w" "clock w + 1"] show ?thesis
    by (auto simp: world_ok_def less_SucI)
qed

lemma world_ok_step: "mvcc_step w w' \<Longrightarrow> world_ok w \<Longrightarrow> world_ok w'"
proof (induction rule: mvcc_step.induct)
  case (step_begin w t s' n')
  then show ?case by (rule world_ok_begin [rotated])
next
  case (step_get w i t key res t')
  then show ?case using tx_get_frame [OF step_get(2)] world_ok_handle by blast
next
  case (step_put w i t key v res t' s')
  then show ?case by (metis world_ok_put)
next
  case (step_delete w i t key res t' s')
  then show ?case by (metis world_ok_delete)
next
  case (step_commit w i t t' s' n')
  then show ?case by (metis world_ok_commit)
next
  case (step_commit_err w i t e t' s' n')
  then show ?case
    using tx_commit_err [OF step_commit_err(2)] world_ok_abort [of w i t] world_ok_drop [of w i] by auto
next
  case (step_rollback w i t res t' s')
  then show ?case
    using world_ok_abort [of w i t] world_ok_drop [of w i]
    by (auto simp: tx_rollback_def abort_store_def split: if_splits)
next
  case (step_drop w i t)
  then show ?case by (simp add: world_ok_drop)
next
  case (step_gc w)
  have "handle_ok (run_gc (store w)) i t" if "fmlookup (txs w) i = Some t" for i t
    using world_okD(3) [OF step_gc that] by (simp add: handle_ok_def intents_are_def own_intent_run_gc)
  then show ?case
    using world_ok_frame [OF step_gc store_ok_gc [OF world_okD(2) [OF step_gc]], of "txs w"]
      view_run_gc floor_oldest [OF world_okD(2) [OF step_gc]] by simp
next
  case (step_store_get w key res n')
  then show ?case using world_ok_tick [of w] by (auto simp: store_get_def next_timestamp_def Let_def)
qed

lemma reachable_ok: "mvcc_reachable threshold w \<Longrightarrow> world_ok w"
  by (induction rule: mvcc_reachable.induct) (auto intro: world_ok_init world_ok_step)

end
