(* ===== verification/Mvcc_Props.thy ===== *)
theory Mvcc_Props
  imports Mvcc_System
begin

text \<open>
  The properties of the multi-version store: snapshot reads and their stability, first committer wins,
  atomic publication, rollback without trace, prefix scans, the record key encoding, and two
  behaviours of the error paths.
\<close>

section \<open>Running a schedule\<close>

text \<open>A schedule is a list of commands; running one reaches a state of the transition system.\<close>

datatype cmd =
    Begin
  | Get txid bytes
  | Put txid bytes bytes
  | Delete txid bytes
  | Commit txid
  | Rollback txid
  | Gc

definition run_cmd :: "world \<Rightarrow> cmd \<Rightarrow> world" where
  "run_cmd w c =
     (case c of
        Begin \<Rightarrow> (case tx_new (store w) (clock w) of (t, s', n') \<Rightarrow>
          w\<lparr>store := s', clock := n', txs := fmupd (tx_id t) t (txs w)\<rparr>)
      | Get i k \<Rightarrow> (case fmlookup (txs w) i of None \<Rightarrow> w | Some t \<Rightarrow>
          (case tx_get (store w) t k of (_, t') \<Rightarrow> w\<lparr>txs := fmupd i t' (txs w)\<rparr>))
      | Put i k v \<Rightarrow> (case fmlookup (txs w) i of None \<Rightarrow> w | Some t \<Rightarrow>
          (case tx_put (store w) t k v of (_, t', s') \<Rightarrow> w\<lparr>store := s', txs := fmupd i t' (txs w)\<rparr>))
      | Delete i k \<Rightarrow> (case fmlookup (txs w) i of None \<Rightarrow> w | Some t \<Rightarrow>
          (case tx_delete (store w) t k of (_, t', s') \<Rightarrow> w\<lparr>store := s', txs := fmupd i t' (txs w)\<rparr>))
      | Commit i \<Rightarrow> (case fmlookup (txs w) i of None \<Rightarrow> w | Some t \<Rightarrow>
          (case tx_commit (store w) (clock w) t of
             (Inr _, t', s', n') \<Rightarrow> w\<lparr>store := s', clock := n', txs := fmdrop i (txs w),
               hist := \<lparr>h_tx = tx_id t', h_ts = the (commit_ts t'), h_ws = write_set t'\<rparr> # hist w\<rparr>
           | (Inl _, _, s', n') \<Rightarrow> w\<lparr>store := s', clock := n', txs := fmdrop i (txs w)\<rparr>))
      | Rollback i \<Rightarrow> (case fmlookup (txs w) i of None \<Rightarrow> w | Some t \<Rightarrow>
          (case tx_rollback (store w) t of (_, _, s') \<Rightarrow> w\<lparr>store := s', txs := fmdrop i (txs w)\<rparr>))
      | Gc \<Rightarrow> w\<lparr>store := run_gc (store w)\<rparr>)"

definition schedule :: "nat \<Rightarrow> cmd list \<Rightarrow> world" where
  "schedule threshold cs = foldl run_cmd (world_init threshold) cs"

lemma run_cmd_step: "run_cmd w c = w \<or> mvcc_step w (run_cmd w c)"
proof (cases c)
  case Begin then show ?thesis by (auto simp: run_cmd_def intro: step_begin split: prod.split)
next
  case Get then show ?thesis by (auto simp: run_cmd_def intro: step_get split: prod.split option.split)
next
  case Put then show ?thesis by (auto simp: run_cmd_def intro: step_put split: prod.split option.split)
next
  case Delete then show ?thesis by (auto simp: run_cmd_def intro: step_delete split: prod.split option.split)
next
  case Commit then show ?thesis
    by (auto simp: run_cmd_def intro: step_commit step_commit_err split: prod.split option.split sum.split)
next
  case Rollback then show ?thesis by (auto simp: run_cmd_def intro: step_rollback split: prod.split option.split)
next
  case Gc then show ?thesis by (auto simp: run_cmd_def intro: step_gc)
qed

lemma run_cmds_reachable: "mvcc_reachable threshold w \<Longrightarrow> mvcc_reachable threshold (foldl run_cmd w cs)"
proof (induction cs arbitrary: w)
  case (Cons c cs)
  have "mvcc_reachable threshold (run_cmd w c)"
    using run_cmd_step [of w c] Cons.prems by (auto intro: reach_step)
  with Cons.IH show ?case by simp
qed simp

lemma schedule_reachable: "mvcc_reachable threshold (schedule threshold cs)"
  unfolding schedule_def by (rule run_cmds_reachable [OF reach_init])

section \<open>Snapshot reads\<close>

text \<open>The value a snapshot at \<open>r\<close> has for a key, by the history of commits.\<close>

definition snapshot_value :: "commit_rec list \<Rightarrow> nat \<Rightarrow> bytes \<Rightarrow> bytes option" where
  "snapshot_value hs r k = (case hist_at hs r k of Some (d, _) \<Rightarrow> d | None \<Rightarrow> None)"

lemma active_floor: "store_ok n s \<Longrightarrow> i |\<in>| active_txns s \<Longrightarrow> floor_ts n s \<le> i"
  using fMin_le [of i "active_txns s"] by (auto simp: floor_ts_def)

lemma store_read_view:
  assumes ok: "store_ok n s" and i: "i |\<in>| active_txns s" and own: "own_intent (chain_at s k) i = None"
  shows "fst (store_read s k r i) = (case view (chain_at s k) r of Some (d, _) \<Rightarrow> d | None \<Rightarrow> None)"
proof -
  have "chain_ok n (active_txns s) (chain_at s k)" using ok by (simp add: store_ok_def)
  from find_by_txn_own(2) [OF this i] own have "find_by_txn (chain_at s k) i = None" by simp
  then show ?thesis
    by (auto simp: store_read_def chain_at_def fm_get_def view_def is_tombstone_def
        find_visible_any [of _ _ "active_txns s"] split: option.splits)
qed

lemma tx_get_value:
  "state t = Active \<Longrightarrow> fst (tx_get s t k) =
    Inr (case fmlookup (write_set t) k of Some v \<Rightarrow> v | None \<Rightarrow> fst (store_read s k (read_ts t) (tx_id t)))"
  by (auto simp: tx_get_def split: option.split prod.split)

lemma snapshot_read_aux:
  assumes ok: "world_ok w" and i: "fmlookup (txs w) i = Some t" and a: "state t = Active"
  shows "fst (tx_get (store w) t k) =
    Inr (case fmlookup (write_set t) k of Some v \<Rightarrow> v | None \<Rightarrow> snapshot_value (hist w) i k)"
proof -
  note D = world_okD [OF ok]
  note H = handle_okD [OF D(3) [OF i]]
  have "fst (store_read (store w) k i i) = snapshot_value (hist w) i k" if "fmlookup (write_set t) k = None"
  proof -
    have "own_intent (chain_at (store w) k) i = None" using H(4) that by (simp add: intents_are_def)
    from store_read_view [OF D(2) H(3) this] D(4) [OF active_floor [OF D(2) H(3)]]
    show ?thesis by (simp add: snapshot_value_def)
  qed
  with H(1,2) show ?thesis by (auto simp: tx_get_value [OF a] split: option.split)
qed

text \<open>
  C1: Snapshot isolation of reads. In every state the interleaved transactions can reach, whatever
  collections ran, a read of an active transaction returns its own last write of the key, or else the
  value of the newest transaction that wrote the key and committed before this one began.
\<close>
theorem mvcc_snapshot_reads:
  assumes "mvcc_reachable threshold w" "fmlookup (txs w) i = Some t" "state t = Active"
  shows "fst (tx_get (store w) t k) =
    Inr (case fmlookup (write_set t) k of Some v \<Rightarrow> v | None \<Rightarrow> snapshot_value (hist w) i k)"
  using snapshot_read_aux [OF reachable_ok] assms by blast

theorem mvcc_snapshot_reads_witness:
  "fst (tx_get (store (schedule 0 [Begin, Put 1 [7] [1], Commit 1, Begin, Begin, Put 4 [7] [2], Commit 4, Gc]))
     (the (fmlookup (txs (schedule 0 [Begin, Put 1 [7] [1], Commit 1, Begin, Begin, Put 4 [7] [2], Commit 4, Gc])) 3)) [7])
   = Inr (Some [1])"
proof -
  let ?w = "schedule 0 [Begin, Put 1 [7] [1], Commit 1, Begin, Begin, Put 4 [7] [2], Commit 4, Gc]"
  let ?t = "the (fmlookup (txs ?w) 3)"
  have t: "fmlookup (txs ?w) 3 = Some ?t" "state ?t = Active" by code_simp+
  have "fmlookup (write_set ?t) [7] = None" "snapshot_value (hist ?w) 3 [7] = Some [1]" by code_simp+
  with mvcc_snapshot_reads [OF schedule_reachable t, of "[7]"] show ?thesis by simp
qed

text \<open>Commits that come later do not touch an older snapshot, so reads are repeatable.\<close>

lemma hist_step_snapshot:
  assumes "mvcc_step w w'" "world_ok w" "i < clock w"
  shows "hist_at (hist w') i k = hist_at (hist w) i k \<and> i < clock w'"
  using assms
proof cases
  case (step_commit j t t' s' n')
  with tx_commit_ok(4,5) [OF step_commit(3)] assms(3) show ?thesis by (auto split: option.split)
next
  case (step_commit_err j t e t' s' n')
  with tx_commit_err(1) [OF step_commit_err(3)] assms(3) show ?thesis by simp
qed (use assms(3) in \<open>auto simp: tx_new_def store_get_def next_timestamp_def Let_def\<close>)

lemma hist_steps_snapshot:
  assumes "mvcc_step\<^sup>*\<^sup>* w w'" "world_ok w" "i < clock w"
  shows "hist_at (hist w') i k = hist_at (hist w) i k \<and> i < clock w' \<and> world_ok w'"
  using assms
proof (induction rule: rtranclp_induct)
  case (step y z)
  then show ?case using hist_step_snapshot [OF step(2)] world_ok_step [OF step(2)] by auto
qed simp

text \<open>
  Repeatable reads. Between two reads of a key that the transaction has not written, any number of
  steps of any transactions may happen, collections included: both reads return the same value.
\<close>
theorem mvcc_repeatable_read:
  assumes "mvcc_reachable threshold w" "mvcc_step\<^sup>*\<^sup>* w w'"
    and "fmlookup (txs w) i = Some t" "state t = Active" "fmlookup (write_set t) k = None"
    and "fmlookup (txs w') i = Some t'" "state t' = Active" "fmlookup (write_set t') k = None"
  shows "fst (tx_get (store w') t' k) = fst (tx_get (store w) t k)"
proof -
  have ok: "world_ok w" using assms(1) by (rule reachable_ok)
  have "i < clock w"
    using handle_okD(3) [OF world_okD(3) [OF ok assms(3)]] world_okD(2) [OF ok] by (auto simp: store_ok_def)
  from hist_steps_snapshot [OF assms(2) ok this, of k]
  have w': "hist_at (hist w') i k = hist_at (hist w) i k" "world_ok w'" by auto
  show ?thesis
    using snapshot_read_aux [OF ok assms(3,4), of k] snapshot_read_aux [OF w'(2) assms(6,7), of k] w'(1) assms(5,8)
    by (simp add: snapshot_value_def)
qed

lemma run_cmds_steps: "mvcc_step\<^sup>*\<^sup>* w (foldl run_cmd w cs)"
proof (induction cs arbitrary: w)
  case (Cons c cs)
  have "mvcc_step\<^sup>*\<^sup>* w (run_cmd w c)" using run_cmd_step [of w c] by auto
  with Cons.IH [of "run_cmd w c"] show ?case by (simp add: rtranclp_trans [of mvcc_step])
qed simp

theorem mvcc_repeatable_read_witness:
  "\<exists>w w' t t'. w' = foldl run_cmd w [Begin, Put 4 [7] [2], Commit 4, Gc] \<and>
     fmlookup (txs w) 3 = Some t \<and> fmlookup (txs w') 3 = Some t' \<and>
     fst (tx_get (store w') t' [7]) = fst (tx_get (store w) t [7])"
proof -
  let ?w = "schedule 0 [Begin, Put 1 [7] [1], Commit 1, Begin]"
  let ?w' = "foldl run_cmd ?w [Begin, Put 4 [7] [2], Commit 4, Gc]"
  have w: "fmlookup (txs ?w) 3 = Some (the (fmlookup (txs ?w) 3))" "state (the (fmlookup (txs ?w) 3)) = Active"
    "fmlookup (write_set (the (fmlookup (txs ?w) 3))) [7] = None" by code_simp+
  have w': "fmlookup (txs ?w') 3 = Some (the (fmlookup (txs ?w') 3))" "state (the (fmlookup (txs ?w') 3)) = Active"
    "fmlookup (write_set (the (fmlookup (txs ?w') 3))) [7] = None" by code_simp+
  show ?thesis
    using mvcc_repeatable_read [OF schedule_reachable run_cmds_steps w w'] w(1) w'(1) by blast
qed

section \<open>Writers\<close>

lemma fcw_pair:
  "fcw hs \<Longrightarrow> h1 \<in> set hs \<Longrightarrow> h2 \<in> set hs \<Longrightarrow> h_ts h1 < h_ts h2 \<Longrightarrow> h_tx h2 < h_ts h1 \<Longrightarrow>
    fmdom (h_ws h2) |\<inter>| fmdom (h_ws h1) = {||}"
  by (induction hs) (auto simp: list_all_iff)

text \<open>
  C4: First committer wins. If two transactions both committed and the later one had begun before the
  earlier one committed, their write sets have no key in common: no update is lost.
\<close>
theorem mvcc_first_committer_wins:
  assumes "mvcc_reachable threshold w" "h1 \<in> set (hist w)" "h2 \<in> set (hist w)"
    and "h_ts h1 < h_ts h2" "h_tx h2 < h_ts h1"
  shows "fmdom (h_ws h1) |\<inter>| fmdom (h_ws h2) = {||}"
  using fcw_pair [OF world_okD(6) [OF reachable_ok [OF assms(1)]] assms(2-5)] by (simp add: finter_commute)

theorem mvcc_first_committer_wins_witness:
  "let hs = hist (schedule 5 [Begin, Begin, Put 1 [7] [1], Put 2 [8] [2], Commit 1, Commit 2])
   in fmdom (h_ws (hs ! 1)) |\<inter>| fmdom (h_ws (hs ! 0)) = {||} \<and> length hs = 2"
proof -
  let ?w = "schedule 5 [Begin, Begin, Put 1 [7] [1], Put 2 [8] [2], Commit 1, Commit 2]"
  have l: "length (hist ?w) = 2" by code_simp
  have h: "hist ?w ! 1 \<in> set (hist ?w)" "hist ?w ! 0 \<in> set (hist ?w)" using l by simp_all
  have "h_ts (hist ?w ! 1) < h_ts (hist ?w ! 0)" "h_tx (hist ?w ! 0) < h_ts (hist ?w ! 1)" by code_simp+
  from mvcc_first_committer_wins [OF schedule_reachable h this] l show ?thesis by simp
qed

text \<open>
  C14: A commit that succeeds is atomic. At every timestamp from the commit on, the store shows each
  written key with the value of the write set; at every earlier timestamp, and for every other key at
  any timestamp, it shows what it showed before; the transaction has no intent left and is no longer
  active. The collection horizon does not matter for this.
\<close>
theorem mvcc_commit_atomic:
  assumes "mvcc_reachable threshold w" "fmlookup (txs w) i = Some t"
    and "tx_commit (store w) (clock w) t = (Inr (), t', s', n')"
  shows "view (chain_at s' k) r = (if clock w \<le> r \<and> fmlookup (write_set t) k \<noteq> None
           then Some (the (fmlookup (write_set t) k), clock w) else view (chain_at (store w) k) r)
    \<and> own_intent (chain_at s' k) i = None \<and> i |\<notin>| active_txns s' \<and> store_ok n' s'"
proof -
  have ok: "world_ok w" using assms(1) by (rule reachable_ok)
  note D = world_okD [OF ok]
  note H = handle_okD [OF D(3) [OF assms(2)]]
  note C = commit_store [OF D(2) H(4) [folded H(1)] H(3) [folded H(1)]]
  show ?thesis
    using tx_commit_ok(3,4) [OF assms(3)] C(2) H(1) by (simp add: C(1,3,4) split: option.split)
qed

theorem mvcc_commit_atomic_witness:
  "let w = schedule 5 [Begin, Put 1 [7] [1], Put 1 [8] [2]]; t = the (fmlookup (txs w) 1);
       s' = fst (snd (snd (tx_commit (store w) (clock w) t)))
   in view (chain_at s' [8]) 2 = Some (Some [2], 2) \<and> view (chain_at s' [8]) 1 = None"
proof -
  let ?w = "schedule 5 [Begin, Put 1 [7] [1], Put 1 [8] [2]]"
  let ?t = "the (fmlookup (txs ?w) 1)"
  let ?c = "tx_commit (store ?w) (clock ?w) ?t"
  have t: "fmlookup (txs ?w) 1 = Some ?t" by code_simp
  have "fst ?c = Inr ()" by code_simp
  then have c: "?c = (Inr (), fst (snd ?c), fst (snd (snd ?c)), snd (snd (snd ?c)))" by (metis prod.collapse)
  have "clock ?w = 2" "fmlookup (write_set ?t) [8] = Some (Some [2])" "view (chain_at (store ?w) [8]) 1 = None"
    by code_simp+
  with mvcc_commit_atomic [OF schedule_reachable t c, of "[8]" 2]
    mvcc_commit_atomic [OF schedule_reachable t c, of "[8]" 1]
  show ?thesis by (simp add: Let_def)
qed

text \<open>
  C17: Rollback, and a commit refused by the validation, leave no trace: the transaction's intents are
  gone from every chain, the intents of the others and every snapshot are as before, and the
  transaction is no longer active.
\<close>
theorem mvcc_abort_leaves_no_trace:
  assumes "mvcc_reachable threshold w" "fmlookup (txs w) i = Some t" "state t = Active"
    and "s' = snd (snd (tx_rollback (store w) t)) \<or>
      (\<not> validate (store w) t \<and> s' = fst (snd (snd (tx_commit (store w) (clock w) t))))"
  shows "view (chain_at s' k) r = view (chain_at (store w) k) r
    \<and> own_intent (chain_at s' k) j = (if j = i then None else own_intent (chain_at (store w) k) j)
    \<and> active_txns s' = active_txns (store w) |-| {|i|}"
proof -
  have ok: "world_ok w" using assms(1) by (rule reachable_ok)
  note D = world_okD [OF ok]
  note H = handle_okD [OF D(3) [OF assms(2)]]
  have "s' = abort_store (store w) t"
    using assms(3,4) by (auto simp: tx_rollback_def tx_commit_def abort_store_def abort_order)
  with abort_store [OF D(2) H(4) [folded H(1)]] H(1) show ?thesis by simp
qed

theorem mvcc_abort_leaves_no_trace_witness:
  "let w = schedule 5 [Begin, Put 1 [7] [1]]; s' = snd (snd (tx_rollback (store w) (the (fmlookup (txs w) 1))))
   in own_intent (chain_at (store w) [7]) 1 = Some (Some [1]) \<and> own_intent (chain_at s' [7]) 1 = None"
proof -
  let ?w = "schedule 5 [Begin, Put 1 [7] [1]]"
  let ?t = "the (fmlookup (txs ?w) 1)"
  have t: "fmlookup (txs ?w) 1 = Some ?t" "state ?t = Active" by code_simp+
  have "own_intent (chain_at (store ?w) [7]) 1 = Some (Some [1])" by code_simp
  with mvcc_abort_leaves_no_trace [OF schedule_reachable t, of "snd (snd (tx_rollback (store ?w) ?t))" "[7]" 0 1]
  show ?thesis by (simp add: Let_def)
qed

section \<open>Garbage collection\<close>

text \<open>
  C9: Garbage collection at the oldest active timestamp is sound and effective on any chain: every
  snapshot from that timestamp on sees the same version, every uncommitted version survives in
  order, and at most one committed version older than that timestamp is left.
\<close>
theorem mvcc_gc_sound_and_effective:
  assumes "oldest \<le> r"
  shows "find_visible (chain_gc c oldest) r A = find_visible c r A
    \<and> filter (\<lambda>v. \<not> committed v) (versions (chain_gc c oldest)) = filter (\<lambda>v. \<not> committed v) (versions c)
    \<and> length (filter (\<lambda>v. committed v \<and> write_ts v < oldest) (versions (chain_gc c oldest))) \<le> 1"
  using find_visible_gc [OF assms] uncommitted_chain_gc length_chain_gc_old by blast

definition example_chain :: version_chain where
  "example_chain = chain_at (store (schedule 50 [Begin, Put 1 [7] [1], Commit 1, Begin, Put 3 [7] [2], Commit 3,
     Begin, Put 5 [7] [3], Commit 5])) [7]"

theorem mvcc_gc_sound_and_effective_witness:
  "find_visible (chain_gc example_chain 5) 5 {||} = find_visible example_chain 5 {||} \<and>
   chain_len example_chain = 3 \<and> chain_len (chain_gc example_chain 5) = 2"
proof -
  have "chain_len example_chain = 3" "chain_len (chain_gc example_chain 5) = 2" by code_simp+
  with mvcc_gc_sound_and_effective [of 5 5 example_chain "{||}"] show ?thesis by simp
qed

section \<open>Prefix scans\<close>

lemma store_scan_lookup_aux:
  "distinct (map fst xs) \<Longrightarrow>
    fmlookup (fold (\<lambda>(key, chain) results. if \<not> starts_with key p then results
       else case scan_chain s r tx chain of Some d \<Rightarrow> fmupd key d results | None \<Rightarrow> results) xs m) k =
    (case map_of xs k of
       Some chain \<Rightarrow> if starts_with k p \<and> scan_chain s r tx chain \<noteq> None then scan_chain s r tx chain else fmlookup m k
     | None \<Rightarrow> fmlookup m k)"
proof (induction xs arbitrary: m)
  case (Cons x xs)
  obtain k' c where x: "x = (k', c)" by fastforce
  show ?case
  proof (cases "k = k'")
    case True
    with Cons.prems x have "map_of xs k = None" by (simp add: map_of_eq_None_iff)
    with True Cons x show ?thesis by (auto split: option.splits)
  next
    case False
    with Cons x show ?thesis by (auto split: option.splits)
  qed
qed simp

lemma store_scan_lookup:
  "fmlookup (store_scan_prefix s p r tx) k =
    (if starts_with k p then scan_chain s r tx (chain_at s k) else None)"
  unfolding store_scan_prefix_def
  by (subst store_scan_lookup_aux)
    (auto simp: chain_at_def fm_get_def scan_chain_def split: option.split)

lemma overlay_lookup:
  "distinct (map fst xs) \<Longrightarrow>
    fmlookup (fold (\<lambda>(k, v) m. if starts_with k p then fmupd k v m else m) xs m) k =
    (case map_of xs k of Some v \<Rightarrow> if starts_with k p then Some v else fmlookup m k | None \<Rightarrow> fmlookup m k)"
proof (induction xs arbitrary: m)
  case (Cons x xs)
  obtain k' c where x: "x = (k', c)" by fastforce
  have "map_of xs k' = None" using Cons.prems x by (simp add: map_of_eq_None_iff)
  with Cons x show ?case by (auto split: option.split)
qed simp

lemma set_live_entries: "(k, v) \<in> set (live_entries m) \<longleftrightarrow> fmlookup m k = Some (Some v)"
proof -
  have "set (live_entries m) = {(k, v). (k, Some v) \<in> set (fm_entries m)}"
    by (force simp: live_entries_def List.map_filter_def simp del: set_fm_entries split: option.splits)
  then show ?thesis by simp
qed

text \<open>
  A prefix scan of an active transaction returns exactly the keys with the prefix that a read of the
  same transaction finds, each with the value that read returns; deleted keys are left out.
\<close>
theorem mvcc_scan_prefix_reads:
  assumes "mvcc_reachable threshold w" "fmlookup (txs w) i = Some t" "state t = Active"
    and "tx_scan_prefix (store w) t p = Inr kvs"
  shows "(k, v) \<in> set kvs \<longleftrightarrow> starts_with k p \<and> fst (tx_get (store w) t k) = Inr (Some v)"
proof -
  have ok: "world_ok w" using assms(1) by (rule reachable_ok)
  note D = world_okD [OF ok]
  note H = handle_okD [OF D(3) [OF assms(2)]]
  let ?c = "chain_at (store w) k"
  have "chain_ok (clock w) (active_txns (store w)) ?c" using D(2) by (simp add: store_ok_def)
  note own = find_by_txn_own [OF this H(3)]
  have ws: "fmlookup (write_set t) k = own_intent ?c i" using H(4) by (simp add: intents_are_def)
  have "(k, v) \<in> set kvs \<longleftrightarrow> starts_with k p \<and>
      (case fmlookup (write_set t) k of Some d \<Rightarrow> Some d | None \<Rightarrow> scan_chain (store w) i i ?c) = Some (Some v)"
    using assms(3,4) H(1,2)
    by (auto simp: tx_scan_prefix_def set_live_entries overlay_lookup store_scan_lookup split: option.splits if_splits)
  also have "\<dots> \<longleftrightarrow> starts_with k p \<and> fst (tx_get (store w) t k) = Inr (Some v)"
  proof (cases "fmlookup (write_set t) k")
    case None
    then have none: "own_intent ?c i = None" "find_by_txn ?c i = None" using ws own(2) by simp_all
    have "scan_chain (store w) i i ?c = Some (Some v) \<longleftrightarrow> fst (store_read (store w) k i i) = Some v"
      using none(2) store_read_view [OF D(2) H(3) none(1), of i]
      by (auto simp: scan_chain_def view_def find_visible_any [of _ _ "active_txns (store w)"] split: option.splits)
    with None show ?thesis by (simp add: tx_get_value [OF assms(3)] H(1,2))
  qed (simp add: tx_get_value [OF assms(3)])
  finally show ?thesis .
qed

theorem mvcc_scan_prefix_reads_witness:
  "let w = schedule 50 [Begin, Put 1 [7, 1] [1], Put 1 [7, 2] [2], Put 1 [8] [3], Commit 1, Begin, Delete 3 [7, 1]];
       t = the (fmlookup (txs w) 3)
   in tx_scan_prefix (store w) t [7] = Inr [([7, 2], [2])] \<and> fst (tx_get (store w) t [7, 2]) = Inr (Some [2])"
proof -
  let ?w = "schedule 50 [Begin, Put 1 [7, 1] [1], Put 1 [7, 2] [2], Put 1 [8] [3], Commit 1, Begin, Delete 3 [7, 1]]"
  let ?t = "the (fmlookup (txs ?w) 3)"
  have t: "fmlookup (txs ?w) 3 = Some ?t" "state ?t = Active" by code_simp+
  have s: "tx_scan_prefix (store ?w) ?t [7] = Inr [([7, 2], [2])]" by code_simp
  from mvcc_scan_prefix_reads [OF schedule_reachable t s, of "[7, 2]" "[2]"] s show ?thesis by (simp add: Let_def)
qed

section \<open>Record keys\<close>

lemma starts_with_append [simp]: "starts_with (xs @ ys) xs"
  by (simp add: starts_with_def)

text \<open>Two strings without a zero byte that agree up to the first zero are equal.\<close>

lemma zero_separated:
  "0 \<notin> set t \<Longrightarrow> 0 \<notin> set t' \<Longrightarrow> t @ 0 # xs = t' @ 0 # ys \<Longrightarrow> t = t' \<and> xs = ys" for t t' :: bytes
proof (induction t arbitrary: t')
  case Nil then show ?case by (cases t') auto
next
  case (Cons a t) then show ?case by (cases t') auto
qed

text \<open>
  C18: Record keys. A record id is decoded from the key it was encoded into; a key of one table starts
  with the prefix of another only if the tables are the same, when table names have no zero
  byte, so a table scan sees the rows of its table and no others.
\<close>
theorem record_key_roundtrip:
  assumes "0 \<notin> set table" "0 \<notin> set table'"
  shows "decode_record_id (encode_record_key table rid) table = Some rid
    \<and> (starts_with (encode_record_key table' rid) (encode_table_prefix table) \<longleftrightarrow> table' = table)
    \<and> (encode_record_key table rid = encode_record_key table' rid' \<longrightarrow> table = table' \<and> rid = rid')"
proof (intro conjI impI)
  show "decode_record_id (encode_record_key table rid) table = Some rid"
    by (simp add: decode_record_id_def encode_record_key_def encode_table_prefix_def starts_with_def be_enc_u64)
  show "starts_with (encode_record_key table' rid) (encode_table_prefix table) \<longleftrightarrow> table' = table"
  proof
    assume "starts_with (encode_record_key table' rid) (encode_table_prefix table)"
    then have "encode_record_key table' rid = encode_table_prefix table @ drop (length (encode_table_prefix table)) (encode_record_key table' rid)"
      unfolding starts_with_def by (metis append_take_drop_id)
    then have "table' @ 0 # be_enc 8 (unat rid) = table @ 0 # drop (length (encode_table_prefix table)) (encode_record_key table' rid)"
      by (simp add: encode_record_key_def encode_table_prefix_def)
    from zero_separated [OF assms(2,1) this] show "table' = table" by simp
  qed (simp add: encode_record_key_def encode_table_prefix_def starts_with_def)
  assume "encode_record_key table rid = encode_record_key table' rid'"
  then have "table = table' \<and> be_enc 8 (unat rid) = be_enc 8 (unat rid')"
    unfolding encode_record_key_def using zero_separated [OF assms] by simp
  moreover have "be_enc 8 (unat rid) = be_enc 8 (unat rid') \<Longrightarrow> unat rid = unat rid'"
    by (metis be_enc_u64)
  ultimately show "table = table'" "rid = rid'" by (simp_all only: word_unat_eq_iff)
qed

theorem record_key_roundtrip_witness:
  "decode_record_id (encode_record_key [117, 115] 258) [117, 115] = Some 258 \<and>
   \<not> starts_with (encode_record_key [117] 258) (encode_table_prefix [117, 115])"
  using record_key_roundtrip [of "[117, 115]" "[117]" 258] by simp

section \<open>Conflicts\<close>

text \<open>In a well-formed chain a foreign intent is the one that the conflict check reports.\<close>

lemma check_conflict_holder:
  assumes ok: "store_ok n s" and own: "own_intent (chain_at s k) i \<noteq> None" and ne: "j \<noteq> i"
  shows "check_write_conflict_detailed s k j = Some i"
proof -
  let ?c = "chain_at s k"
  have c: "chain_ok n (active_txns s) ?c" using ok by (simp add: store_ok_def)
  obtain d where d: "own_intent ?c i = Some d" using own by auto
  obtain v where v: "v \<in> set (versions ?c)" "\<not> committed v" "created_by v = i"
    using d find_SomeD by (fastforce simp: own_intent_def)
  from c v have "i |\<in>| active_txns s" by (elim chain_okE) auto
  from chain_ok_ownE [OF c d this] obtain cs u where
    u: "versions ?c = cs @ [u]" "created_by u = i" "\<not> committed u" by metis
  then have "fmlookup (chains s) k = Some ?c"
    by (auto simp: chain_at_def fm_get_def split: option.splits)
  with u ne show ?thesis by (simp add: check_write_conflict_detailed_def)
qed

text \<open>
  Writing. A put of an active transaction is refused exactly when another transaction holds an intent
  on the key; the refusal names the holder, leaves the store as it was and makes the handle aborted.
  Otherwise the put succeeds, a later read of the transaction returns the value, and no snapshot changes.
\<close>
theorem mvcc_put_behaviour:
  assumes "mvcc_reachable threshold w" "fmlookup (txs w) i = Some t" "state t = Active"
    and "tx_put (store w) t k v = (res, t', s')"
  shows "(case res of
      Inl e \<Rightarrow> (\<exists>j. j \<noteq> i \<and> own_intent (chain_at (store w) k) j \<noteq> None \<and> e = WriteConflict k j) \<and>
               s' = store w \<and> state t' = Aborted
    | Inr _ \<Rightarrow> (\<forall>j. j \<noteq> i \<longrightarrow> own_intent (chain_at (store w) k) j = None) \<and>
               fst (tx_get s' t' k) = Inr (Some v) \<and>
               (\<forall>k' r. oldest_active_ts (store w) \<le> r \<longrightarrow> view (chain_at s' k') r = view (chain_at (store w) k') r))"
proof -
  have ok: "world_ok w" using assms(1) by (rule reachable_ok)
  note D = world_okD [OF ok]
  note H = handle_okD [OF D(3) [OF assms(2)]]
  show ?thesis
  proof (cases "check_write_conflict_detailed (store w) k i")
    case None
    then have "\<forall>j. j \<noteq> i \<longrightarrow> own_intent (chain_at (store w) k) j = None"
      by (auto simp: check_conflict_None own_intent_None)
    with None assms(3,4) H(1,2) write_intent_view [OF D(2) H(3) None] show ?thesis
      by (auto simp: tx_put_def tx_get_value)
  next
    case (Some j)
    then obtain u where u: "u \<in> set (versions (chain_at (store w) k))" "\<not> committed u" "created_by u = j" "j \<noteq> i"
      by (auto simp: check_write_conflict_detailed_def chain_at_def fm_get_def split: option.splits dest!: find_SomeD)
    then have "own_intent (chain_at (store w) k) j \<noteq> None" by (auto simp: own_intent_None)
    with u Some assms(3,4) H(1) show ?thesis by (auto simp: tx_put_def)
  qed
qed

theorem mvcc_put_behaviour_witness:
  "let w = schedule 50 [Begin, Begin, Put 1 [7] [1]]; t = the (fmlookup (txs w) 2)
   in fst (tx_put (store w) t [7] [2]) = Inl (WriteConflict [7] 1) \<and>
      state (fst (snd (tx_put (store w) t [7] [2]))) = Aborted"
proof -
  let ?w = "schedule 50 [Begin, Begin, Put 1 [7] [1]]"
  let ?t = "the (fmlookup (txs ?w) 2)"
  let ?p = "tx_put (store ?w) ?t [7] [2]"
  have t: "fmlookup (txs ?w) 2 = Some ?t" "state ?t = Active" by code_simp+
  have e: "fst ?p = Inl (WriteConflict [7] 1)" by code_simp
  then have p: "?p = (Inl (WriteConflict [7] 1), fst (snd ?p), snd (snd ?p))" by (metis prod.collapse)
  from mvcc_put_behaviour [OF schedule_reachable t p] e show ?thesis by (simp add: Let_def)
qed

text \<open>
  An intent whose transaction has no handle any more stays: nothing but the transaction itself removes or
  commits it.
\<close>

definition orphan :: "world \<Rightarrow> txid \<Rightarrow> bytes \<Rightarrow> bool" where
  "orphan w i k \<longleftrightarrow> fmlookup (txs w) i = None \<and> own_intent (chain_at (store w) k) i \<noteq> None"

lemma orphan_old:
  assumes "world_ok w" "orphan w i k" shows "i < clock w" "i |\<in>| active_txns (store w)"
proof -
  have c: "chain_ok (clock w) (active_txns (store w)) (chain_at (store w) k)"
    using world_okD(2) [OF assms(1)] by (simp add: store_ok_def)
  obtain v where "v \<in> set (versions (chain_at (store w) k))" "\<not> committed v" "created_by v = i"
    using assms(2) by (auto simp: orphan_def own_intent_None)
  with c show i: "i |\<in>| active_txns (store w)" by (elim chain_okE) auto
  with world_okD(2) [OF assms(1)] show "i < clock w" by (auto simp: store_ok_def)
qed

lemma orphan_write:
  assumes ok: "world_ok w" and o: "orphan w i k" and j: "fmlookup (txs w) j = Some t"
    and free: "check_write_conflict_detailed (store w) key j = None"
  shows "own_intent (chain_at (write_intent (store w) key v ts j) k) i \<noteq> None" "j \<noteq> i"
proof -
  note D = world_okD [OF ok]
  note H = handle_okD [OF D(3) [OF j]]
  show "j \<noteq> i" using o j by (auto simp: orphan_def)
  with write_intent_own [OF D(2) H(3) free] o
  show "own_intent (chain_at (write_intent (store w) key v ts j) k) i \<noteq> None" by (auto simp: orphan_def)
qed

lemma orphan_step:
  assumes step: "mvcc_step w w'" and ok: "world_ok w" and o: "orphan w i k"
  shows "orphan w' i k"
  using step
proof cases
  case (step_begin t s' n')
  with orphan_old(1) [OF ok o] o show ?thesis by (auto simp: orphan_def tx_new_def next_timestamp_def)
next
  case (step_get j t key res t')
  with o show ?thesis by (auto simp: orphan_def)
next
  case (step_put j t key v res t' s')
  note H = handle_okD [OF world_okD(3) [OF ok step_put(2)]]
  have "j \<noteq> i" using o step_put(2) by (auto simp: orphan_def)
  with o step_put orphan_write(1) [OF ok o step_put(2)] H(1,2) show ?thesis
    by (auto simp: orphan_def tx_put_def split: if_splits option.splits)
next
  case (step_delete j t key res t' s')
  note H = handle_okD [OF world_okD(3) [OF ok step_delete(2)]]
  obtain g t1 where g: "tx_get (store w) t key = (g, t1)" by fastforce
  have "j \<noteq> i" using o step_delete(2) by (auto simp: orphan_def)
  with o step_delete orphan_write(1) [OF ok o step_delete(2)] H(1,2) g tx_get_frame [OF g] show ?thesis
    by (auto simp: orphan_def tx_delete_def split: if_splits option.splits sum.splits)
next
  case (step_commit j t t' s' n')
  note D = world_okD [OF ok] and R = tx_commit_ok [OF step_commit(3)]
  note H = handle_okD [OF D(3) [OF step_commit(2)]]
  have "j \<noteq> i" using o step_commit(2) by (auto simp: orphan_def)
  with o step_commit(1) commit_store_own [OF D(2) H(4) [folded H(1)] H(3) [folded H(1)]] H(1) show ?thesis
    by (simp add: orphan_def R(3))
next
  case (step_commit_err j t e t' s' n')
  note D = world_okD [OF ok] and R = tx_commit_err [OF step_commit_err(3)]
  note H = handle_okD [OF D(3) [OF step_commit_err(2)]]
  have "j \<noteq> i" using o step_commit_err(2) by (auto simp: orphan_def)
  with o step_commit_err(1) R abort_store_own [OF D(2) H(4) [folded H(1)]] H(1) show ?thesis
    by (auto simp: orphan_def)
next
  case (step_rollback j t res t' s')
  note D = world_okD [OF ok]
  note H = handle_okD [OF D(3) [OF step_rollback(2)]]
  have "j \<noteq> i" using o step_rollback(2) by (auto simp: orphan_def)
  with o step_rollback abort_store_own [OF D(2) H(4) [folded H(1)]] H(1) show ?thesis
    by (auto simp: orphan_def tx_rollback_def abort_store_def split: if_splits)
next
  case (step_drop j t)
  with o show ?thesis by (auto simp: orphan_def)
next
  case step_gc
  with o show ?thesis by (simp add: orphan_def own_intent_run_gc)
next
  case (step_store_get key res n')
  with o show ?thesis by (simp add: orphan_def)
qed

lemma orphan_steps:
  assumes "mvcc_step\<^sup>*\<^sup>* w w'" "world_ok w" "orphan w i k"
  shows "orphan w' i k \<and> world_ok w'"
  using assms by (induction rule: rtranclp_induct) (auto intro: orphan_step world_ok_step)

text \<open>
  C19: A leaked intent blocks its key for ever. Once a transaction's handle is gone while an intent of it is
  in the store, every later put of that key by any active transaction fails with a conflict
  that names the dead transaction. This happens in the code: a write conflict marks the handle aborted,
  and \<open>rollback\<close> and \<open>commit\<close> then return an error without removing its other intents.
\<close>
theorem mvcc_orphan_intent_blocks_for_ever:
  assumes "mvcc_reachable threshold w" "orphan w i k" "mvcc_step\<^sup>*\<^sup>* w w'"
    and "fmlookup (txs w') j = Some t" "state t = Active"
  shows "fst (tx_put (store w') t k v) = Inl (WriteConflict k i)"
proof -
  have "orphan w' i k" and ok: "world_ok w'"
    using orphan_steps [OF assms(3) reachable_ok [OF assms(1)] assms(2)] by auto
  then have o: "own_intent (chain_at (store w') k) i \<noteq> None" "j \<noteq> i"
    using assms(4) by (auto simp: orphan_def)
  note H = handle_okD [OF world_okD(3) [OF ok assms(4)]]
  from check_conflict_holder [OF world_okD(2) [OF ok] o] H(1) assms(5) show ?thesis by (simp add: tx_put_def)
qed

theorem mvcc_orphan_intent_blocks_for_ever_witness:
  "let w = schedule 50 [Begin, Begin, Put 1 [8] [1], Put 2 [7] [1], Put 2 [8] [2], Rollback 2];
       w' = foldl run_cmd w [Rollback 1, Gc, Begin]
   in fst (tx_put (store w') (the (fmlookup (txs w') 3)) [7] [9]) = Inl (WriteConflict [7] 2)"
proof -
  let ?w = "schedule 50 [Begin, Begin, Put 1 [8] [1], Put 2 [7] [1], Put 2 [8] [2], Rollback 2]"
  let ?w' = "foldl run_cmd ?w [Rollback 1, Gc, Begin]"
  have o: "orphan ?w 2 [7]" unfolding orphan_def by code_simp
  have t: "fmlookup (txs ?w') 3 = Some (the (fmlookup (txs ?w') 3))" "state (the (fmlookup (txs ?w') 3)) = Active"
    by code_simp+
  from mvcc_orphan_intent_blocks_for_ever [OF schedule_reachable o run_cmds_steps t, of "[9]"]
  show ?thesis by (simp add: Let_def)
qed

section \<open>Savepoints and the gap between check and write\<close>

text \<open>
  Rolling back to a savepoint restores the write set and nothing else: the intents in the store keep the
  later values. The next lemmas describe a commit through a handle whose write set is any map \<open>ws\<close>.
\<close>

lemma write_set_restore [simp]: "fmlookup (write_set (restore_write_set t (write_set_snapshot t0))) k = fmlookup (write_set t0) k"
  using fold_fmupd_lookup [of "fm_entries (write_set t0)" "\<lambda>_ v. v" fmempty k]
  by (simp add: restore_write_set_def write_set_snapshot_def split: option.splits)

lemma restore_frame [simp]: "tx_id (restore_write_set t ws) = tx_id t" "state (restore_write_set t ws) = state t"
  by (simp_all add: restore_write_set_def)

lemma chain_at_own: "own_intent (chain_at s k) i \<noteq> None \<Longrightarrow> fmlookup (chains s) k \<noteq> None"
  by (auto simp: chain_at_def fm_get_def split: option.splits)

lemma commit_store_chain:
  assumes "fmlookup (write_set u) k \<noteq> None \<Longrightarrow> own_intent (chain_at s k) (tx_id u) \<noteq> None"
  shows "chain_at (commit_store s u n) k =
    (if fmlookup (write_set u) k \<noteq> None then commit_version_with_ts (chain_at s k) (tx_id u) n else chain_at s k)"
  using assms chain_at_own [of s k "tx_id u"]
  by (simp add: commit_store_def commit_transaction_with_ts_keys_def chain_at_fold_update write_keys_props)

lemma store_get_view: "fst (store_get s n k) = Option.bind (view (chain_at s k) n) fst"
  by (auto simp: store_get_def next_timestamp_def view_def chain_at_def fm_get_def find_visible_eq
      split: option.split bind_split)

lemma conflict_cong: "chain_at s k = chain_at s' k \<Longrightarrow>
    check_write_conflict_detailed s k j = check_write_conflict_detailed s' k j"
  by (auto simp: check_write_conflict_detailed_def chain_at_def fm_get_def chain_new_def split: option.splits)

text \<open>
  C20: What a commit after a rollback to a savepoint publishes. In any reachable state an open transaction
  rolls back to a savepoint (its write set becomes that of \<open>t0\<close>) and commits successfully. A key
  that it had written both before the savepoint (\<open>v1\<close>) and after it (\<open>v2\<close> is its last write) reads as
  \<open>v1\<close> in the transaction before the commit, but the commit publishes \<open>v2\<close>. A key that it had written
  only after the savepoint is not published, but its intent stays in the store with no active
  transaction behind it, and every other transaction that writes the key is refused.
\<close>
theorem mvcc_savepoint_publishes_undone_write:
  assumes "mvcc_reachable threshold w" "fmlookup (txs w) i = Some t"
    and "u = restore_write_set t (write_set_snapshot t0)"
    and "tx_commit (store w) (clock w) u = (Inr (), u', s', n')"
    and "fmlookup (write_set t) k = Some v2"
  shows "case fmlookup (write_set t0) k of
      Some v1 \<Rightarrow> fst (tx_get (store w) u k) = Inr v1 \<and> fst (store_get s' n' k) = v2 \<and>
        (\<forall>r. view (chain_at s' k) r = (if clock w \<le> r then Some (v2, clock w) else view (chain_at (store w) k) r))
    | None \<Rightarrow> chain_at s' k = chain_at (store w) k \<and> own_intent (chain_at s' k) i = Some v2 \<and>
        i |\<notin>| active_txns s' \<and> (\<forall>j. j \<noteq> i \<longrightarrow> check_write_conflict_detailed s' k j = Some i)"
proof -
  note D = world_okD [OF reachable_ok [OF assms(1)]]
  note H = handle_okD [OF D(3) [OF assms(2)]]
  note R = tx_commit_ok [OF assms(4)]
  have u: "tx_id u = i" "state u = Active" "fmlookup (write_set u) k = fmlookup (write_set t0) k"
    using R(1) H(1) by (simp_all add: assms(3))
  have own: "own_intent (chain_at (store w) k) i = Some v2"
    using H(4) assms(5) by (auto simp: intents_are_def)
  have c: "chain_ok (clock w) (active_txns (store w)) (chain_at (store w) k)" "i < clock w"
    using D(2) H(3) by (auto simp: store_ok_def)
  note C = commit_store_chain [of u k "store w" "clock w", folded R(3), unfolded u(1,3)]
  show ?thesis
  proof (cases "fmlookup (write_set t0) k")
    case (Some v1)
    have v: "view (chain_at s' k) r = (if clock w \<le> r then Some (v2, clock w) else view (chain_at (store w) k) r)" for r
      using C own Some find_visible_commit [OF c(1) own H(3) c(2)] by (simp add: view_def)
    then have "fst (store_get s' n' k) = v2" by (simp add: store_get_view R(4))
    with v Some u show ?thesis by (simp add: tx_get_def)
  next
    case None
    then have same: "chain_at s' k = chain_at (store w) k" using C own by simp
    have "check_write_conflict_detailed s' k j = Some i" if "j \<noteq> i" for j
      using conflict_cong [OF same] check_conflict_holder [OF D(2) _ that, of k] own by simp
    moreover have "i |\<notin>| active_txns s'" by (simp add: R(3) commit_store_def u(1))
    ultimately show ?thesis using None same own by simp
  qed
qed

theorem mvcc_savepoint_publishes_undone_write_witness:
  "let w0 = schedule 50 [Begin, Put 1 [7] [1]]; t0 = the (fmlookup (txs w0) 1);
       w = foldl run_cmd w0 [Put 1 [7] [2], Put 1 [8] [3]]; t = the (fmlookup (txs w) 1);
       u = restore_write_set t (write_set_snapshot t0);
       (res, u', s', n') = tx_commit (store w) (clock w) u
   in fst (tx_get (store w) u [7]) = Inr (Some [1]) \<and> fst (store_get s' n' [7]) = Some [2] \<and>
      check_write_conflict_detailed s' [8] 5 = Some 1"
proof -
  let ?w = "schedule 50 [Begin, Put 1 [7] [1], Put 1 [7] [2], Put 1 [8] [3]]"
  let ?o = "the (fmlookup (txs (schedule 50 [Begin, Put 1 [7] [1]])) 1)"
  let ?t = "the (fmlookup (txs ?w) 1)"
  let ?u = "restore_write_set ?t (write_set_snapshot ?o)"
  let ?c = "tx_commit (store ?w) (clock ?w) ?u"
  have t: "fmlookup (txs ?w) 1 = Some ?t" by code_simp
  have ws: "fmlookup (write_set ?t) [7] = Some (Some [2])" by code_simp
  have ws1: "fmlookup (write_set ?t) [8] = Some (Some [3])" by code_simp
  have ws2: "fmlookup (write_set ?o) [7] = Some (Some [1])" by code_simp
  have ws3: "fmlookup (write_set ?o) [8] = None" by code_simp
  have "fst ?c = Inr ()" by code_simp
  then obtain u' s' n' where c: "?c = (Inr (), u', s', n')" by (metis prod.collapse)
  have w: "foldl run_cmd (schedule 50 [Begin, Put 1 [7] [1]]) [Put 1 [7] [2], Put 1 [8] [3]] = ?w"
    by (simp add: schedule_def)
  from mvcc_savepoint_publishes_undone_write [OF schedule_reachable t refl c ws]
    mvcc_savepoint_publishes_undone_write [OF schedule_reachable t refl c ws1] ws2 ws3 c
  show ?thesis unfolding Let_def w by simp
qed

text \<open>
  The conflict check and the write of the intent take the lock one after the other, and so do the
  validation and the publication of a commit. Two threads that interleave there:
\<close>

definition lost_update_run :: "bytes \<Rightarrow> bytes \<Rightarrow> bytes \<Rightarrow>
    txid option \<times> txid option \<times> bool \<times> bool \<times> version list" where
  "lost_update_run k v1 v2 =
     (case tx_new store_new 1 of (t1, s1, n1) \<Rightarrow>
      case tx_new s1 n1 of (t2, s2, n2) \<Rightarrow>
      let c1 = check_write_conflict_detailed s2 k (tx_id t1);
          c2 = check_write_conflict_detailed s2 k (tx_id t2);
          s3 = write_intent s2 k (Some v1) (read_ts t1) (tx_id t1);
          s4 = write_intent s3 k (Some v2) (read_ts t2) (tx_id t2);
          u1 = t1\<lparr>write_set := fmupd k (Some v1) (write_set t1)\<rparr>;
          u2 = t2\<lparr>write_set := fmupd k (Some v2) (write_set t2)\<rparr>;
          ok1 = validate s4 u1; ok2 = validate s4 u2;
          s5 = commit_transaction_with_ts_keys s4 (tx_id t1) n2 (write_keys u1);
          s6 = commit_transaction_with_ts_keys s5 (tx_id t2) (n2 + 1) (write_keys u2)
      in (c1, c2, ok1, ok2, versions (fm_get chain_new (chains s6) k)))"

text \<open>
  C21: Between threads the check and the write are not one step. When two transactions both check before
  either writes, and both validate before either publishes, both commit the same key although each
  began before the other committed: the guarantee of first committer wins needs the operations to be atomic.
\<close>
theorem mvcc_lost_update_between_locks:
  "lost_update_run k v1 v2 = (None, None, True, True,
     [\<lparr>data = Some v1, write_ts = 3, created_by = 1, committed = True\<rparr>,
      \<lparr>data = Some v2, write_ts = 4, created_by = 2, committed = True\<rparr>])"
  by (simp add: lost_update_run_def tx_new_def next_timestamp_def store_new_def with_gc_threshold_def
      register_active_def check_write_conflict_detailed_def write_intent_def find_by_txn_def
      add_version_def version_new_def count_version_def run_gc_def update_by_txn_def Let_def fm_get_def
      fm_entries_def sorted_list_of_fmap_def chain_new_def sorted_list_of_fset_def validate_def write_keys_def
      get_latest_committed_ts_def latest_committed_ts_def commit_transaction_with_ts_keys_def update_chain_def
      commit_version_with_ts_def raise_cached_def)

text \<open>
  Publication also comes after the commit timestamp is drawn. A transaction that begins in between has the later timestamp: it reads
  the old version before the publication and the new one after it, so its snapshot moves.
\<close>

definition moving_snapshot_run :: "bytes \<Rightarrow> bytes \<Rightarrow> (tx_error + bytes option) \<times> (tx_error + bytes option)" where
  "moving_snapshot_run k v =
     (case tx_new store_new 1 of (t1, s1, n1) \<Rightarrow>
      case tx_put s1 t1 k v of (_, t1, s2) \<Rightarrow>
      case next_timestamp n1 of (ts, n2) \<Rightarrow>
      case tx_new s2 n2 of (t2, s3, n3) \<Rightarrow>
      let s4 = commit_transaction_with_ts_keys s3 (tx_id t1) ts (write_keys t1)
      in (fst (tx_get s3 t2 k), fst (tx_get s4 t2 k)))"

theorem mvcc_snapshot_moves_between_locks: "moving_snapshot_run k v = (Inr None, Inr (Some v))"
  by (simp add: moving_snapshot_run_def tx_new_def next_timestamp_def store_new_def with_gc_threshold_def
      register_active_def tx_put_def tx_get_def store_read_def check_write_conflict_detailed_def write_intent_def find_by_txn_def
      add_version_def version_new_def count_version_def run_gc_def update_by_txn_def Let_def fm_get_def
      fm_entries_def sorted_list_of_fmap_def chain_new_def sorted_list_of_fset_def write_keys_def is_tombstone_def
      commit_transaction_with_ts_keys_def update_chain_def commit_version_with_ts_def raise_cached_def find_visible_eq)

end
