(* ===== verification/Tpc_Log.thy ===== *)
theory Tpc_Log
  imports Prelude
begin

text \<open>
  The vocabulary of two-phase commit, \<open>crates/joule-db-server/src/two_phase_commit.rs\<close>: transaction
  states, votes, messages, operations, errors, and the recovery log.

  A transaction id is printed as \<open>node:timestamp:counter\<close>; the model keeps its three parts. The durable log
  writes one JSON line per entry; the serialisation is a library's, so the file of the model holds the
  entries themselves, and file operations succeed.
\<close>

type_synonym pid = string

datatype txn_id = TxnId (txn_node: string) (txn_time: nat) (txn_count: nat)

text \<open>Transaction ids are ordered by their parts; hash maps keyed by them are visited in this order.\<close>

definition txn_parts :: "txn_id \<Rightarrow> string \<times> nat \<times> nat" where
  "txn_parts tx = (txn_node tx, txn_time tx, txn_count tx)"

instantiation txn_id :: linorder
begin

definition less_eq_txn_id :: "txn_id \<Rightarrow> txn_id \<Rightarrow> bool" where
  "less_eq_txn_id a b \<longleftrightarrow> txn_parts a \<le> txn_parts b"

definition less_txn_id :: "txn_id \<Rightarrow> txn_id \<Rightarrow> bool" where
  "less_txn_id a b \<longleftrightarrow> txn_parts a < txn_parts b"

instance
proof
  fix a b c :: txn_id
  show "a \<le> b \<Longrightarrow> b \<le> a \<Longrightarrow> a = b"
    unfolding less_eq_txn_id_def using order_antisym [of "txn_parts a" "txn_parts b"]
    by (auto simp: txn_parts_def intro: txn_id.expand)
  show "a < b \<longleftrightarrow> a \<le> b \<and> \<not> b \<le> a" unfolding less_eq_txn_id_def less_txn_id_def by auto
  show "a \<le> a" unfolding less_eq_txn_id_def by simp
  show "a \<le> b \<Longrightarrow> b \<le> c \<Longrightarrow> a \<le> c" unfolding less_eq_txn_id_def by (rule order_trans)
  show "a \<le> b \<or> b \<le> a" unfolding less_eq_txn_id_def by (rule linear)
qed

end

datatype transaction_state =
  Started | Preparing | Prepared | Committing | Committed | Aborting | Aborted | Unknown

definition is_terminal :: "transaction_state \<Rightarrow> bool" where
  "is_terminal s \<longleftrightarrow> s \<in> {Committed, Aborted}"

definition can_abort :: "transaction_state \<Rightarrow> bool" where
  "can_abort s \<longleftrightarrow> s \<in> {Started, Preparing, Prepared, Aborting}"

definition is_decided :: "transaction_state \<Rightarrow> bool" where
  "is_decided s \<longleftrightarrow> s \<in> {Committing, Committed, Aborting, Aborted}"

datatype vote = VoteCommit | VoteAbort

datatype txn_op =
    Put bytes bytes
  | Delete bytes
  | ConditionalPut bytes "bytes option" bytes

fun op_key :: "txn_op \<Rightarrow> bytes" where
  "op_key (Put k v) = k"
| "op_key (Delete k) = k"
| "op_key (ConditionalPut k e v) = k"

datatype tpc_msg =
    Prepare (msg_txn: txn_id) pid "pid list" "txn_op list" nat
  | Vote (msg_txn: txn_id) pid vote "nat option"
  | CommitMsg (msg_txn: txn_id) pid nat
  | AbortMsg (msg_txn: txn_id) pid string
  | Ack (msg_txn: txn_id) pid bool "string option"
  | QueryStatus (msg_txn: txn_id) pid
  | StatusResponse (msg_txn: txn_id) transaction_state pid

datatype tpc_error =
    TransactionNotFound txn_id
  | TransactionExists txn_id
  | InvalidStateTransition txn_id transaction_state transaction_state
  | TpcTimeout txn_id string
  | ParticipantAborted txn_id pid string
  | CommunicationFailure pid string
  | RecoveryFailure string
  | LogWriteFailure string
  | CoordinatorNotFound txn_id
  | Internal string

section \<open>The recovery log\<close>

datatype log_record =
    TransactionStart "pid list" "txn_op list"
  | PrepareSent
  | VoteReceived pid vote
  | Decision bool
  | DecisionSent pid
  | AckReceived pid
  | TransactionComplete
  | PrepareReceived pid
  | VoteSent vote
  | DecisionReceived bool
  | Applied

record log_entry =
  le_lsn :: nat
  le_timestamp :: nat
  le_txn :: txn_id
  le_record :: log_record

record recovery_log =
  entries :: "log_entry list"
  next_lsn :: nat
  synced_lsn :: nat
  log_file :: "log_entry list option"

definition log_new :: recovery_log where
  "log_new = \<lparr>entries = [], next_lsn = 1, synced_lsn = 0, log_file = None\<rparr>"

definition log_new_durable :: "log_entry list \<Rightarrow> recovery_log" where
  "log_new_durable file =
     (let max_lsn = fold (\<lambda>e m. if le_lsn e > m then le_lsn e else m) file 0
      in \<lparr>entries = file, next_lsn = max_lsn + 1, synced_lsn = max_lsn, log_file = Some file\<rparr>)"

definition persist_entry :: "recovery_log \<Rightarrow> log_entry \<Rightarrow> recovery_log" where
  "persist_entry l e = l\<lparr>log_file := map_option (\<lambda>f. f @ [e]) (log_file l)\<rparr>"

definition log_append :: "nat \<Rightarrow> txn_id \<Rightarrow> log_record \<Rightarrow> recovery_log \<Rightarrow> recovery_log" where
  "log_append now tx r l =
     (let e = \<lparr>le_lsn = next_lsn l, le_timestamp = now, le_txn = tx, le_record = r\<rparr>;
          l1 = persist_entry (l\<lparr>next_lsn := next_lsn l + 1\<rparr>) e
      in l1\<lparr>entries := entries l1 @ [e]\<rparr>)"

definition log_sync :: "recovery_log \<Rightarrow> recovery_log" where
  "log_sync l = l\<lparr>synced_lsn := next_lsn l - 1\<rparr>"

definition log_append_sync :: "nat \<Rightarrow> txn_id \<Rightarrow> log_record \<Rightarrow> recovery_log \<Rightarrow> recovery_log" where
  "log_append_sync now tx r l = log_sync (log_append now tx r l)"

definition get_transaction_entries :: "recovery_log \<Rightarrow> txn_id \<Rightarrow> log_entry list" where
  "get_transaction_entries l tx = filter (\<lambda>e. le_txn e = tx) (entries l)"

definition get_incomplete_transactions :: "recovery_log \<Rightarrow> (txn_id \<times> log_entry list) list" where
  "get_incomplete_transactions l =
     filter (\<lambda>(_, es). \<not> list_ex (\<lambda>e. le_record e = TransactionComplete) es)
       (map (\<lambda>tx. (tx, get_transaction_entries l tx)) (remdups (map le_txn (entries l))))"

definition truncate_before :: "recovery_log \<Rightarrow> nat \<Rightarrow> recovery_log" where
  "truncate_before l n =
     (let es = filter (\<lambda>e. le_lsn e \<ge> n) (entries l)
      in l\<lparr>entries := es, log_file := map_option (\<lambda>_. es) (log_file l)\<rparr>)"

section \<open>What a log says\<close>

definition logged :: "recovery_log \<Rightarrow> txn_id \<Rightarrow> log_record \<Rightarrow> bool" where
  "logged l tx r \<longleftrightarrow> list_ex (\<lambda>e. le_txn e = tx \<and> le_record e = r) (entries l)"

lemma logged_append [simp]: "logged (log_append now tx r l) tx' r' \<longleftrightarrow> logged l tx' r' \<or> (tx' = tx \<and> r' = r)"
  by (auto simp: logged_def log_append_def persist_entry_def Let_def list_ex_iff)

lemma logged_sync [simp]: "logged (log_sync l) = logged l"
  by (simp add: logged_def [abs_def] log_sync_def)

lemma logged_append_sync [simp]:
  "logged (log_append_sync now tx r l) tx' r' \<longleftrightarrow> logged l tx' r' \<or> (tx' = tx \<and> r' = r)"
  by (simp add: log_append_sync_def)

lemma logged_new [simp]: "\<not> logged log_new tx r"
  by (simp add: logged_def log_new_def)

lemma entries_append [simp]:
  "entries (log_append now tx r l) = entries l @ [\<lparr>le_lsn = next_lsn l, le_timestamp = now, le_txn = tx, le_record = r\<rparr>]"
  "entries (log_sync l) = entries l"
  by (simp_all add: log_append_def persist_entry_def log_sync_def Let_def)

text \<open>
  The log between operations: sequence numbers count up to \<open>next_lsn\<close>, and a durable log's file holds
  the same entries as memory.
\<close>

definition log_ok :: "recovery_log \<Rightarrow> bool" where
  "log_ok l \<longleftrightarrow>
     0 < next_lsn l \<and> sorted_wrt (<) (map le_lsn (entries l)) \<and>
     list_all (\<lambda>e. le_lsn e < next_lsn l) (entries l) \<and> synced_lsn l < next_lsn l \<and>
     (case log_file l of None \<Rightarrow> True | Some f \<Rightarrow> f = entries l)"

lemma log_ok_new: "log_ok log_new"
  by (simp add: log_ok_def log_new_def)

lemma log_ok_append: "log_ok l \<Longrightarrow> log_ok (log_append now tx r l)"
  by (auto simp: log_ok_def log_append_def persist_entry_def Let_def sorted_wrt_append list_all_iff
      less_SucI split: option.splits)

lemma log_ok_sync: "log_ok l \<Longrightarrow> log_ok (log_sync l)"
  by (auto simp: log_ok_def log_sync_def split: option.splits)

lemma log_ok_append_sync: "log_ok l \<Longrightarrow> log_ok (log_append_sync now tx r l)"
  by (simp add: log_append_sync_def log_ok_sync log_ok_append)

lemma log_ok_truncate: "log_ok l \<Longrightarrow> log_ok (truncate_before l n)"
  by (auto simp: log_ok_def truncate_before_def Let_def list_all_iff sorted_wrt_map
      intro: sorted_wrt_filter split: option.splits)

lemma fold_max_lsn:
  "m \<le> fold (\<lambda>e m. if le_lsn e > m then le_lsn e else m) es m \<and>
    (\<forall>e\<in>set es. le_lsn e \<le> fold (\<lambda>e m. if le_lsn e > m then le_lsn e else m) es m)"
proof (induction es arbitrary: m)
  case (Cons e es)
  from Cons [of "if le_lsn e > m then le_lsn e else m"] show ?case by (auto split: if_splits)
qed simp

lemma log_ok_reload: "sorted_wrt (<) (map le_lsn es) \<Longrightarrow> log_ok (log_new_durable es)"
  using fold_max_lsn [of 0 es] by (auto simp: log_ok_def log_new_durable_def Let_def list_all_iff less_Suc_eq_le)

lemma synced_append_sync: "synced_lsn (log_append_sync now tx r l) = next_lsn l"
  by (simp add: log_append_sync_def log_sync_def log_append_def persist_entry_def Let_def)

lemma in_incomplete:
  "(tx, es) \<in> set (get_incomplete_transactions l) \<longleftrightarrow>
    (\<exists>r. logged l tx r) \<and> es = get_transaction_entries l tx \<and> \<not> logged l tx TransactionComplete"
proof -
  have "tx \<in> set (map le_txn (entries l)) \<longleftrightarrow> (\<exists>r. logged l tx r)"
    by (auto simp: logged_def list_ex_iff)
  moreover have "(\<exists>e\<in>set (get_transaction_entries l tx). le_record e = TransactionComplete) \<longleftrightarrow>
      logged l tx TransactionComplete"
    by (auto simp: logged_def list_ex_iff get_transaction_entries_def)
  ultimately show ?thesis by (auto simp: get_incomplete_transactions_def list_ex_iff)
qed

lemma in_transaction_entries: "e \<in> set (get_transaction_entries l tx) \<longleftrightarrow> e \<in> set (entries l) \<and> le_txn e = tx"
  by (auto simp: get_transaction_entries_def)

lemma transaction_record:
  "(\<exists>e\<in>set (get_transaction_entries l tx). le_record e = r) \<longleftrightarrow> logged l tx r"
  by (auto simp: logged_def list_ex_iff get_transaction_entries_def)

end
