(* ===== verification/Tpc_Coordinator.thy ===== *)
theory Tpc_Coordinator
  imports Tpc_Log
begin

text \<open>
  The coordinator of two-phase commit, \<open>TransactionCoordinator\<close> of
  \<open>crates/joule-db-server/src/two_phase_commit.rs\<close>.

  A handler takes the time (\<open>SystemTime::now\<close> and \<open>Instant::now\<close>, in milliseconds) and the
  coordinator, and returns its result, the new coordinator and the messages put on the channel, in order.
  The receiving end of the channel is alive, so sending succeeds. A result sent to the waiting
  client through the \<open>oneshot\<close> channel is added to \<open>c_notified\<close>.
\<close>

section \<open>State\<close>

record coord_txn =
  ct_state :: transaction_state
  ct_participants :: "pid list"
  ct_operations :: "txn_op list"
  ct_votes :: "(pid, vote) fmap"
  ct_acks :: "pid fset"
  ct_created_at :: nat
  ct_last_activity :: nat
  ct_retries :: nat
  ct_waiter :: bool

definition ct_new :: "nat \<Rightarrow> pid list \<Rightarrow> txn_op list \<Rightarrow> coord_txn" where
  "ct_new now ps ops = \<lparr>ct_state = Started, ct_participants = ps, ct_operations = ops,
     ct_votes = fmempty, ct_acks = {||}, ct_created_at = now, ct_last_activity = now, ct_retries = 0,
     ct_waiter = True\<rparr>"

definition all_votes_received :: "coord_txn \<Rightarrow> bool" where
  "all_votes_received t \<longleftrightarrow> fcard (fmdom (ct_votes t)) = length (ct_participants t)"

definition all_acks_received :: "coord_txn \<Rightarrow> bool" where
  "all_acks_received t \<longleftrightarrow> fcard (ct_acks t) = length (ct_participants t)"

definition should_commit :: "coord_txn \<Rightarrow> bool" where
  "should_commit t \<longleftrightarrow>
     all_votes_received t \<and> list_all (\<lambda>(_, v). v = VoteCommit) (fm_entries (ct_votes t))"

record coord_config =
  node_id :: pid
  prepare_timeout :: nat
  commit_timeout :: nat
  max_retries :: nat
  retry_interval :: nat

definition default_config :: coord_config where
  "default_config = \<lparr>node_id = '''', prepare_timeout = 5000, commit_timeout = 10000,
     max_retries = 10, retry_interval = 1000\<rparr>"

record coord_stats =
  transactions_started :: nat
  transactions_committed :: nat
  transactions_aborted :: nat
  prepare_timeouts :: nat
  commit_timeouts :: nat
  retries_total :: nat

record coord =
  c_config :: coord_config
  c_txns :: "(txn_id, coord_txn) fmap"
  c_log :: recovery_log
  txn_counter :: nat
  c_stats :: coord_stats
  c_notified :: "(txn_id \<times> transaction_state) list"

definition coord_new :: "coord_config \<Rightarrow> coord" where
  "coord_new cfg = \<lparr>c_config = cfg, c_txns = fmempty, c_log = log_new, txn_counter = 1,
     c_stats = \<lparr>transactions_started = 0, transactions_committed = 0, transactions_aborted = 0,
       prepare_timeouts = 0, commit_timeouts = 0, retries_total = 0\<rparr>, c_notified = []\<rparr>"

type_synonym tpc_out = "(pid \<times> tpc_msg) list"

abbreviation c_append :: "nat \<Rightarrow> txn_id \<Rightarrow> log_record \<Rightarrow> coord \<Rightarrow> coord" where
  "c_append now tx r c \<equiv> c\<lparr>c_log := log_append now tx r (c_log c)\<rparr>"

abbreviation c_append_sync :: "nat \<Rightarrow> txn_id \<Rightarrow> log_record \<Rightarrow> coord \<Rightarrow> coord" where
  "c_append_sync now tx r c \<equiv> c\<lparr>c_log := log_append_sync now tx r (c_log c)\<rparr>"

abbreviation c_put :: "txn_id \<Rightarrow> coord_txn \<Rightarrow> coord \<Rightarrow> coord" where
  "c_put tx t c \<equiv> c\<lparr>c_txns := fmupd tx t (c_txns c)\<rparr>"

section \<open>Operations\<close>

definition generate_txn_id :: "nat \<Rightarrow> coord \<Rightarrow> txn_id \<times> coord" where
  "generate_txn_id now c =
     (TxnId (node_id (c_config c)) now (txn_counter c), c\<lparr>txn_counter := txn_counter c + 1\<rparr>)"

definition start_prepare_phase :: "nat \<Rightarrow> coord \<Rightarrow> txn_id \<Rightarrow> (tpc_error + unit) \<times> coord \<times> tpc_out" where
  "start_prepare_phase now c tx =
     (case fmlookup (c_txns c) tx of
        None \<Rightarrow> (Inl (TransactionNotFound tx), c, [])
      | Some t \<Rightarrow>
          let c1 = c_put tx (t\<lparr>ct_state := Preparing, ct_last_activity := now\<rparr>) c;
              c2 = c_append now tx PrepareSent c1
          in (Inr (), c2, map (\<lambda>p. (p, Prepare tx (node_id (c_config c)) (ct_participants t)
                (ct_operations t) now)) (ct_participants t)))"

definition begin_transaction ::
    "nat \<Rightarrow> coord \<Rightarrow> pid list \<Rightarrow> txn_op list \<Rightarrow> (tpc_error + txn_id) \<times> coord \<times> tpc_out" where
  "begin_transaction now c ps ops =
     (let (tx, c1) = generate_txn_id now c;
          c2 = c_append_sync now tx (TransactionStart ps ops) c1
      in if fmlookup (c_txns c2) tx \<noteq> None then (Inl (TransactionExists tx), c2, [])
         else let c3 = c_put tx (ct_new now ps ops) c2;
                  c4 = c3\<lparr>c_stats := (c_stats c3)\<lparr>transactions_started := transactions_started (c_stats c3) + 1\<rparr>\<rparr>
              in case start_prepare_phase now c4 tx of
                   (Inl e, c5, out) \<Rightarrow> (Inl e, c5, out)
                 | (Inr _, c5, out) \<Rightarrow> (Inr tx, c5, out))"

text \<open>
  \<open>make_decision\<close> writes to the log, changes the transaction and sends, in this order; a crash can stop it between any two of
  these effects, so it is modelled as the list of its effects, in program order.
\<close>

datatype c_effect =
    LogSync log_record
  | Log log_record
  | SetTxn coord_txn
  | Send pid tpc_msg

fun run_effect :: "nat \<Rightarrow> txn_id \<Rightarrow> c_effect \<Rightarrow> coord \<times> tpc_out \<Rightarrow> coord \<times> tpc_out" where
  "run_effect now tx (LogSync r) (c, out) = (c_append_sync now tx r c, out)"
| "run_effect now tx (Log r) (c, out) = (c_append now tx r c, out)"
| "run_effect now tx (SetTxn t) (c, out) = (c_put tx t c, out)"
| "run_effect now tx (Send p m) (c, out) = (c, out @ [(p, m)])"

definition run_effects :: "nat \<Rightarrow> txn_id \<Rightarrow> c_effect list \<Rightarrow> coord \<Rightarrow> coord \<times> tpc_out" where
  "run_effects now tx es c = fold (run_effect now tx) es (c, [])"

definition decision_effects :: "nat \<Rightarrow> coord \<Rightarrow> txn_id \<Rightarrow> coord_txn \<Rightarrow> c_effect list" where
  "decision_effects now c tx t =
     (let commit = should_commit t;
          me = node_id (c_config c);
          msg = (if commit then CommitMsg tx me now
                 else AbortMsg tx me ''One or more participants voted to abort'')
      in LogSync (Decision commit) #
         SetTxn (t\<lparr>ct_state := (if commit then Committing else Aborting), ct_last_activity := now\<rparr>) #
         concat (map (\<lambda>p. [Log (DecisionSent p), Send p msg]) (ct_participants t)))"

definition make_decision :: "nat \<Rightarrow> coord \<Rightarrow> txn_id \<Rightarrow> (tpc_error + unit) \<times> coord \<times> tpc_out" where
  "make_decision now c tx =
     (case fmlookup (c_txns c) tx of
        None \<Rightarrow> (Inl (TransactionNotFound tx), c, [])
      | Some t \<Rightarrow> (Inr (), run_effects now tx (decision_effects now c tx t) c))"

text \<open>The first half of \<open>handle_vote\<close>: log the vote and record it; \<open>Inr True\<close> if all votes are in.\<close>

definition record_vote :: "nat \<Rightarrow> coord \<Rightarrow> txn_id \<Rightarrow> pid \<Rightarrow> vote \<Rightarrow> (tpc_error + bool) \<times> coord" where
  "record_vote now c tx p v =
     (let c1 = c_append now tx (VoteReceived p v) c
      in case fmlookup (c_txns c1) tx of
           None \<Rightarrow> (Inl (TransactionNotFound tx), c1)
         | Some t \<Rightarrow>
             if ct_state t \<noteq> Preparing then (Inr False, c1)
             else let t' = t\<lparr>ct_votes := fmupd p v (ct_votes t), ct_last_activity := now\<rparr>
                  in (Inr (all_votes_received t'), c_put tx t' c1))"

definition handle_vote :: "nat \<Rightarrow> coord \<Rightarrow> tpc_msg \<Rightarrow> (tpc_error + unit) \<times> coord \<times> tpc_out" where
  "handle_vote now c m =
     (case m of
        Vote tx p v lsn \<Rightarrow>
          (case record_vote now c tx p v of
             (Inl e, c1) \<Rightarrow> (Inl e, c1, [])
           | (Inr should_decide, c1) \<Rightarrow>
               if should_decide then make_decision now c1 tx else (Inr (), c1, []))
      | _ \<Rightarrow> (Inl (Internal ''Expected Vote message''), c, []))"

definition complete_transaction ::
    "nat \<Rightarrow> coord \<Rightarrow> txn_id \<Rightarrow> transaction_state \<Rightarrow> (tpc_error + unit) \<times> coord" where
  "complete_transaction now c tx final =
     (let c1 = c_append_sync now tx TransactionComplete c
      in case fmlookup (c_txns c1) tx of
           None \<Rightarrow> (Inl (TransactionNotFound tx), c1)
         | Some t \<Rightarrow>
             let c2 = c_put tx (t\<lparr>ct_state := final, ct_waiter := False\<rparr>) c1;
                 s = c_stats c2;
                 c3 = c2\<lparr>c_stats := (if final = Committed
                        then s\<lparr>transactions_committed := transactions_committed s + 1\<rparr>
                        else s\<lparr>transactions_aborted := transactions_aborted s + 1\<rparr>)\<rparr>
             in (Inr (), if ct_waiter t then c3\<lparr>c_notified := c_notified c3 @ [(tx, final)]\<rparr> else c3))"

definition handle_ack :: "nat \<Rightarrow> coord \<Rightarrow> tpc_msg \<Rightarrow> (tpc_error + unit) \<times> coord \<times> tpc_out" where
  "handle_ack now c m =
     (case m of
        Ack tx p success err \<Rightarrow>
          (let c1 = c_append now tx (AckReceived p) c
           in case fmlookup (c_txns c1) tx of
                None \<Rightarrow> (Inl (TransactionNotFound tx), c1, [])
              | Some t \<Rightarrow>
                  if ct_state t \<noteq> Committing \<and> ct_state t \<noteq> Aborting then (Inr (), c1, [])
                  else let t' = t\<lparr>ct_acks := finsert p (ct_acks t), ct_last_activity := now\<rparr>;
                           c2 = c_put tx t' c1;
                           final = (if ct_state t' = Committing then Committed else Aborted)
                       in if all_acks_received t'
                          then (case complete_transaction now c2 tx final of (r, c3) \<Rightarrow> (r, c3, []))
                          else (Inr (), c2, []))
      | _ \<Rightarrow> (Inl (Internal ''Expected Ack message''), c, []))"

definition handle_status_query :: "coord \<Rightarrow> tpc_msg \<Rightarrow> tpc_error + tpc_msg" where
  "handle_status_query c m =
     (case m of
        QueryStatus tx requester \<Rightarrow>
          Inr (StatusResponse tx
            (case fmlookup (c_txns c) tx of Some t \<Rightarrow> ct_state t | None \<Rightarrow> Unknown) (node_id (c_config c)))
      | _ \<Rightarrow> Inl (Internal ''Expected QueryStatus message''))"

definition c_abort_transaction ::
    "nat \<Rightarrow> coord \<Rightarrow> txn_id \<Rightarrow> string \<Rightarrow> (tpc_error + unit) \<times> coord \<times> tpc_out" where
  "c_abort_transaction now c tx reason =
     (case fmlookup (c_txns c) tx of
        None \<Rightarrow> (Inl (TransactionNotFound tx), c, [])
      | Some t \<Rightarrow>
          if \<not> can_abort (ct_state t) then (Inl (InvalidStateTransition tx (ct_state t) Aborting), c, [])
          else let c1 = c_put tx (t\<lparr>ct_state := Aborting, ct_last_activity := now\<rparr>) c;
                   c2 = c_append_sync now tx (Decision False) c1
               in (Inr (), c2,
                   map (\<lambda>p. (p, AbortMsg tx (node_id (c_config c)) reason)) (ct_participants t)))"

text \<open>One transaction in the loop of \<open>check_timeouts\<close>.\<close>

definition timeout_one :: "nat \<Rightarrow> coord \<Rightarrow> txn_id \<Rightarrow> coord_txn \<Rightarrow> coord \<times> bool" where
  "timeout_one now c tx t =
     (let s = c_stats c; cfg = c_config c
      in case ct_state t of
           Preparing \<Rightarrow>
             if now - ct_last_activity t > prepare_timeout cfg
             then (c\<lparr>c_stats := s\<lparr>prepare_timeouts := prepare_timeouts s + 1\<rparr>\<rparr>, True) else (c, False)
         | _ \<Rightarrow>
             if ct_state t \<in> {Committing, Aborting} \<and> now - ct_last_activity t > commit_timeout cfg then
               (if ct_retries t < max_retries cfg
                then ((c_put tx (t\<lparr>ct_retries := ct_retries t + 1, ct_last_activity := now\<rparr>) c)
                        \<lparr>c_stats := s\<lparr>retries_total := retries_total s + 1\<rparr>\<rparr>, False)
                else (c\<lparr>c_stats := s\<lparr>commit_timeouts := commit_timeouts s + 1\<rparr>\<rparr>, False))
             else (c, False))"

fun timeout_scan :: "nat \<Rightarrow> coord \<Rightarrow> (txn_id \<times> coord_txn) list \<Rightarrow> coord \<times> txn_id list" where
  "timeout_scan now c [] = (c, [])"
| "timeout_scan now c ((tx, t) # rest) =
     (let (c1, late) = timeout_one now c tx t; (c2, ids) = timeout_scan now c1 rest
      in (c2, if late then tx # ids else ids))"

fun abort_all :: "nat \<Rightarrow> coord \<Rightarrow> txn_id list \<Rightarrow> coord \<times> tpc_out" where
  "abort_all now c [] = (c, [])"
| "abort_all now c (tx # txs) =
     (let (_, c1, out1) = c_abort_transaction now c tx ''Prepare phase timeout'';
          (c2, out2) = abort_all now c1 txs
      in (c2, out1 @ out2))"

definition c_check_timeouts :: "nat \<Rightarrow> coord \<Rightarrow> txn_id list \<times> coord \<times> tpc_out" where
  "c_check_timeouts now c =
     (let (c1, timed_out) = timeout_scan now c (fm_entries (c_txns c));
          (c2, out) = abort_all now c1 timed_out
      in (timed_out, c2, out))"

text \<open>What the entries of a transaction say to a recovering coordinator.\<close>

record recovered =
  r_decision :: "bool option"
  r_participants :: "pid list"
  r_operations :: "txn_op list"
  r_acks :: "pid fset"

definition scan_entry :: "log_entry \<Rightarrow> recovered \<Rightarrow> recovered" where
  "scan_entry e r =
     (case le_record e of
        TransactionStart ps ops \<Rightarrow> r\<lparr>r_participants := ps, r_operations := ops\<rparr>
      | Decision commit \<Rightarrow> r\<lparr>r_decision := Some commit\<rparr>
      | AckReceived p \<Rightarrow> r\<lparr>r_acks := finsert p (r_acks r)\<rparr>
      | _ \<Rightarrow> r)"

definition scan_entries :: "log_entry list \<Rightarrow> recovered" where
  "scan_entries es = fold scan_entry es
     \<lparr>r_decision = None, r_participants = [], r_operations = [], r_acks = {||}\<rparr>"

definition recover_one :: "nat \<Rightarrow> coord \<Rightarrow> txn_id \<Rightarrow> log_entry list \<Rightarrow> coord \<times> tpc_out" where
  "recover_one now c tx es =
     (let r = scan_entries es; me = node_id (c_config c);
          pending = filter (\<lambda>p. p |\<notin>| r_acks r) (r_participants r)
      in case r_decision r of
           Some commit \<Rightarrow>
             if pending = [] then (c_append_sync now tx TransactionComplete c, [])
             else let t = (ct_new now (r_participants r) (r_operations r))
                        \<lparr>ct_state := (if commit then Committing else Aborting), ct_acks := r_acks r\<rparr>;
                      msg = (if commit then CommitMsg tx me now
                             else AbortMsg tx me ''Recovered after coordinator restart'')
                  in (c_put tx t c, map (\<lambda>p. (p, msg)) pending)
         | None \<Rightarrow> (c_append_sync now tx (Decision False) c,
             map (\<lambda>p. (p, AbortMsg tx me ''Presumed abort after coordinator recovery'')) (r_participants r)))"

fun recover_all :: "nat \<Rightarrow> coord \<Rightarrow> (txn_id \<times> log_entry list) list \<Rightarrow> coord \<times> tpc_out" where
  "recover_all now c [] = (c, [])"
| "recover_all now c ((tx, es) # rest) =
     (let (c1, out1) = recover_one now c tx es; (c2, out2) = recover_all now c1 rest
      in (c2, out1 @ out2))"

definition c_recover :: "nat \<Rightarrow> coord \<Rightarrow> txn_id list \<times> coord \<times> tpc_out" where
  "c_recover now c =
     (let incomplete = get_incomplete_transactions (c_log c); (c1, out) = recover_all now c incomplete
      in (map fst incomplete, c1, out))"

definition c_get_transaction_state :: "coord \<Rightarrow> txn_id \<Rightarrow> transaction_state option" where
  "c_get_transaction_state c tx = map_option ct_state (fmlookup (c_txns c) tx)"

definition c_cleanup_completed :: "nat \<Rightarrow> coord \<Rightarrow> nat \<Rightarrow> nat \<times> coord" where
  "c_cleanup_completed now c max_age =
     (let kept = fmfilter (\<lambda>tx. case fmlookup (c_txns c) tx of
            Some t \<Rightarrow> if is_terminal (ct_state t) then now - ct_last_activity t < max_age else True
          | None \<Rightarrow> False) (c_txns c)
      in (fcard (fmdom (c_txns c)) - fcard (fmdom kept), c\<lparr>c_txns := kept\<rparr>))"

end
