(* ===== verification/Tpc_Participant.thy ===== *)
theory Tpc_Participant
  imports Tpc_Log
begin

text \<open>
  The participant of two-phase commit, \<open>TransactionParticipant\<close> of
  \<open>crates/joule-db-server/src/two_phase_commit.rs\<close>, over any implementation of the trait
  \<open>ParticipantStorage\<close>, and the in-memory implementation \<open>InMemoryStorage\<close>.

  The trait is a record of functions that the handlers take as an argument; what a participant may
  rely on is the locale \<open>participant_storage\<close>, interpreted on \<open>InMemoryStorage\<close>.
\<close>

section \<open>Storage\<close>

record 's storage_ops =
  st_prepare :: "'s \<Rightarrow> txn_op list \<Rightarrow> (tpc_error + nat) \<times> 's"
  st_commit :: "'s \<Rightarrow> nat \<Rightarrow> (tpc_error + unit) \<times> 's"
  st_rollback :: "'s \<Rightarrow> nat \<Rightarrow> (tpc_error + unit) \<times> 's"

record mem_storage =
  ms_data :: "(bytes, bytes) fmap"
  ms_prepared :: "(nat, txn_op list) fmap"
  ms_next_lsn :: nat

definition mem_new :: mem_storage where
  "mem_new = \<lparr>ms_data = fmempty, ms_prepared = fmempty, ms_next_lsn = 1\<rparr>"

definition mem_get :: "mem_storage \<Rightarrow> bytes \<Rightarrow> bytes option" where
  "mem_get s k = fmlookup (ms_data s) k"

definition mem_prepare :: "mem_storage \<Rightarrow> txn_op list \<Rightarrow> (tpc_error + nat) \<times> mem_storage" where
  "mem_prepare s ops =
     (let lsn = ms_next_lsn s
      in (Inr lsn, s\<lparr>ms_next_lsn := lsn + 1, ms_prepared := fmupd lsn ops (ms_prepared s)\<rparr>))"

fun apply_op :: "txn_op \<Rightarrow> (bytes, bytes) fmap \<Rightarrow> (bytes, bytes) fmap" where
  "apply_op (Put k v) d = fmupd k v d"
| "apply_op (Delete k) d = fmdrop k d"
| "apply_op (ConditionalPut k expected v) d = fmupd k v d"

definition mem_commit :: "mem_storage \<Rightarrow> nat \<Rightarrow> (tpc_error + unit) \<times> mem_storage" where
  "mem_commit s lsn =
     (case fmlookup (ms_prepared s) lsn of
        Some ops \<Rightarrow> (Inr (), s\<lparr>ms_prepared := fmdrop lsn (ms_prepared s), ms_data := fold apply_op ops (ms_data s)\<rparr>)
      | None \<Rightarrow> (Inr (), s))"

definition mem_rollback :: "mem_storage \<Rightarrow> nat \<Rightarrow> (tpc_error + unit) \<times> mem_storage" where
  "mem_rollback s lsn = (Inr (), s\<lparr>ms_prepared := fmdrop lsn (ms_prepared s)\<rparr>)"

definition mem_ops :: "mem_storage storage_ops" where
  "mem_ops = \<lparr>st_prepare = mem_prepare, st_commit = mem_commit, st_rollback = mem_rollback\<rparr>"

section \<open>Participant state\<close>

record part_txn =
  pt_state :: transaction_state
  pt_coordinator :: pid
  pt_operations :: "txn_op list"
  pt_prepared_lsn :: "nat option"
  pt_created_at :: nat
  pt_last_activity :: nat
  pt_vote :: "vote option"

definition pt_new :: "nat \<Rightarrow> pid \<Rightarrow> txn_op list \<Rightarrow> part_txn" where
  "pt_new now cid ops = \<lparr>pt_state = Started, pt_coordinator = cid, pt_operations = ops,
     pt_prepared_lsn = None, pt_created_at = now, pt_last_activity = now, pt_vote = None\<rparr>"

record part_stats =
  prepares_received :: nat
  votes_commit :: nat
  votes_abort :: nat
  commits_received :: nat
  aborts_received :: nat
  decision_timeouts :: nat

record 's participant =
  p_node :: pid
  decision_timeout :: nat
  p_txns :: "(txn_id, part_txn) fmap"
  p_log :: recovery_log
  p_storage :: 's
  p_stats :: part_stats

definition participant_new :: "pid \<Rightarrow> nat \<Rightarrow> 's \<Rightarrow> 's participant" where
  "participant_new node timeout st = \<lparr>p_node = node, decision_timeout = timeout, p_txns = fmempty,
     p_log = log_new, p_storage = st, p_stats = \<lparr>prepares_received = 0, votes_commit = 0, votes_abort = 0,
       commits_received = 0, aborts_received = 0, decision_timeouts = 0\<rparr>\<rparr>"

abbreviation p_append :: "nat \<Rightarrow> txn_id \<Rightarrow> log_record \<Rightarrow> 's participant \<Rightarrow> 's participant" where
  "p_append now tx r p \<equiv> p\<lparr>p_log := log_append now tx r (p_log p)\<rparr>"

abbreviation p_append_sync :: "nat \<Rightarrow> txn_id \<Rightarrow> log_record \<Rightarrow> 's participant \<Rightarrow> 's participant" where
  "p_append_sync now tx r p \<equiv> p\<lparr>p_log := log_append_sync now tx r (p_log p)\<rparr>"

abbreviation p_put :: "txn_id \<Rightarrow> part_txn \<Rightarrow> 's participant \<Rightarrow> 's participant" where
  "p_put tx t p \<equiv> p\<lparr>p_txns := fmupd tx t (p_txns p)\<rparr>"

definition p_set_state :: "nat \<Rightarrow> txn_id \<Rightarrow> transaction_state \<Rightarrow> 's participant \<Rightarrow> 's participant" where
  "p_set_state now tx st p =
     (case fmlookup (p_txns p) tx of
        Some t \<Rightarrow> p_put tx (t\<lparr>pt_state := st, pt_last_activity := now\<rparr>) p
      | None \<Rightarrow> p)"

type_synonym tpc_pout = "(pid \<times> tpc_msg) list"

section \<open>Handlers\<close>

definition handle_prepare :: "'s storage_ops \<Rightarrow> nat \<Rightarrow> 's participant \<Rightarrow> tpc_msg \<Rightarrow>
    (tpc_error + unit) \<times> 's participant \<times> tpc_pout" where
  "handle_prepare st now p m =
     (case m of
        Prepare tx cid ps ops ts \<Rightarrow>
          (let s0 = p_stats p;
               p1 = p_append now tx (PrepareReceived cid)
                 (p\<lparr>p_stats := s0\<lparr>prepares_received := prepares_received s0 + 1\<rparr>\<rparr>);
               p2 = p_put tx (pt_new now cid ops) p1;
               s2 = p_stats p2;
               (res, storage') = st_prepare st (p_storage p2) ops;
               (v, lsn, s3) = (case res of
                   Inr lsn \<Rightarrow> (VoteCommit, Some lsn, s2\<lparr>votes_commit := votes_commit s2 + 1\<rparr>)
                 | Inl e \<Rightarrow> (VoteAbort, None, s2\<lparr>votes_abort := votes_abort s2 + 1\<rparr>));
               p3 = p2\<lparr>p_storage := storage', p_stats := s3\<rparr>;
               p4 = p_put tx ((pt_new now cid ops)\<lparr>pt_state := Prepared, pt_vote := Some v,
                      pt_prepared_lsn := lsn, pt_last_activity := now\<rparr>) p3;
               p5 = p_append_sync now tx (VoteSent v) p4
           in (Inr (), p5, [(cid, Vote tx (p_node p) v lsn)]))
      | _ \<Rightarrow> (Inl (Internal ''Expected Prepare message''), p, []))"

definition handle_commit :: "'s storage_ops \<Rightarrow> nat \<Rightarrow> 's participant \<Rightarrow> tpc_msg \<Rightarrow>
    (tpc_error + unit) \<times> 's participant \<times> tpc_pout" where
  "handle_commit st now p m =
     (case m of
        CommitMsg tx cid ts \<Rightarrow>
          (let s0 = p_stats p;
               p1 = p_append now tx (DecisionReceived True)
                 (p\<lparr>p_stats := s0\<lparr>commits_received := commits_received s0 + 1\<rparr>\<rparr>)
           in case fmlookup (p_txns p1) tx of
                None \<Rightarrow> (Inl (TransactionNotFound tx), p1, [])
              | Some t \<Rightarrow>
                  let p2 = p_set_state now tx Committing p1;
                      (success, p3) = (case pt_prepared_lsn t of
                          Some lsn \<Rightarrow>
                            (case st_commit st (p_storage p2) lsn of
                               (Inr _, s') \<Rightarrow> (True, p_append now tx Applied (p2\<lparr>p_storage := s'\<rparr>))
                             | (Inl e, s') \<Rightarrow> (False, p2\<lparr>p_storage := s'\<rparr>))
                        | None \<Rightarrow> (False, p2));
                      p4 = p_set_state now tx Committed p3
                  in (Inr (), p4, [(cid, Ack tx (p_node p) success
                       (if success then None else Some ''Commit failed''))]))
      | _ \<Rightarrow> (Inl (Internal ''Expected Commit message''), p, []))"

definition handle_abort :: "'s storage_ops \<Rightarrow> nat \<Rightarrow> 's participant \<Rightarrow> tpc_msg \<Rightarrow>
    (tpc_error + unit) \<times> 's participant \<times> tpc_pout" where
  "handle_abort st now p m =
     (case m of
        AbortMsg tx cid reason \<Rightarrow>
          (let s0 = p_stats p;
               p1 = p_append now tx (DecisionReceived False)
                 (p\<lparr>p_stats := s0\<lparr>aborts_received := aborts_received s0 + 1\<rparr>\<rparr>);
               lsn = Option.bind (fmlookup (p_txns p1) tx) pt_prepared_lsn;
               p2 = p_set_state now tx Aborting p1;
               (success, p3) = (case lsn of
                   Some l \<Rightarrow>
                     (case st_rollback st (p_storage p2) l of
                        (Inr _, s') \<Rightarrow> (True, p2\<lparr>p_storage := s'\<rparr>)
                      | (Inl e, s') \<Rightarrow> (False, p2\<lparr>p_storage := s'\<rparr>))
                 | None \<Rightarrow> (True, p2));
               p4 = p_set_state now tx Aborted p3
           in (Inr (), p4, [(cid, Ack tx (p_node p) success
                (if success then None else Some ''Rollback failed''))]))
      | _ \<Rightarrow> (Inl (Internal ''Expected Abort message''), p, []))"

definition p_check_timeouts :: "nat \<Rightarrow> 's participant \<Rightarrow> txn_id list \<times> 's participant \<times> tpc_pout" where
  "p_check_timeouts now p =
     (let uncertain = filter (\<lambda>(tx, t). pt_state t = Prepared \<and> now - pt_last_activity t > decision_timeout p)
            (fm_entries (p_txns p));
          s = p_stats p
      in (map fst uncertain, p\<lparr>p_stats := s\<lparr>decision_timeouts := decision_timeouts s + length uncertain\<rparr>\<rparr>,
          map (\<lambda>(tx, t). (pt_coordinator t, QueryStatus tx (p_node p))) uncertain))"

definition handle_status_response :: "'s storage_ops \<Rightarrow> nat \<Rightarrow> 's participant \<Rightarrow> tpc_msg \<Rightarrow>
    (tpc_error + unit) \<times> 's participant \<times> tpc_pout" where
  "handle_status_response st now p m =
     (case m of
        StatusResponse tx state responder \<Rightarrow>
          (case state of
             Committed \<Rightarrow> handle_commit st now p (CommitMsg tx responder 0)
           | Aborted \<Rightarrow> handle_abort st now p (AbortMsg tx responder ''Recovered abort from coordinator'')
           | Unknown \<Rightarrow> handle_abort st now p (AbortMsg tx responder ''Presumed abort - coordinator unknown'')
           | _ \<Rightarrow> (Inr (), p, []))
      | _ \<Rightarrow> (Inl (Internal ''Expected StatusResponse message''), p, []))"

record p_recovered =
  pr_coordinator :: "pid option"
  pr_vote :: "vote option"
  pr_decision :: "bool option"

definition p_scan_entry :: "log_entry \<Rightarrow> p_recovered \<Rightarrow> p_recovered" where
  "p_scan_entry e r =
     (case le_record e of
        PrepareReceived cid \<Rightarrow> r\<lparr>pr_coordinator := Some cid\<rparr>
      | VoteSent v \<Rightarrow> r\<lparr>pr_vote := Some v\<rparr>
      | DecisionReceived b \<Rightarrow> r\<lparr>pr_decision := Some b\<rparr>
      | _ \<Rightarrow> r)"

definition p_recover_one :: "nat \<Rightarrow> 's participant \<Rightarrow> txn_id \<Rightarrow> log_entry list \<Rightarrow> 's participant \<times> tpc_pout" where
  "p_recover_one now p tx es =
     (let r = fold p_scan_entry es \<lparr>pr_coordinator = None, pr_vote = None, pr_decision = None\<rparr>
      in case pr_coordinator r of
           Some cid \<Rightarrow>
             if pr_decision r = None \<and> pr_vote r = Some VoteCommit
             then (p, [(cid, QueryStatus tx (p_node p))])
             else if pr_vote r = None \<or> pr_vote r = Some VoteAbort
             then (p_append_sync now tx (DecisionReceived False) p, [])
             else (p, [])
         | None \<Rightarrow> (p, []))"

fun p_recover_all :: "nat \<Rightarrow> 's participant \<Rightarrow> (txn_id \<times> log_entry list) list \<Rightarrow> 's participant \<times> tpc_pout" where
  "p_recover_all now p [] = (p, [])"
| "p_recover_all now p ((tx, es) # rest) =
     (let (p1, out1) = p_recover_one now p tx es; (p2, out2) = p_recover_all now p1 rest
      in (p2, out1 @ out2))"

definition p_recover :: "nat \<Rightarrow> 's participant \<Rightarrow> txn_id list \<times> 's participant \<times> tpc_pout" where
  "p_recover now p =
     (let incomplete = get_incomplete_transactions (p_log p); (p1, out) = p_recover_all now p incomplete
      in (map fst incomplete, p1, out))"

definition p_get_transaction_state :: "'s participant \<Rightarrow> txn_id \<Rightarrow> transaction_state option" where
  "p_get_transaction_state p tx = map_option pt_state (fmlookup (p_txns p) tx)"

definition p_cleanup_completed :: "nat \<Rightarrow> 's participant \<Rightarrow> nat \<Rightarrow> nat \<times> 's participant" where
  "p_cleanup_completed now p max_age =
     (let kept = fmfilter (\<lambda>tx. case fmlookup (p_txns p) tx of
            Some t \<Rightarrow> if is_terminal (pt_state t) then now - pt_last_activity t < max_age else True
          | None \<Rightarrow> False) (p_txns p)
      in (fcard (fmdom (p_txns p)) - fcard (fmdom kept), p\<lparr>p_txns := kept\<rparr>))"

section \<open>The storage interface\<close>

text \<open>
  What the protocol needs of a storage: a number is issued once; preparing keeps the operations under it
  and touches no data; committing a prepared number succeeds, applies its operations in
  order and releases it; rolling back only releases it; other numbers are untouched.
\<close>

locale participant_storage =
  fixes st :: "'s storage_ops"
    and pending :: "'s \<Rightarrow> nat \<Rightarrow> txn_op list option"
    and contents :: "'s \<Rightarrow> (bytes, bytes) fmap"
    and issued :: "'s \<Rightarrow> nat set"
  assumes prepare_ok: "st_prepare st s ops = (Inr l, s') \<Longrightarrow>
      l \<notin> issued s \<and> issued s' = insert l (issued s) \<and> pending s' = (pending s)(l := Some ops) \<and>
      contents s' = contents s"
    and prepare_err: "st_prepare st s ops = (Inl e, s') \<Longrightarrow>
      issued s' = issued s \<and> pending s' = pending s \<and> contents s' = contents s"
    and commit_pending: "pending s l = Some ops \<Longrightarrow>
      \<exists>s'. st_commit st s l = (Inr (), s') \<and> issued s' = issued s \<and> pending s' = (pending s)(l := None) \<and>
        contents s' = fold apply_op ops (contents s)"
    and commit_released: "pending s l = None \<Longrightarrow> st_commit st s l = (r, s') \<Longrightarrow>
      issued s' = issued s \<and> pending s' = pending s \<and> contents s' = contents s"
    and rollback_release: "st_rollback st s l = (r, s') \<Longrightarrow>
      issued s' = issued s \<and> (pending s' = (pending s)(l := None) \<or> (pending s' = pending s \<and> isl r)) \<and>
      contents s' = contents s"
begin

lemma commit_other:
  assumes "st_commit st s l = (r, s')" "l' \<noteq> l"
  shows "pending s' l' = pending s l'" "issued s' = issued s"
  using assms commit_pending [of s l] commit_released [of s l] by (cases "pending s l"; force)+

text \<open>A prepared transaction that is rolled back leaves no trace in the data.\<close>

lemma prepare_rollback_contents:
  "st_prepare st s ops = (Inr l, s1) \<Longrightarrow> st_rollback st s1 l = (r, s2) \<Longrightarrow> contents s2 = contents s"
  using prepare_ok rollback_release by metis

text \<open>One that is committed is applied exactly once, however often the commit is repeated.\<close>

lemma prepare_commit_contents:
  assumes "st_prepare st s ops = (Inr l, s1)" "st_commit st s1 l = (r, s2)" "st_commit st s2 l = (r', s3)"
  shows "r = Inr () \<and> contents s2 = fold apply_op ops (contents s) \<and> contents s3 = contents s2"
proof -
  have p: "pending s1 l = Some ops" "contents s1 = contents s" using prepare_ok [OF assms(1)] by auto
  with commit_pending [OF p(1)] assms(2) have "r = Inr ()" "pending s2 l = None"
    "contents s2 = fold apply_op ops (contents s)" by auto
  with commit_released [OF _ assms(3)] show ?thesis by auto
qed

end

text \<open>The in-memory storage meets the contract. The numbers it has issued are those below its counter.\<close>

interpretation mem: participant_storage mem_ops "\<lambda>s. fmlookup (ms_prepared s)" ms_data "\<lambda>s. {..<ms_next_lsn s}"
proof unfold_locales
  fix s :: mem_storage and l ops
  show "fmlookup (ms_prepared s) l = Some ops \<Longrightarrow> \<exists>s'. st_commit mem_ops s l = (Inr (), s') \<and>
      {..<ms_next_lsn s'} = {..<ms_next_lsn s} \<and>
      fmlookup (ms_prepared s') = (fmlookup (ms_prepared s))(l := None) \<and>
      ms_data s' = fold apply_op ops (ms_data s)"
    by (auto simp: mem_ops_def mem_commit_def fun_eq_iff)
qed (auto simp: mem_ops_def mem_prepare_def mem_commit_def mem_rollback_def Let_def fun_eq_iff split: option.splits)

end
