(* ===== verification/Tpc_System.thy ===== *)
theory Tpc_System
  imports Tpc_Coordinator Tpc_Participant
begin

text \<open>
  Two-phase commit as a distributed system: one coordinator, any number of participants, and a network
  that delivers each message at most once, late, in any order, or not at all. A handler is one atomic step:
  the interleavings inside \<open>handle_vote\<close>, which releases its lock, are not steps of this system.

  A node that fails stops: it takes no more steps. It does not come back, because the program keeps the recovery logs in memory
  only (\<open>TransactionCoordinator::new\<close> and \<open>TransactionParticipant::new\<close> both build \<open>RecoveryLog::new()\<close>): what a node that
  does come back has forgotten is stated separately.
\<close>

section \<open>The system\<close>

record 's tpc_world =
  w_coord :: coord
  w_parts :: "pid \<Rightarrow> 's participant"
  w_net :: "(pid \<times> tpc_msg) list"
  w_now :: nat

definition tpc_init :: "coord_config \<Rightarrow> nat \<Rightarrow> 's \<Rightarrow> 's tpc_world" where
  "tpc_init cfg timeout st0 = \<lparr>w_coord = coord_new cfg, w_parts = (\<lambda>q. participant_new q timeout st0),
     w_net = [], w_now = 0\<rparr>"

text \<open>Messages for the coordinator and for a participant.\<close>

definition coord_receive :: "nat \<Rightarrow> coord \<Rightarrow> tpc_msg \<Rightarrow> coord \<times> tpc_out" where
  "coord_receive now c m =
     (case m of
        Vote _ _ _ _ \<Rightarrow> snd (handle_vote now c m)
      | Ack _ _ _ _ \<Rightarrow> snd (handle_ack now c m)
      | QueryStatus _ q \<Rightarrow> (c, case handle_status_query c m of Inr r \<Rightarrow> [(q, r)] | Inl _ \<Rightarrow> [])
      | _ \<Rightarrow> (c, []))"

definition part_receive :: "'s storage_ops \<Rightarrow> nat \<Rightarrow> 's participant \<Rightarrow> tpc_msg \<Rightarrow> 's participant \<times> tpc_pout" where
  "part_receive st now p m =
     (case m of
        Prepare _ _ _ _ _ \<Rightarrow> snd (handle_prepare st now p m)
      | CommitMsg _ _ _ \<Rightarrow> snd (handle_commit st now p m)
      | AbortMsg _ _ _ \<Rightarrow> snd (handle_abort st now p m)
      | StatusResponse _ _ _ \<Rightarrow> snd (handle_status_response st now p m)
      | _ \<Rightarrow> (p, []))"

inductive tpc_step :: "'s storage_ops \<Rightarrow> 's tpc_world \<Rightarrow> 's tpc_world \<Rightarrow> bool" for st where
  t_tick: "tpc_step st w (w\<lparr>w_now := w_now w + 1\<rparr>)"
| t_lose: "x \<in> set (w_net w) \<Longrightarrow> tpc_step st w (w\<lparr>w_net := remove1 x (w_net w)\<rparr>)"
| t_begin: "begin_transaction (w_now w) (w_coord w) ps ops = (r, c', out) \<Longrightarrow>
    tpc_step st w (w\<lparr>w_coord := c', w_net := w_net w @ out\<rparr>)"
| t_coord: "(d, m) \<in> set (w_net w) \<Longrightarrow> coord_receive (w_now w) (w_coord w) m = (c', out) \<Longrightarrow>
    tpc_step st w (w\<lparr>w_coord := c', w_net := remove1 (d, m) (w_net w) @ out\<rparr>)"
| t_part: "(d, m) \<in> set (w_net w) \<Longrightarrow> part_receive st (w_now w) (w_parts w d) m = (p', out) \<Longrightarrow>
    tpc_step st w (w\<lparr>w_parts := (w_parts w)(d := p'), w_net := remove1 (d, m) (w_net w) @ out\<rparr>)"
| t_timeouts: "c_check_timeouts (w_now w) (w_coord w) = (ids, c', out) \<Longrightarrow>
    tpc_step st w (w\<lparr>w_coord := c', w_net := w_net w @ out\<rparr>)"
| t_abort: "c_abort_transaction (w_now w) (w_coord w) tx reason = (r, c', out) \<Longrightarrow>
    tpc_step st w (w\<lparr>w_coord := c', w_net := w_net w @ out\<rparr>)"
| t_cleanup: "c_cleanup_completed (w_now w) (w_coord w) age = (k, c') \<Longrightarrow> tpc_step st w (w\<lparr>w_coord := c'\<rparr>)"
| t_p_timeouts: "p_check_timeouts (w_now w) (w_parts w d) = (ids, p', out) \<Longrightarrow>
    tpc_step st w (w\<lparr>w_parts := (w_parts w)(d := p'), w_net := w_net w @ out\<rparr>)"
| t_p_cleanup: "p_cleanup_completed (w_now w) (w_parts w d) age = (k, p') \<Longrightarrow>
    tpc_step st w (w\<lparr>w_parts := (w_parts w)(d := p')\<rparr>)"

inductive tpc_reachable :: "'s storage_ops \<Rightarrow> coord_config \<Rightarrow> nat \<Rightarrow> 's \<Rightarrow> 's tpc_world \<Rightarrow> bool"
  for st cfg timeout st0 where
  t_reach_init: "tpc_reachable st cfg timeout st0 (tpc_init cfg timeout st0)"
| t_reach_step: "tpc_reachable st cfg timeout st0 w \<Longrightarrow> tpc_step st w w' \<Longrightarrow> tpc_reachable st cfg timeout st0 w'"

section \<open>What the logs say\<close>

definition started :: "'s tpc_world \<Rightarrow> txn_id \<Rightarrow> pid list \<Rightarrow> txn_op list \<Rightarrow> bool" where
  "started w tx ps ops \<longleftrightarrow> logged (c_log (w_coord w)) tx (TransactionStart ps ops)"

definition decided :: "'s tpc_world \<Rightarrow> txn_id \<Rightarrow> bool \<Rightarrow> bool" where
  "decided w tx b \<longleftrightarrow> logged (c_log (w_coord w)) tx (Decision b)"

definition applied :: "'s tpc_world \<Rightarrow> pid \<Rightarrow> txn_id \<Rightarrow> bool" where
  "applied w q tx \<longleftrightarrow> logged (p_log (w_parts w q)) tx Applied"

definition voted :: "'s tpc_world \<Rightarrow> pid \<Rightarrow> txn_id \<Rightarrow> bool" where
  "voted w q tx \<longleftrightarrow> logged (p_log (w_parts w q)) tx (VoteSent VoteCommit)"

definition got_prepare :: "'s participant \<Rightarrow> txn_id \<Rightarrow> bool" where
  "got_prepare p tx \<longleftrightarrow> list_ex (\<lambda>e. le_txn e = tx \<and> (case le_record e of PrepareReceived _ \<Rightarrow> True | _ \<Rightarrow> False))
     (entries (p_log p))"

lemma got_prepare_logged: "got_prepare p tx \<longleftrightarrow> (\<exists>cid. logged (p_log p) tx (PrepareReceived cid))"
proof -
  have "(case r of PrepareReceived _ \<Rightarrow> True | _ \<Rightarrow> False) \<longleftrightarrow> (\<exists>cid. r = PrepareReceived cid)" for r
    by (cases r) auto
  then show ?thesis unfolding got_prepare_def logged_def list_ex_iff by blast
qed

definition member :: "'s tpc_world \<Rightarrow> pid \<Rightarrow> txn_id \<Rightarrow> bool" where
  "member w q tx \<longleftrightarrow> (\<exists>ps ops. started w tx ps ops \<and> q \<in> set ps)"

definition all_applied :: "'s tpc_world \<Rightarrow> txn_id \<Rightarrow> bool" where
  "all_applied w tx \<longleftrightarrow> (\<exists>ps ops. started w tx ps ops \<and> (\<forall>q\<in>set ps. applied w q tx))"

lemma memberI: "started w tx ps ops \<Longrightarrow> q \<in> set ps \<Longrightarrow> member w q tx"
  unfolding member_def by blast

text \<open>Logs only grow.\<close>

definition grows :: "'s tpc_world \<Rightarrow> 's tpc_world \<Rightarrow> bool" where
  "grows w w' \<longleftrightarrow>
     (\<forall>tx r. logged (c_log (w_coord w)) tx r \<longrightarrow> logged (c_log (w_coord w')) tx r) \<and>
     (\<forall>q tx r. logged (p_log (w_parts w q)) tx r \<longrightarrow> logged (p_log (w_parts w' q)) tx r)"

lemma grows_mono:
  assumes "grows w w'"
  shows "started w tx ps ops \<Longrightarrow> started w' tx ps ops" "decided w tx b \<Longrightarrow> decided w' tx b"
    "applied w q tx \<Longrightarrow> applied w' q tx" "voted w q tx \<Longrightarrow> voted w' q tx"
    "member w q tx \<Longrightarrow> member w' q tx" "all_applied w tx \<Longrightarrow> all_applied w' tx"
  using assms unfolding grows_def started_def decided_def applied_def voted_def member_def all_applied_def
  by blast+

lemma frame_facts [simp]:
  "started (w\<lparr>w_net := N\<rparr>) = started w" "decided (w\<lparr>w_net := N\<rparr>) = decided w"
  "applied (w\<lparr>w_net := N\<rparr>) = applied w" "voted (w\<lparr>w_net := N\<rparr>) = voted w"
  "started (w\<lparr>w_now := n\<rparr>) = started w" "decided (w\<lparr>w_now := n\<rparr>) = decided w"
  "applied (w\<lparr>w_now := n\<rparr>) = applied w" "voted (w\<lparr>w_now := n\<rparr>) = voted w"
  "applied (w\<lparr>w_coord := c\<rparr>) = applied w" "voted (w\<lparr>w_coord := c\<rparr>) = voted w"
  "started (w\<lparr>w_parts := f\<rparr>) = started w" "decided (w\<lparr>w_parts := f\<rparr>) = decided w"
  by (simp_all add: fun_eq_iff started_def decided_def applied_def voted_def)

lemma frame_derived [simp]:
  "member (w\<lparr>w_net := N\<rparr>) = member w" "member (w\<lparr>w_now := n\<rparr>) = member w" "member (w\<lparr>w_parts := f\<rparr>) = member w"
  "all_applied (w\<lparr>w_net := N\<rparr>) = all_applied w" "all_applied (w\<lparr>w_now := n\<rparr>) = all_applied w"
  by (simp_all add: fun_eq_iff member_def all_applied_def)

section \<open>The invariant\<close>

text \<open>A message on the network.\<close>

fun msg_ok :: "'s tpc_world \<Rightarrow> pid \<times> tpc_msg \<Rightarrow> bool" where
  "msg_ok w (q, Prepare tx cid ps ops ts) \<longleftrightarrow> started w tx ps ops \<and> q \<in> set ps"
| "msg_ok w (q, Vote tx p v lsn) \<longleftrightarrow> member w p tx \<and> (v = VoteCommit \<longrightarrow> voted w p tx)"
| "msg_ok w (q, CommitMsg tx cid ts) \<longleftrightarrow> member w q tx \<and> decided w tx True"
| "msg_ok w (q, AbortMsg tx cid reason) \<longleftrightarrow> member w q tx \<and> decided w tx False"
| "msg_ok w (q, Ack tx p success err) \<longleftrightarrow> member w p tx \<and> (decided w tx False \<or> applied w p tx)"
| "msg_ok w (q, QueryStatus tx p) \<longleftrightarrow> member w p tx"
| "msg_ok w (q, StatusResponse tx s cid) \<longleftrightarrow> member w q tx \<and>
     (s = Committed \<longrightarrow> decided w tx True) \<and> (s = Aborted \<longrightarrow> decided w tx False) \<and>
     (s = Unknown \<longrightarrow> decided w tx False \<or> all_applied w tx)"

lemma msg_ok_mono: "grows w w' \<Longrightarrow> msg_ok w x \<Longrightarrow> msg_ok w' x"
  by (cases "(w, x)" rule: msg_ok.cases) (auto dest: grows_mono)

lemma msg_ok_net [simp]: "msg_ok (w\<lparr>w_net := N\<rparr>) x = msg_ok w x" "msg_ok (w\<lparr>w_now := n\<rparr>) x = msg_ok w x"
  by (cases "(w, x)" rule: msg_ok.cases; simp)+

text \<open>A transaction in the coordinator's memory.\<close>

definition ctxn_ok :: "'s tpc_world \<Rightarrow> txn_id \<Rightarrow> coord_txn \<Rightarrow> bool" where
  "ctxn_ok w tx t \<longleftrightarrow>
     started w tx (ct_participants t) (ct_operations t) \<and>
     (\<forall>p v. fmlookup (ct_votes t) p = Some v \<longrightarrow> p \<in> set (ct_participants t) \<and> (v = VoteCommit \<longrightarrow> voted w p tx)) \<and>
     (\<forall>p. p |\<in>| ct_acks t \<longrightarrow> p \<in> set (ct_participants t) \<and> (decided w tx False \<or> applied w p tx)) \<and>
     ((ct_state t = Preparing \<and> \<not> decided w tx True \<and> \<not> decided w tx False) \<or>
      (ct_state t \<in> {Committing, Committed} \<and> decided w tx True) \<or>
      (ct_state t \<in> {Aborting, Aborted} \<and> decided w tx False)) \<and>
     (ct_state t = Committed \<longrightarrow> (\<forall>p\<in>set (ct_participants t). applied w p tx))"

text \<open>The coordinator. A transaction that is no longer in its memory is over.\<close>

definition coord_ok :: "'s tpc_world \<Rightarrow> bool" where
  "coord_ok w \<longleftrightarrow>
     log_ok (c_log (w_coord w)) \<and> log_file (c_log (w_coord w)) = None \<and>
     (\<forall>tx ps ops ps' ops'. started w tx ps ops \<longrightarrow> started w tx ps' ops' \<longrightarrow> ps' = ps \<and> ops' = ops) \<and>
     (\<forall>tx t. fmlookup (c_txns (w_coord w)) tx = Some t \<longrightarrow> ctxn_ok w tx t) \<and>
     (\<forall>tx. \<not> (decided w tx True \<and> decided w tx False)) \<and>
     (\<forall>tx ps ops. started w tx ps ops \<longrightarrow> fmlookup (c_txns (w_coord w)) tx = None \<longrightarrow>
        decided w tx False \<or> all_applied w tx) \<and>
     (\<forall>tx. decided w tx True \<longrightarrow> (\<exists>ps ops. started w tx ps ops \<and> distinct ps \<and> (\<forall>q\<in>set ps. voted w q tx))) \<and>
     (\<forall>tx p. logged (c_log (w_coord w)) tx (AckReceived p) \<longrightarrow> member w p tx \<and> (decided w tx False \<or> applied w p tx)) \<and>
     (\<forall>tx. logged (c_log (w_coord w)) tx TransactionComplete \<longrightarrow> decided w tx False \<or> all_applied w tx) \<and>
     (\<forall>tx r. logged (c_log (w_coord w)) tx r \<longrightarrow> (\<exists>ps ops. started w tx ps ops)) \<and>
     (\<forall>node ts k r. logged (c_log (w_coord w)) (TxnId node ts k) r \<longrightarrow>
        ts \<le> w_now w \<and> k < txn_counter (w_coord w))"

lemma coord_okD:
  assumes "coord_ok w"
  shows "log_ok (c_log (w_coord w))" "log_file (c_log (w_coord w)) = None"
    "started w tx ps ops \<Longrightarrow> started w tx ps' ops' \<Longrightarrow> ps' = ps \<and> ops' = ops"
    "fmlookup (c_txns (w_coord w)) tx = Some t \<Longrightarrow> ctxn_ok w tx t"
    "decided w tx True \<Longrightarrow> decided w tx False \<Longrightarrow> False"
    "started w tx ps ops \<Longrightarrow> fmlookup (c_txns (w_coord w)) tx = None \<Longrightarrow>
        decided w tx False \<or> all_applied w tx"
    "decided w tx True \<Longrightarrow> \<exists>ps ops. started w tx ps ops \<and> distinct ps \<and> (\<forall>q\<in>set ps. voted w q tx)"
    "logged (c_log (w_coord w)) tx (AckReceived p) \<Longrightarrow> member w p tx \<and> (decided w tx False \<or> applied w p tx)"
    "logged (c_log (w_coord w)) tx TransactionComplete \<Longrightarrow> decided w tx False \<or> all_applied w tx"
    "logged (c_log (w_coord w)) tx r \<Longrightarrow> \<exists>ps ops. started w tx ps ops"
    "logged (c_log (w_coord w)) (TxnId node ts k) r \<Longrightarrow>
        ts \<le> w_now w \<and> k < txn_counter (w_coord w)"
proof -
  note ok = assms [unfolded coord_ok_def]
  show "log_ok (c_log (w_coord w))" "log_file (c_log (w_coord w)) = None" using ok by blast+
  show "started w tx ps ops \<Longrightarrow> started w tx ps' ops' \<Longrightarrow> ps' = ps \<and> ops' = ops" using ok by simp
  show "fmlookup (c_txns (w_coord w)) tx = Some t \<Longrightarrow> ctxn_ok w tx t" using ok by simp
  show "decided w tx True \<Longrightarrow> decided w tx False \<Longrightarrow> False" using ok by simp
  show "started w tx ps ops \<Longrightarrow> fmlookup (c_txns (w_coord w)) tx = None \<Longrightarrow>
        decided w tx False \<or> all_applied w tx" using ok by blast
  show "decided w tx True \<Longrightarrow> \<exists>ps ops. started w tx ps ops \<and> distinct ps \<and> (\<forall>q\<in>set ps. voted w q tx)"
    using ok by simp
  show "logged (c_log (w_coord w)) tx (AckReceived p) \<Longrightarrow> member w p tx \<and> (decided w tx False \<or> applied w p tx)"
    using ok by simp
  show "logged (c_log (w_coord w)) tx TransactionComplete \<Longrightarrow> decided w tx False \<or> all_applied w tx"
    using ok by simp
  show "logged (c_log (w_coord w)) tx r \<Longrightarrow> \<exists>ps ops. started w tx ps ops" using ok by blast
  show "logged (c_log (w_coord w)) (TxnId node ts k) r \<Longrightarrow>
        ts \<le> w_now w \<and> k < txn_counter (w_coord w)" using ok by blast
qed

text \<open>The number under which a participant prepared each transaction: \<open>f\<close>.\<close>

definition lsn_map_ok :: "('s \<Rightarrow> nat \<Rightarrow> txn_op list option) \<Rightarrow> ('s \<Rightarrow> nat set) \<Rightarrow> 's tpc_world \<Rightarrow> pid \<Rightarrow>
    (txn_id \<Rightarrow> nat option) \<Rightarrow> bool" where
  "lsn_map_ok pending issued w q f \<longleftrightarrow>
     (\<forall>tx t l. fmlookup (p_txns (w_parts w q)) tx = Some t \<longrightarrow> pt_prepared_lsn t = Some l \<longrightarrow> f tx = Some l) \<and>
     (\<forall>tx l. f tx = Some l \<longrightarrow> l \<in> issued (p_storage (w_parts w q))) \<and>
     (\<forall>tx tx' l. f tx = Some l \<longrightarrow> f tx' = Some l \<longrightarrow> tx = tx') \<and>
     (\<forall>tx. voted w q tx \<longrightarrow> applied w q tx \<or> decided w tx False \<or>
        (\<exists>ps ops l. started w tx ps ops \<and> f tx = Some l \<and> pending (p_storage (w_parts w q)) l = Some ops))"

definition part_ok :: "('s \<Rightarrow> nat \<Rightarrow> txn_op list option) \<Rightarrow> ('s \<Rightarrow> nat set) \<Rightarrow> 's tpc_world \<Rightarrow> pid \<Rightarrow> bool" where
  "part_ok pending issued w q \<longleftrightarrow>
     p_node (w_parts w q) = q \<and>
     (\<exists>f. lsn_map_ok pending issued w q f) \<and>
     (\<forall>tx t. fmlookup (p_txns (w_parts w q)) tx = Some t \<longrightarrow> got_prepare (w_parts w q) tx \<and>
        (voted w q tx \<longrightarrow> (\<exists>ps ops. started w tx ps ops \<and> (distinct ps \<longrightarrow> pt_prepared_lsn t \<noteq> None)))) \<and>
     (\<forall>tx. applied w q tx \<longrightarrow> decided w tx True) \<and>
     (\<forall>tx. voted w q tx \<longrightarrow> got_prepare (w_parts w q) tx) \<and>
     (\<forall>tx. got_prepare (w_parts w q) tx \<longrightarrow> member w q tx)"

text \<open>How many prepare messages of a transaction are under way to a participant.\<close>

definition prepare_for :: "pid \<Rightarrow> txn_id \<Rightarrow> pid \<times> tpc_msg \<Rightarrow> bool" where
  "prepare_for q tx x \<longleftrightarrow> fst x = q \<and> is_Prepare (snd x) \<and> msg_txn (snd x) = tx"

definition prepares :: "(pid \<times> tpc_msg) list \<Rightarrow> pid \<Rightarrow> txn_id \<Rightarrow> nat" where
  "prepares net q tx = length (filter (prepare_for q tx) net)"

definition once :: "'s tpc_world \<Rightarrow> bool" where
  "once w \<longleftrightarrow> (\<forall>q tx cid ps ops ts. (q, Prepare tx cid ps ops ts) \<in> set (w_net w) \<longrightarrow> distinct ps \<longrightarrow>
     prepares (w_net w) q tx \<le> 1 \<and> \<not> got_prepare (w_parts w q) tx)"

definition tpc_ok :: "('s \<Rightarrow> nat \<Rightarrow> txn_op list option) \<Rightarrow> ('s \<Rightarrow> nat set) \<Rightarrow> 's tpc_world \<Rightarrow> bool" where
  "tpc_ok pending issued w \<longleftrightarrow>
     coord_ok w \<and> (\<forall>q. part_ok pending issued w q) \<and> (\<forall>x\<in>set (w_net w). msg_ok w x) \<and> once w"

section \<open>The coordinator keeps the invariant\<close>

text \<open>
  A step of the coordinator on one transaction appends the records of a set \<open>S\<close> to its log
  and may change that transaction's entry. This lemma says when the invariant survives.
\<close>

lemma coord_ok_step:
  assumes ok: "coord_ok w" and known: "started w tx ps ops"
    and c': "log_ok (c_log c')" "log_file (c_log c') = None" "txn_counter c' = txn_counter (w_coord w)"
    and log: "\<And>tx' r'. logged (c_log c') tx' r' \<longleftrightarrow> logged (c_log (w_coord w)) tx' r' \<or> (tx' = tx \<and> r' \<in> S)"
    and S: "\<And>ps ops. TransactionStart ps ops \<notin> S"
      "\<And>b. Decision b \<in> S \<Longrightarrow> \<not> decided w tx (\<not> b) \<and> Decision (\<not> b) \<notin> S"
      "Decision True \<in> S \<Longrightarrow> distinct ps \<and> (\<forall>q\<in>set ps. voted w q tx)"
      "\<And>p. AckReceived p \<in> S \<Longrightarrow> p \<in> set ps \<and> (decided w tx False \<or> applied w p tx)"
      "TransactionComplete \<in> S \<Longrightarrow> decided w tx False \<or> all_applied w tx"
    and txns: "\<And>tx'. tx' \<noteq> tx \<Longrightarrow> fmlookup (c_txns c') tx' = fmlookup (c_txns (w_coord w)) tx'"
      "\<And>t. fmlookup (c_txns c') tx = Some t \<Longrightarrow> ctxn_ok (w\<lparr>w_coord := c'\<rparr>) tx t"
      "fmlookup (c_txns c') tx = None \<Longrightarrow>
        Decision False \<in> S \<or> decided w tx False \<or> all_applied w tx"
  shows "coord_ok (w\<lparr>w_coord := c'\<rparr>) \<and> grows w (w\<lparr>w_coord := c'\<rparr>)"
proof -
  let ?w = "w\<lparr>w_coord := c'\<rparr>"
  note D = coord_okD [OF ok]
  have st: "started ?w = started w" using S(1) by (auto simp: fun_eq_iff started_def log)
  have de: "decided ?w tx' b \<longleftrightarrow> decided w tx' b \<or> (tx' = tx \<and> Decision b \<in> S)" for tx' b
    by (simp add: decided_def log)
  have me: "member ?w = member w" "all_applied ?w = all_applied w"
    by (simp_all add: fun_eq_iff member_def all_applied_def st)
  have "grows w ?w" by (auto simp: grows_def log)
  moreover have "coord_ok ?w"
    unfolding coord_ok_def
  proof (intro conjI allI impI)
    fix tx' t assume t: "fmlookup (c_txns (w_coord ?w)) tx' = Some t"
    show "ctxn_ok ?w tx' t"
    proof (cases "tx' = tx")
      case True with t txns(2) show ?thesis by simp
    next
      case False
      with t txns(1) D(4) have "ctxn_ok w tx' t" by simp
      with False show ?thesis by (simp add: ctxn_ok_def st de)
    qed
  next
    fix tx' show "\<not> (decided ?w tx' True \<and> decided ?w tx' False)"
      using D(5) [of tx'] S(2) [of True] S(2) [of False] by (auto simp: de)
  next
    fix tx' ps' ops'
    assume "started ?w tx' ps' ops'" "fmlookup (c_txns (w_coord ?w)) tx' = None"
    then show "decided ?w tx' False \<or> all_applied ?w tx'"
      using D(6) [of tx' ps' ops'] txns(1,3) by (cases "tx' = tx") (auto simp: st de me)
  next
    fix tx' assume "decided ?w tx' True"
    then show "\<exists>ps ops. started ?w tx' ps ops \<and> distinct ps \<and> (\<forall>q\<in>set ps. voted ?w q tx')"
      using D(7) [of tx'] S(3) known by (auto simp: st de)
  next
    fix tx' p assume "logged (c_log (w_coord ?w)) tx' (AckReceived p)"
    then show "member ?w p tx'" "decided ?w tx' False \<or> applied ?w p tx'"
      using D(8) [of tx' p] S(4) [of p] known by (auto simp: log me de member_def)
  next
    fix tx' assume "logged (c_log (w_coord ?w)) tx' TransactionComplete"
    then show "decided ?w tx' False \<or> all_applied ?w tx'"
      using D(9) [of tx'] S(5) by (auto simp: log me de)
  next
    fix tx' r assume "logged (c_log (w_coord ?w)) tx' r"
    then show "\<exists>ps ops. started ?w tx' ps ops" using D(10) [of tx'] known by (auto simp: log st)
  next
    fix node ts k r assume "logged (c_log (w_coord ?w)) (TxnId node ts k) r"
    then have "\<exists>r. logged (c_log (w_coord w)) (TxnId node ts k) r"
      using known by (auto simp: log started_def)
    then have *: "ts \<le> w_now w \<and> k < txn_counter (w_coord w)" using D(11) by blast
    then show "ts \<le> w_now ?w" "k < txn_counter (w_coord ?w)" using c'(3) by auto
  qed (use D(3) c' in \<open>auto simp: st\<close>)
  ultimately show ?thesis by simp
qed

lemma log_file_append [simp]:
  "log_file (log_append now tx r l) = None \<longleftrightarrow> log_file l = None"
  "log_file (log_append_sync now tx r l) = None \<longleftrightarrow> log_file l = None"
  by (simp_all add: log_append_def log_append_sync_def log_sync_def persist_entry_def Let_def)

lemma ctxn_ok_facts:
  assumes "started (w\<lparr>w_coord := c\<rparr>) = started w" "decided (w\<lparr>w_coord := c\<rparr>) = decided w"
  shows "ctxn_ok (w\<lparr>w_coord := c\<rparr>) tx t = ctxn_ok w tx t"
  by (simp add: ctxn_ok_def assms)

lemma ctxn_okD:
  assumes "ctxn_ok w tx t"
  shows "started w tx (ct_participants t) (ct_operations t)"
    "fmlookup (ct_votes t) p = Some v \<Longrightarrow> p \<in> set (ct_participants t) \<and> (v = VoteCommit \<longrightarrow> voted w p tx)"
    "p |\<in>| ct_acks t \<Longrightarrow> p \<in> set (ct_participants t) \<and> (decided w tx False \<or> applied w p tx)"
    "ct_state t = Preparing \<Longrightarrow> \<not> decided w tx True \<and> \<not> decided w tx False"
    "ct_state t \<in> {Committing, Committed} \<Longrightarrow> decided w tx True"
    "ct_state t \<in> {Aborting, Aborted} \<Longrightarrow> decided w tx False"
    "ct_state t \<notin> {Started, Prepared, Unknown}" "ct_state t = Committed \<Longrightarrow> all_applied w tx"
  using assms by (auto simp: ctxn_ok_def all_applied_def)

text \<open>The vote of every participant, counted by number.\<close>

lemma card_le_distinct:
  assumes "fset A \<subseteq> set xs" "fcard A = length xs"
  shows "distinct xs \<and> fset A = set xs"
proof -
  have "card (fset A) \<le> card (set xs)" "card (set xs) \<le> length xs"
    using assms(1) by (auto intro: card_mono card_length)
  moreover have "card (fset A) = length xs" using assms(2) by (simp add: fcard.rep_eq)
  ultimately have "card (set xs) = length xs" "card (fset A) = card (set xs)" by auto
  then show ?thesis using assms(1) by (simp add: card_distinct card_subset_eq)
qed

lemma should_commit_all:
  assumes "ctxn_ok w tx t" "should_commit t"
  shows "distinct (ct_participants t) \<and> (\<forall>q\<in>set (ct_participants t). voted w q tx)"
proof -
  have v: "fmlookup (ct_votes t) p = Some VoteCommit" if "p |\<in>| fmdom (ct_votes t)" for p
    using that assms(2) by (auto simp: should_commit_def list_all_iff fmlookup_dom_iff)
  then have "fset (fmdom (ct_votes t)) \<subseteq> set (ct_participants t)"
    using ctxn_okD(2) [OF assms(1)] by fastforce
  from card_le_distinct [OF this] assms(2) v ctxn_okD(2) [OF assms(1)] show ?thesis
    by (fastforce simp: should_commit_def all_votes_received_def)
qed

lemma all_acks_all:
  assumes "ctxn_ok w tx t" "all_acks_received t"
  shows "decided w tx False \<or> all_applied w tx"
proof -
  have "fset (ct_acks t) \<subseteq> set (ct_participants t)" using ctxn_okD(3) [OF assms(1)] by blast
  from card_le_distinct [OF this] assms(2) have "fset (ct_acks t) = set (ct_participants t)"
    by (simp add: all_acks_received_def)
  then have "\<forall>q\<in>set (ct_participants t). decided w tx False \<or> applied w q tx"
    using ctxn_okD(3) [OF assms(1)] by auto
  with ctxn_okD(1) [OF assms(1)] show ?thesis by (auto simp: all_applied_def)
qed

text \<open>What a coordinator step leaves behind.\<close>

definition c_good :: "'s tpc_world \<Rightarrow> coord \<Rightarrow> (pid \<times> tpc_msg) list \<Rightarrow> bool" where
  "c_good w c' out \<longleftrightarrow>
     coord_ok (w\<lparr>w_coord := c'\<rparr>) \<and> grows w (w\<lparr>w_coord := c'\<rparr>) \<and>
     (\<forall>x\<in>set out. msg_ok (w\<lparr>w_coord := c'\<rparr>) x \<and> \<not> is_Prepare (snd x))"

lemma grows_refl [simp]: "grows w w"
  by (simp add: grows_def)

lemma grows_trans: "grows w w' \<Longrightarrow> grows w' w'' \<Longrightarrow> grows w w''"
  by (simp add: grows_def)

lemma c_good_trans:
  assumes "c_good w c1 out1" "c_good (w\<lparr>w_coord := c1\<rparr>) c2 out2"
  shows "c_good w c2 (out1 @ out2)"
proof -
  have g: "grows (w\<lparr>w_coord := c1\<rparr>) (w\<lparr>w_coord := c2\<rparr>)" using assms(2) by (simp add: c_good_def)
  have "\<forall>x\<in>set out1. msg_ok (w\<lparr>w_coord := c2\<rparr>) x \<and> \<not> is_Prepare (snd x)"
    using assms(1) msg_ok_mono [OF g] by (auto simp: c_good_def)
  with assms g show ?thesis by (auto simp: c_good_def intro: grows_trans)
qed

lemma c_good_refl: "coord_ok w \<Longrightarrow> c_good w (w_coord w) []"
  by (simp add: c_good_def)

text \<open>The statistics and the notifications do not matter.\<close>

lemma coord_ok_cong:
  assumes "c_log c' = c_log c" "c_txns c' = c_txns c" "txn_counter c' = txn_counter c"
  shows "coord_ok (w\<lparr>w_coord := c'\<rparr>) = coord_ok (w\<lparr>w_coord := c\<rparr>)"
    "started (w\<lparr>w_coord := c'\<rparr>) = started (w\<lparr>w_coord := c\<rparr>)"
    "decided (w\<lparr>w_coord := c'\<rparr>) = decided (w\<lparr>w_coord := c\<rparr>)"
proof -
  show st: "started (w\<lparr>w_coord := c'\<rparr>) = started (w\<lparr>w_coord := c\<rparr>)"
    "decided (w\<lparr>w_coord := c'\<rparr>) = decided (w\<lparr>w_coord := c\<rparr>)"
    using assms by (auto simp: fun_eq_iff started_def decided_def)
  then have "member (w\<lparr>w_coord := c'\<rparr>) = member (w\<lparr>w_coord := c\<rparr>)"
    "all_applied (w\<lparr>w_coord := c'\<rparr>) = all_applied (w\<lparr>w_coord := c\<rparr>)"
    "ctxn_ok (w\<lparr>w_coord := c'\<rparr>) = ctxn_ok (w\<lparr>w_coord := c\<rparr>)"
    by (intro ext; simp only: member_def all_applied_def ctxn_ok_def frame_facts)+
  with st assms show "coord_ok (w\<lparr>w_coord := c'\<rparr>) = coord_ok (w\<lparr>w_coord := c\<rparr>)"
    unfolding coord_ok_def by simp
qed

lemma c_good_cong:
  assumes "c_log c' = c_log c" "c_txns c' = c_txns c" "txn_counter c' = txn_counter c" "c_good w c out"
  shows "c_good w c' out"
proof -
  have "grows w (w\<lparr>w_coord := c'\<rparr>)" using assms by (simp add: c_good_def grows_def)
  moreover have "msg_ok (w\<lparr>w_coord := c'\<rparr>) x" if "msg_ok (w\<lparr>w_coord := c\<rparr>) x" for x
    using msg_ok_mono [OF _ that, of "w\<lparr>w_coord := c'\<rparr>"] assms(1) by (simp add: grows_def)
  ultimately show ?thesis using assms coord_ok_cong(1) [OF assms(1-3)] by (auto simp: c_good_def)
qed

text \<open>Changing the entry of a transaction, and appending a record that carries no obligation.\<close>

lemma c_good_put:
  assumes ok: "coord_ok w" and t: "ctxn_ok w tx t"
  shows "c_good w (c_put tx t (w_coord w)) []"
proof -
  let ?c = "c_put tx t (w_coord w)"
  have same: "started (w\<lparr>w_coord := ?c\<rparr>) = started w" "decided (w\<lparr>w_coord := ?c\<rparr>) = decided w"
    by (simp_all add: fun_eq_iff started_def decided_def)
  have "coord_ok (w\<lparr>w_coord := ?c\<rparr>) \<and> grows w (w\<lparr>w_coord := ?c\<rparr>)"
    using coord_okD(1,2) [OF ok] ctxn_okD(1) [OF t] t
    by (intro coord_ok_step [OF ok, where S = "{}"]) (auto simp: ctxn_ok_def same)
  then show ?thesis by (simp add: c_good_def)
qed

definition plain_record :: "log_record \<Rightarrow> bool" where
  "plain_record r \<longleftrightarrow> (case r of TransactionStart _ _ \<Rightarrow> False | Decision _ \<Rightarrow> False | AckReceived _ \<Rightarrow> False
     | TransactionComplete \<Rightarrow> False | _ \<Rightarrow> True)"

lemma c_good_append:
  assumes ok: "coord_ok w" and k: "started w tx ps ops" and r: "plain_record r"
  shows "c_good w (c_append now tx r (w_coord w)) []"
proof -
  let ?c = "c_append now tx r (w_coord w)"
  have same: "started (w\<lparr>w_coord := ?c\<rparr>) = started w" "decided (w\<lparr>w_coord := ?c\<rparr>) = decided w"
    using r by (auto simp: fun_eq_iff started_def decided_def plain_record_def)
  have "ctxn_ok (w\<lparr>w_coord := ?c\<rparr>) tx t" if "fmlookup (c_txns (w_coord w)) tx = Some t" for t
    using coord_okD(4) [OF ok that] by (simp add: ctxn_ok_def same)
  moreover have "decided w tx False \<or> all_applied w tx"
    if "fmlookup (c_txns (w_coord w)) tx = None"
    using coord_okD(6) [OF ok k that] .
  ultimately have "coord_ok (w\<lparr>w_coord := ?c\<rparr>) \<and> grows w (w\<lparr>w_coord := ?c\<rparr>)"
    using coord_okD(1,2) [OF ok] r
    by (intro coord_ok_step [OF ok k, where S = "{r}"]) (auto simp: plain_record_def log_ok_append)
  then show ?thesis by (simp add: c_good_def)
qed

text \<open>The loop that logs and sends the decision, as a function of its own.\<close>

fun send_decision :: "nat \<Rightarrow> txn_id \<Rightarrow> tpc_msg \<Rightarrow> pid list \<Rightarrow> coord \<Rightarrow> coord \<times> tpc_out" where
  "send_decision now tx msg [] c = (c, [])"
| "send_decision now tx msg (p # ps) c =
     (let (c', out) = send_decision now tx msg ps (c_append now tx (DecisionSent p) c)
      in (c', (p, msg) # out))"

lemma run_send_decision:
  "fold (run_effect now tx) (concat (map (\<lambda>p. [Log (DecisionSent p), Send p msg]) ps)) (c, out) =
    (let (c', out') = send_decision now tx msg ps c in (c', out @ out'))"
  by (induction ps arbitrary: c out) (simp_all add: Let_def split: prod.split)

lemma make_decision_eq:
  "make_decision now c tx =
     (case fmlookup (c_txns c) tx of
        None \<Rightarrow> (Inl (TransactionNotFound tx), c, [])
      | Some t \<Rightarrow>
          let commit = should_commit t;
              c1 = c_append_sync now tx (Decision commit) c;
              c2 = c_put tx (t\<lparr>ct_state := (if commit then Committing else Aborting),
                     ct_last_activity := now\<rparr>) c1;
              me = node_id (c_config c);
              msg = (if commit then CommitMsg tx me now
                     else AbortMsg tx me ''One or more participants voted to abort'');
              (c3, out) = send_decision now tx msg (ct_participants t) c2
          in (Inr (), c3, out))"
  by (simp add: make_decision_def run_effects_def decision_effects_def run_send_decision Let_def split: option.split prod.split)

lemma c_good_send_decision:
  assumes "send_decision now tx msg qs (w_coord w) = (c', out)" "coord_ok w" "started w tx ps ops"
    and "\<forall>q\<in>set qs. msg_ok w (q, msg)" "\<not> is_Prepare msg"
  shows "c_good w c' out"
  using assms
proof (induction qs arbitrary: w c' out)
  case Nil
  then show ?case using c_good_refl [of w] by auto
next
  case (Cons q qs)
  let ?c = "c_append now tx (DecisionSent q) (w_coord w)"
  let ?w = "w\<lparr>w_coord := ?c\<rparr>"
  obtain out2 where o: "send_decision now tx msg qs ?c = (c', out2)" "out = (q, msg) # out2"
    using Cons.prems(1) by (auto split: prod.splits)
  have g: "c_good w ?c []"
    using c_good_append [OF Cons.prems(2,3)] by (simp add: plain_record_def)
  then have gr: "grows w ?w" by (simp add: c_good_def)
  have "c_good ?w c' out2"
    using Cons.IH [of ?w c' out2] o(1) g Cons.prems(4,5) grows_mono(1) [OF gr Cons.prems(3)] msg_ok_mono [OF gr]
    by (simp add: c_good_def)
  moreover have "c_good w ?c [(q, msg)]"
    using g Cons.prems(4,5) msg_ok_mono [OF gr] by (simp add: c_good_def)
  ultimately show ?case using c_good_trans o(2) by fastforce
qed

text \<open>Logging a decision together with the new state of the transaction.\<close>

lemma c_good_decide:
  assumes ok: "coord_ok w" and t: "fmlookup (c_txns (w_coord w)) tx = Some t"
    and ok_t: "ct_state t = Preparing \<or> (ct_state t = Aborting \<and> \<not> b)"
    and b: "b \<Longrightarrow> distinct (ct_participants t) \<and> (\<forall>q\<in>set (ct_participants t). voted w q tx)"
    and c': "c_log c' = log_append_sync now tx (Decision b) (c_log (w_coord w))"
      "c_txns c' = fmupd tx (t\<lparr>ct_state := (if b then Committing else Aborting), ct_last_activity := n\<rparr>) (c_txns (w_coord w))"
      "txn_counter c' = txn_counter (w_coord w)"
  shows "c_good w c' []" "decided (w\<lparr>w_coord := c'\<rparr>) tx b" "started (w\<lparr>w_coord := c'\<rparr>) = started w"
proof -
  note T = ctxn_okD [OF coord_okD(4) [OF ok t]]
  have st: "started (w\<lparr>w_coord := c'\<rparr>) = started w" by (auto simp: fun_eq_iff started_def c')
  have de: "decided (w\<lparr>w_coord := c'\<rparr>) tx' b' \<longleftrightarrow> decided w tx' b' \<or> (tx' = tx \<and> b' = b)" for tx' b'
    by (auto simp: decided_def c')
  have no: "\<not> decided w tx (\<not> b)" using T(4,6) ok_t coord_okD(5) [OF ok, of tx] by (cases b) auto
  have t': "ctxn_ok (w\<lparr>w_coord := c'\<rparr>) tx (t\<lparr>ct_state := (if b then Committing else Aborting), ct_last_activity := n\<rparr>)"
    using coord_okD(4) [OF ok t] by (auto simp: ctxn_ok_def st de)
  have "coord_ok (w\<lparr>w_coord := c'\<rparr>) \<and> grows w (w\<lparr>w_coord := c'\<rparr>)"
    using coord_okD(1,2) [OF ok] no b t'
    by (intro coord_ok_step [OF ok T(1), where S = "{Decision b}"]) (auto simp: c' log_ok_append_sync)
  then show "c_good w c' []" by (simp add: c_good_def)
  show "decided (w\<lparr>w_coord := c'\<rparr>) tx b" by (simp add: de)
  show "started (w\<lparr>w_coord := c'\<rparr>) = started w" by (rule st)
qed

lemma decision_msg_ok:
  "decided w tx b \<Longrightarrow> started w tx ps ops \<Longrightarrow> q \<in> set ps \<Longrightarrow>
    msg_ok w (q, if b then CommitMsg tx me ts else AbortMsg tx me reason)"
  by (cases b) (auto intro: memberI)

lemma c_good_make_decision:
  assumes ok: "coord_ok w" and t: "fmlookup (c_txns (w_coord w)) tx = Some t" "ct_state t = Preparing"
    and r: "make_decision now (w_coord w) tx = (res, c', out)"
  shows "c_good w c' out"
proof -
  let ?b = "should_commit t" and ?me = "node_id (c_config (w_coord w))"
  let ?msg = "if ?b then CommitMsg tx ?me now else AbortMsg tx ?me ''One or more participants voted to abort''"
  let ?c = "c_put tx (t\<lparr>ct_state := (if ?b then Committing else Aborting), ct_last_activity := now\<rparr>)
      (c_append_sync now tx (Decision ?b) (w_coord w))"
  let ?w = "w\<lparr>w_coord := ?c\<rparr>"
  have T: "ctxn_ok w tx t" using coord_okD(4) [OF ok t(1)] .
  have g: "c_good w ?c []" "decided ?w tx ?b" "started ?w = started w"
    using c_good_decide [OF ok t(1), of ?b ?c now now] t(2) should_commit_all [OF T] by auto
  have send: "send_decision now tx ?msg (ct_participants t) (w_coord ?w) = (c', out)"
    using r t(1) by (auto simp: make_decision_eq Let_def split: prod.splits)
  have st: "started ?w tx (ct_participants t) (ct_operations t)" using g(3) ctxn_okD(1) [OF T] by simp
  then have "\<forall>q\<in>set (ct_participants t). msg_ok ?w (q, ?msg)"
    using decision_msg_ok [OF g(2) st] by blast
  moreover have "\<not> is_Prepare ?msg" by (cases ?b) auto
  moreover have "coord_ok ?w" using g(1) unfolding c_good_def by blast
  ultimately have "c_good ?w c' out" using c_good_send_decision [OF send _ st] by blast
  from c_good_trans [OF g(1) this] show ?thesis by simp
qed

lemma c_good_abort:
  assumes ok: "coord_ok w" and r: "c_abort_transaction now (w_coord w) tx reason = (res, c', out)"
  shows "c_good w c' out"
proof (cases "fmlookup (c_txns (w_coord w)) tx")
  case None
  with r ok show ?thesis using c_good_refl [of w] by (auto simp: c_abort_transaction_def)
next
  case (Some t)
  note T = ctxn_okD [OF coord_okD(4) [OF ok Some]]
  show ?thesis
  proof (cases "can_abort (ct_state t)")
    case False
    with Some r ok show ?thesis using c_good_refl [of w] by (auto simp: c_abort_transaction_def)
  next
    case True
    then have s: "ct_state t = Preparing \<or> (ct_state t = Aborting \<and> \<not> False)" using T(7) by (auto simp: can_abort_def)
    have c': "c_log c' = log_append_sync now tx (Decision False) (c_log (w_coord w))"
      "c_txns c' = fmupd tx (t\<lparr>ct_state := (if False then Committing else Aborting), ct_last_activity := now\<rparr>) (c_txns (w_coord w))"
      "txn_counter c' = txn_counter (w_coord w)"
      "out = map (\<lambda>p. (p, AbortMsg tx (node_id (c_config (w_coord w))) reason)) (ct_participants t)"
      using r Some True by (auto simp: c_abort_transaction_def Let_def)
    from c_good_decide [OF ok Some s _ c'(1-3)]
    have g: "c_good w c' []" "decided (w\<lparr>w_coord := c'\<rparr>) tx False" "started (w\<lparr>w_coord := c'\<rparr>) = started w" by auto
    with T(1) show ?thesis by (auto simp: c_good_def c'(4) member_def)
  qed
qed

lemma c_good_vote:
  assumes ok: "coord_ok w" and m: "msg_ok w (d, Vote tx p v lsn)"
    and r: "handle_vote now (w_coord w) (Vote tx p v lsn) = (res, c', out)"
  shows "c_good w c' out"
proof -
  let ?c1 = "c_append now tx (VoteReceived p v) (w_coord w)"
  let ?w1 = "w\<lparr>w_coord := ?c1\<rparr>"
  obtain ps ops where k: "started w tx ps ops" "p \<in> set ps" using m by (auto simp: member_def)
  have g1: "c_good w ?c1 []" by (rule c_good_append [OF ok k(1)]) (simp add: plain_record_def)
  then have ok1: "coord_ok ?w1" and gr1: "grows w ?w1" by (simp_all add: c_good_def)
  show ?thesis
  proof (cases "fmlookup (c_txns (w_coord w)) tx")
    case None
    with r g1 show ?thesis by (auto simp: handle_vote_def record_vote_def)
  next
    case (Some t)
    let ?t = "t\<lparr>ct_votes := fmupd p v (ct_votes t), ct_last_activity := now\<rparr>"
    let ?c2 = "c_put tx ?t ?c1"
    let ?w2 = "w\<lparr>w_coord := ?c2\<rparr>"
    show ?thesis
    proof (cases "ct_state t = Preparing")
      case False
      with Some r g1 show ?thesis by (auto simp: handle_vote_def record_vote_def Let_def)
    next
      case True
      have T: "ctxn_ok ?w1 tx t" using coord_okD(4) [OF ok1, of tx t] Some by simp
      have "ct_participants t = ps"
        using coord_okD(3) [OF ok1 ctxn_okD(1) [OF T] grows_mono(1) [OF gr1 k(1)]] by simp
      moreover have "v = VoteCommit \<longrightarrow> voted ?w1 p tx" using m by simp
      ultimately have "ctxn_ok ?w1 tx ?t" using T k(2) by (auto simp: ctxn_ok_def)
      from c_good_put [OF ok1 this] have "c_good ?w1 ?c2 []" by simp
      from c_good_trans [OF g1 this] have g2: "c_good w ?c2 []" by simp
      show ?thesis
      proof (cases "all_votes_received ?t")
        case False
        with Some True r g2 show ?thesis by (auto simp: handle_vote_def record_vote_def Let_def)
      next
        case True
        with Some \<open>ct_state t = Preparing\<close> r have "make_decision now (w_coord ?w2) tx = (res, c', out)"
          by (simp add: handle_vote_def record_vote_def Let_def)
        from c_good_make_decision [OF _ _ _ this, of ?t] g2 \<open>ct_state t = Preparing\<close>
        have "c_good ?w2 c' out" by (simp add: c_good_def)
        from c_good_trans [OF g2 this] show ?thesis by simp
      qed
    qed
  qed
qed

text \<open>Acknowledgements and completion.\<close>

lemma c_good_record_ack:
  assumes ok: "coord_ok w" and m: "member w p tx" "decided w tx False \<or> applied w p tx"
  shows "c_good w (c_append now tx (AckReceived p) (w_coord w)) []"
proof -
  let ?c = "c_append now tx (AckReceived p) (w_coord w)"
  obtain ps ops where k: "started w tx ps ops" "p \<in> set ps" using m(1) by (auto simp: member_def)
  have same: "started (w\<lparr>w_coord := ?c\<rparr>) = started w" "decided (w\<lparr>w_coord := ?c\<rparr>) = decided w"
    by (auto simp: fun_eq_iff started_def decided_def)
  have "ctxn_ok (w\<lparr>w_coord := ?c\<rparr>) tx t" if "fmlookup (c_txns (w_coord w)) tx = Some t" for t
    using coord_okD(4) [OF ok that] by (simp add: ctxn_ok_def same)
  moreover have "decided w tx False \<or> all_applied w tx"
    if "fmlookup (c_txns (w_coord w)) tx = None"
    using coord_okD(6) [OF ok k(1) that] .
  ultimately have "coord_ok (w\<lparr>w_coord := ?c\<rparr>) \<and> grows w (w\<lparr>w_coord := ?c\<rparr>)"
    using coord_okD(1,2) [OF ok] k m(2)
    by (intro coord_ok_step [OF ok k(1), where S = "{AckReceived p}"]) (auto simp: log_ok_append)
  then show ?thesis by (simp add: c_good_def)
qed

lemma c_good_complete:
  assumes ok: "coord_ok w" and t: "fmlookup (c_txns (w_coord w)) tx = Some t"
    and s: "ct_state t = Committing \<and> f = Committed \<or> ct_state t = Aborting \<and> f = Aborted"
    and acks: "all_acks_received t" and r: "complete_transaction now (w_coord w) tx f = (res, c')"
  shows "c_good w c' []"
proof -
  let ?t = "t\<lparr>ct_state := f, ct_waiter := False\<rparr>"
  let ?c = "c_put tx ?t (c_append_sync now tx TransactionComplete (w_coord w))"
  have T: "ctxn_ok w tx t" using coord_okD(4) [OF ok t] .
  have same: "started (w\<lparr>w_coord := ?c\<rparr>) = started w" "decided (w\<lparr>w_coord := ?c\<rparr>) = decided w"
    by (auto simp: fun_eq_iff started_def decided_def)
  have "f = Committed \<longrightarrow> (\<forall>p\<in>set (ct_participants t). applied w p tx)"
    using all_acks_all [OF T acks] ctxn_okD(1,5) [OF T] coord_okD(3,5) [OF ok] s unfolding all_applied_def by blast
  then have "ctxn_ok w tx ?t" using T s by (auto simp: ctxn_ok_def)
  then have "ctxn_ok (w\<lparr>w_coord := ?c\<rparr>) tx ?t" using ctxn_ok_facts [OF same] by blast
  then have "coord_ok (w\<lparr>w_coord := ?c\<rparr>) \<and> grows w (w\<lparr>w_coord := ?c\<rparr>)"
    using coord_okD(1,2) [OF ok] all_acks_all [OF T acks]
    by (intro coord_ok_step [OF ok ctxn_okD(1) [OF T], where S = "{TransactionComplete}"])
      (auto simp: log_ok_append_sync)
  then have g: "c_good w ?c []" by (simp add: c_good_def)
  show ?thesis
    by (rule c_good_cong [OF _ _ _ g]) (use r t in \<open>auto simp: complete_transaction_def Let_def\<close>)
qed

lemma c_good_ack:
  assumes ok: "coord_ok w" and m: "msg_ok w (d, Ack tx p success err)"
    and r: "handle_ack now (w_coord w) (Ack tx p success err) = (res, c', out)"
  shows "c_good w c' out"
proof -
  let ?c1 = "c_append now tx (AckReceived p) (w_coord w)"
  let ?w1 = "w\<lparr>w_coord := ?c1\<rparr>"
  have m': "member w p tx" "decided w tx False \<or> applied w p tx" using m by auto
  have g1: "c_good w ?c1 []" by (rule c_good_record_ack [OF ok m'])
  then have ok1: "coord_ok ?w1" and gr1: "grows w ?w1" by (simp_all add: c_good_def)
  show ?thesis
  proof (cases "\<exists>t. fmlookup (c_txns (w_coord w)) tx = Some t \<and> ct_state t \<in> {Committing, Aborting}")
    case False
    with r g1 show ?thesis by (auto simp: handle_ack_def Let_def split: option.splits)
  next
    case True
    then obtain t where t: "fmlookup (c_txns (w_coord w)) tx = Some t" "ct_state t \<in> {Committing, Aborting}" by blast
    let ?t = "t\<lparr>ct_acks := finsert p (ct_acks t), ct_last_activity := now\<rparr>"
    let ?c2 = "c_put tx ?t ?c1"
    let ?w2 = "w\<lparr>w_coord := ?c2\<rparr>"
    have T: "ctxn_ok ?w1 tx t" using coord_okD(4) [OF ok1, of tx t] t(1) by simp
    obtain ps ops where k: "started w tx ps ops" "p \<in> set ps" using m'(1) by (auto simp: member_def)
    have "ct_participants t = ps"
      using coord_okD(3) [OF ok1 ctxn_okD(1) [OF T] grows_mono(1) [OF gr1 k(1)]] by simp
    moreover have "decided ?w1 tx False \<or> applied ?w1 p tx" using m'(2) grows_mono(2,3) [OF gr1] by blast
    ultimately have "ctxn_ok ?w1 tx ?t" using T k(2) by (auto simp: ctxn_ok_def)
    from c_good_put [OF ok1 this] have "c_good ?w1 ?c2 []" by simp
    from c_good_trans [OF g1 this] have g2: "c_good w ?c2 []" by simp
    let ?f = "if ct_state t = Committing then Committed else Aborted"
    show ?thesis
    proof (cases "all_acks_received ?t")
      case False
      with t r g2 show ?thesis by (auto simp: handle_ack_def Let_def)
    next
      case True
      then have c: "complete_transaction now (w_coord ?w2) tx ?f = (res, c')" "out = []"
        using t r by (auto simp: handle_ack_def Let_def split: prod.splits)
      have "c_good ?w2 c' []"
        by (rule c_good_complete [OF _ _ _ True c(1)]) (use g2 t in \<open>auto simp: c_good_def\<close>)
      from c_good_trans [OF g2 this] c(2) show ?thesis by simp
    qed
  qed
qed

lemma status_query_ok:
  assumes ok: "coord_ok w" and m: "msg_ok w (d, QueryStatus tx q)"
    and r: "handle_status_query (w_coord w) (QueryStatus tx q) = Inr resp"
  shows "msg_ok w (q, resp) \<and> \<not> is_Prepare resp"
proof (cases "fmlookup (c_txns (w_coord w)) tx")
  case None
  obtain ps ops where k: "started w tx ps ops" "q \<in> set ps" using m by (auto simp: member_def)
  show ?thesis using r None m coord_okD(6) [OF ok k(1) None] by (auto simp: handle_status_query_def)
next
  case (Some t)
  with r m ctxn_okD(5-7) [OF coord_okD(4) [OF ok Some]] show ?thesis by (auto simp: handle_status_query_def)
qed

text \<open>Timeouts: the scan changes only counters, then overdue transactions are aborted.\<close>

lemma c_good_timeout_one:
  assumes ok: "coord_ok w" and t: "ctxn_ok w tx t" and r: "timeout_one now (w_coord w) tx t = (c', late)"
  shows "c_good w c' []"
proof -
  let ?t = "t\<lparr>ct_retries := ct_retries t + 1, ct_last_activity := now\<rparr>"
  have T: "ctxn_ok w tx ?t" using t by (simp add: ctxn_ok_def)
  have "c' = w_coord w \<or> (\<exists>s. c' = (w_coord w)\<lparr>c_stats := s\<rparr>) \<or> (\<exists>s. c' = (c_put tx ?t (w_coord w))\<lparr>c_stats := s\<rparr>)"
    using r by (auto simp: timeout_one_def Let_def split: transaction_state.splits if_splits)
  then show ?thesis
    using c_good_refl [OF ok] c_good_put [OF ok T] by (auto intro: c_good_cong [rotated 3])
qed

lemma timeout_one_log: "timeout_one now c tx t = (c', late) \<Longrightarrow> c_log c' = c_log c"
  by (auto simp: timeout_one_def Let_def split: transaction_state.splits if_splits)

lemma ctxn_ok_same_log:
  assumes "c_log c' = c_log (w_coord w)" shows "ctxn_ok (w\<lparr>w_coord := c'\<rparr>) tx t = ctxn_ok w tx t"
  using assms by (simp add: ctxn_ok_def started_def decided_def)

lemma c_good_timeout_scan:
  assumes "timeout_scan now (w_coord w) xs = (c', ids)" "coord_ok w" "\<forall>(tx, t)\<in>set xs. ctxn_ok w tx t"
  shows "c_good w c' []"
  using assms
proof (induction xs arbitrary: w c' ids)
  case Nil
  then show ?case using c_good_refl [of w] by auto
next
  case (Cons x xs)
  obtain tx t where x: "x = (tx, t)" by fastforce
  obtain c1 late where o: "timeout_one now (w_coord w) tx t = (c1, late)" by fastforce
  obtain ids' where sc: "timeout_scan now c1 xs = (c', ids')"
    using Cons.prems(1) x o by (auto split: prod.splits)
  have g1: "c_good w c1 []" using c_good_timeout_one [OF Cons.prems(2) _ o] Cons.prems(3) x by auto
  have "\<forall>(tx, t)\<in>set xs. ctxn_ok (w\<lparr>w_coord := c1\<rparr>) tx t"
    using Cons.prems(3) ctxn_ok_same_log [OF timeout_one_log [OF o]] by auto
  with Cons.IH [of "w\<lparr>w_coord := c1\<rparr>" c' ids'] sc g1 have "c_good (w\<lparr>w_coord := c1\<rparr>) c' []"
    by (simp add: c_good_def)
  from c_good_trans [OF g1 this] show ?case by simp
qed

lemma c_good_abort_all:
  assumes "abort_all now (w_coord w) txs = (c', out)" "coord_ok w"
  shows "c_good w c' out"
  using assms
proof (induction txs arbitrary: w c' out)
  case Nil
  then show ?case using c_good_refl [of w] by auto
next
  case (Cons tx txs)
  obtain r c1 out1 where a: "c_abort_transaction now (w_coord w) tx ''Prepare phase timeout'' = (r, c1, out1)"
    by (metis prod.collapse)
  obtain out2 where b: "abort_all now c1 txs = (c', out2)" "out = out1 @ out2"
    using Cons.prems(1) a by (auto split: prod.splits)
  have g1: "c_good w c1 out1" using c_good_abort [OF Cons.prems(2) a] .
  with Cons.IH [of "w\<lparr>w_coord := c1\<rparr>"] b(1) have "c_good (w\<lparr>w_coord := c1\<rparr>) c' out2" by (simp add: c_good_def)
  from c_good_trans [OF g1 this] b(2) show ?case by simp
qed

lemma c_good_timeouts:
  assumes ok: "coord_ok w" and r: "c_check_timeouts now (w_coord w) = (ids, c', out)"
  shows "c_good w c' out"
proof -
  obtain c1 where s: "timeout_scan now (w_coord w) (fm_entries (c_txns (w_coord w))) = (c1, ids)"
    and a: "abort_all now c1 ids = (c', out)"
    using r by (auto simp: c_check_timeouts_def Let_def split: prod.splits)
  have g1: "c_good w c1 []" by (rule c_good_timeout_scan [OF s ok]) (use coord_okD(4) [OF ok] in auto)
  with c_good_abort_all [of now "w\<lparr>w_coord := c1\<rparr>" ids c' out] a have "c_good (w\<lparr>w_coord := c1\<rparr>) c' out"
    by (simp add: c_good_def)
  from c_good_trans [OF g1 this] show ?thesis by simp
qed

text \<open>A new transaction: its id is fresh.\<close>

lemma fresh_txn:
  assumes "coord_ok w" shows "\<not> logged (c_log (w_coord w)) (TxnId node (w_now w) (txn_counter (w_coord w))) r"
  using coord_okD(11) [OF assms, of node "w_now w" "txn_counter (w_coord w)" r] by auto

lemma begin_ok:
  assumes ok: "coord_ok w" and r: "begin_transaction (w_now w) (w_coord w) ps ops = (res, c', out)"
  defines "tx \<equiv> TxnId (node_id (c_config (w_coord w))) (w_now w) (txn_counter (w_coord w))"
  shows "coord_ok (w\<lparr>w_coord := c'\<rparr>)" "grows w (w\<lparr>w_coord := c'\<rparr>)"
    "\<And>r. \<not> logged (c_log (w_coord w)) tx r"
    "started (w\<lparr>w_coord := c'\<rparr>) tx' ps' ops' \<longleftrightarrow> started w tx' ps' ops' \<or> (tx' = tx \<and> ps' = ps \<and> ops' = ops)"
    "\<exists>n. out = map (\<lambda>p. (p, Prepare tx n ps ops (w_now w))) ps"
proof -
  note D = coord_okD [OF ok]
  let ?w = "w\<lparr>w_coord := c'\<rparr>"
  show fresh: "\<And>r. \<not> logged (c_log (w_coord w)) tx r" using fresh_txn [OF ok] by (simp add: tx_def)
  have none: "fmlookup (c_txns (w_coord w)) tx = None"
    using ctxn_okD(1) [OF D(4) [of tx]] fresh by (cases "fmlookup (c_txns (w_coord w)) tx") (auto simp: started_def)
  let ?t = "(ct_new (w_now w) ps ops)\<lparr>ct_state := Preparing, ct_last_activity := w_now w\<rparr>"
  have c': "c_log c' = log_append (w_now w) tx PrepareSent (log_append_sync (w_now w) tx (TransactionStart ps ops) (c_log (w_coord w)))"
    "c_txns c' = fmupd tx ?t (c_txns (w_coord w))" "txn_counter c' = txn_counter (w_coord w) + 1"
    using r none by (auto simp: begin_transaction_def generate_txn_id_def start_prepare_phase_def Let_def tx_def [symmetric] ct_new_def)
  show out: "\<exists>n. out = map (\<lambda>p. (p, Prepare tx n ps ops (w_now w))) ps"
    using r none by (auto simp: begin_transaction_def generate_txn_id_def start_prepare_phase_def Let_def tx_def [symmetric] ct_new_def)
  have log: "logged (c_log c') tx' r' \<longleftrightarrow> logged (c_log (w_coord w)) tx' r' \<or> (tx' = tx \<and> r' \<in> {TransactionStart ps ops, PrepareSent})" for tx' r'
    by (auto simp: c')
  show gr: "grows w ?w" by (simp add: grows_def log)
  show st: "started ?w tx' ps' ops' \<longleftrightarrow> started w tx' ps' ops' \<or> (tx' = tx \<and> ps' = ps \<and> ops' = ops)" for tx' ps' ops'
    by (auto simp: started_def log)
  have de: "decided ?w = decided w" by (simp add: fun_eq_iff decided_def log)
  have nd: "\<not> decided w tx b" "\<not> started w tx ps' ops'" for b ps' ops' using fresh by (simp_all add: decided_def started_def)
  have "ctxn_ok ?w tx ?t" using nd by (simp add: ctxn_ok_def st de ct_new_def)
  moreover have "ctxn_ok ?w tx' t" if "fmlookup (c_txns (w_coord w)) tx' = Some t" for tx' t
    using D(4) [OF that] by (auto simp: ctxn_ok_def st de)
  ultimately have ct: "ctxn_ok ?w tx' t" if "fmlookup (c_txns c') tx' = Some t" for tx' t
    using that by (auto simp: c' split: if_splits)
  show "coord_ok ?w"
    unfolding coord_ok_def
  proof (intro conjI allI impI)
    show "log_ok (c_log (w_coord ?w))" "log_file (c_log (w_coord ?w)) = None"
      using D(1,2) by (simp_all add: c' log_ok_append log_ok_append_sync)
    fix tx' ps1 ops1 ps2 ops2 assume "started ?w tx' ps1 ops1" "started ?w tx' ps2 ops2"
    then show "ps2 = ps1" "ops2 = ops1" using D(3) [of tx' ps1 ops1 ps2 ops2] nd(2) by (auto simp: st)
  next
    fix tx' t assume "fmlookup (c_txns (w_coord ?w)) tx' = Some t" then show "ctxn_ok ?w tx' t" using ct by simp
  next
    fix tx' show "\<not> (decided ?w tx' True \<and> decided ?w tx' False)" using D(5) by (auto simp: de)
  next
    fix tx' ps1 ops1 assume "started ?w tx' ps1 ops1" "fmlookup (c_txns (w_coord ?w)) tx' = None"
    then show "decided ?w tx' False \<or> all_applied ?w tx'"
      using D(6) [of tx' ps1 ops1] grows_mono(6) [OF gr, of tx'] by (auto simp: st c' de split: if_splits)
  next
    fix tx' assume "decided ?w tx' True"
    then show "\<exists>ps ops. started ?w tx' ps ops \<and> distinct ps \<and> (\<forall>q\<in>set ps. voted ?w q tx')"
      using D(7) [of tx'] by (auto simp: st de)
  next
    fix tx' p assume "logged (c_log (w_coord ?w)) tx' (AckReceived p)"
    then have "logged (c_log (w_coord w)) tx' (AckReceived p)" by (simp add: log)
    from D(8) [OF this] grows_mono(5) [OF gr] show "member ?w p tx'" "decided ?w tx' False \<or> applied ?w p tx'"
      by (auto simp: de)
  next
    fix tx' assume "logged (c_log (w_coord ?w)) tx' TransactionComplete"
    then have "logged (c_log (w_coord w)) tx' TransactionComplete" by (simp add: log)
    from D(9) [OF this] grows_mono(6) [OF gr] show "decided ?w tx' False \<or> all_applied ?w tx'" by (auto simp: de)
  next
    fix tx' r assume "logged (c_log (w_coord ?w)) tx' r"
    then show "\<exists>ps ops. started ?w tx' ps ops" using D(10) [of tx' r] by (auto simp: log st)
  next
    fix node ts k r assume "logged (c_log (w_coord ?w)) (TxnId node ts k) r"
    then show "ts \<le> w_now ?w" "k < txn_counter (w_coord ?w)"
      using D(11) [of node ts k r] by (auto simp: log c' tx_def)
  qed
qed

text \<open>Recovery: what the scan of a transaction's entries finds.\<close>

definition records :: "log_entry list \<Rightarrow> log_record set" where
  "records es = le_record ` set es"

lemma scan_entries_snoc: "scan_entries (es @ [e]) = scan_entry e (scan_entries es)"
  by (simp add: scan_entries_def)

lemma scan_decision:
  "r_decision (scan_entries es) = Some b \<Longrightarrow> Decision b \<in> records es"
  "r_decision (scan_entries es) = None \<Longrightarrow> Decision b' \<notin> records es"
proof -
  have "(\<forall>b. r_decision (scan_entries es) = Some b \<longrightarrow> Decision b \<in> records es) \<and>
      (r_decision (scan_entries es) = None \<longrightarrow> (\<forall>b'. Decision b' \<notin> records es))"
  proof (induction es rule: rev_induct)
    case (snoc e es)
    then show ?case by (cases "le_record e") (auto simp: scan_entries_snoc scan_entry_def records_def)
  qed (simp add: scan_entries_def records_def)
  then show "r_decision (scan_entries es) = Some b \<Longrightarrow> Decision b \<in> records es"
    "r_decision (scan_entries es) = None \<Longrightarrow> Decision b' \<notin> records es" by auto
qed

lemma scan_acks: "p |\<in>| r_acks (scan_entries es) \<longleftrightarrow> AckReceived p \<in> records es"
proof (induction es rule: rev_induct)
  case (snoc e es)
  then show ?case by (cases "le_record e") (auto simp: scan_entries_snoc scan_entry_def records_def)
qed (simp add: scan_entries_def records_def)

lemma scan_entry_other:
  "(\<And>ps ops. le_record e \<noteq> TransactionStart ps ops) \<Longrightarrow>
    r_participants (scan_entry e r) = r_participants r \<and> r_operations (scan_entry e r) = r_operations r"
  by (cases "le_record e") (auto simp: scan_entry_def)

lemma scan_start:
  assumes "\<And>ps' ops'. TransactionStart ps' ops' \<in> records es \<Longrightarrow> ps' = ps \<and> ops' = ops"
    "TransactionStart ps ops \<in> records es"
  shows "r_participants (scan_entries es) = ps \<and> r_operations (scan_entries es) = ops"
  using assms
proof (induction es rule: rev_induct)
  case (snoc e es)
  have rec: "records (es @ [e]) = insert (le_record e) (records es)" by (simp add: records_def)
  show ?case
  proof (cases "\<exists>ps' ops'. le_record e = TransactionStart ps' ops'")
    case True
    then obtain ps' ops' where e: "le_record e = TransactionStart ps' ops'" by blast
    with snoc.prems(1) [of ps' ops'] have "le_record e = TransactionStart ps ops" by (simp add: rec)
    then show ?thesis by (simp add: scan_entries_snoc scan_entry_def)
  next
    case False
    have "ps' = ps \<and> ops' = ops" if "TransactionStart ps' ops' \<in> records es" for ps' ops'
      using snoc.prems(1) [of ps' ops'] that by (simp add: rec)
    moreover have "TransactionStart ps ops \<in> records es" using snoc.prems(2) False unfolding rec by (metis insertE)
    ultimately have "r_participants (scan_entries es) = ps \<and> r_operations (scan_entries es) = ops"
      by (rule snoc.IH)
    with False scan_entry_other [of e "scan_entries es"] show ?thesis by (simp add: scan_entries_snoc)
  qed
qed (simp add: records_def)

section \<open>Forgetting finished transactions\<close>

text \<open>The coordinator forgets a transaction only when it is aborted or applied everywhere.\<close>

lemma c_good_cleanup:
  assumes ok: "coord_ok w" and r: "c_cleanup_completed now (w_coord w) age = (k, c')"
  shows "c_good w c' []"
proof -
  note D = coord_okD [OF ok]
  let ?w = "w\<lparr>w_coord := c'\<rparr>"
  have c': "c_log c' = c_log (w_coord w)" "txn_counter c' = txn_counter (w_coord w)"
    "fmlookup (c_txns c') tx = Some t \<Longrightarrow> fmlookup (c_txns (w_coord w)) tx = Some t"
    "fmlookup (c_txns (w_coord w)) tx = Some t \<Longrightarrow> fmlookup (c_txns c') tx = None \<Longrightarrow> is_terminal (ct_state t)" for tx t
    using r by (auto simp: c_cleanup_completed_def Let_def split: if_splits option.splits)
  have st: "started ?w = started w" "decided ?w = decided w" by (simp_all add: fun_eq_iff started_def decided_def c')
  have me: "member ?w = member w" "all_applied ?w = all_applied w" by (simp_all add: fun_eq_iff member_def all_applied_def st)
  have ct: "ctxn_ok ?w = ctxn_ok w" by (simp add: fun_eq_iff ctxn_ok_def st me)
  have "decided w tx False \<or> all_applied w tx" if "started w tx ps ops" "fmlookup (c_txns c') tx = None" for tx ps ops
  proof (cases "fmlookup (c_txns (w_coord w)) tx")
    case None
    then show ?thesis using D(6) [OF that(1)] by simp
  next
    case (Some t)
    have "ct_state t = Committed \<or> ct_state t = Aborted" using c'(4) [OF Some that(2)] by (simp add: is_terminal_def)
    then show ?thesis using ctxn_okD(6,8) [OF D(4) [OF Some]] by auto
  qed
  then have "coord_ok ?w"
    using ok c'(3) unfolding coord_ok_def st me ct by (simp add: c'(1,2))
  then show ?thesis by (simp add: c_good_def grows_def c'(1))
qed

section \<open>Participants keep the invariant\<close>

lemma part_okD:
  assumes "part_ok pending issued w q"
  shows "p_node (w_parts w q) = q" "\<exists>f. lsn_map_ok pending issued w q f"
    "fmlookup (p_txns (w_parts w q)) tx = Some t \<Longrightarrow> got_prepare (w_parts w q) tx"
    "fmlookup (p_txns (w_parts w q)) tx = Some t \<Longrightarrow> voted w q tx \<Longrightarrow>
      \<exists>ps ops. started w tx ps ops \<and> (distinct ps \<longrightarrow> pt_prepared_lsn t \<noteq> None)"
    "applied w q tx \<Longrightarrow> decided w tx True" "voted w q tx \<Longrightarrow> got_prepare (w_parts w q) tx"
    "got_prepare (w_parts w q) tx \<Longrightarrow> member w q tx"
  using assms unfolding part_ok_def by blast+

text \<open>The invariant of a participant survives what happens elsewhere.\<close>

lemma lsn_map_ok_mono:
  assumes "lsn_map_ok pending issued w q f" "grows w w'" "w_parts w' q = w_parts w q"
  shows "lsn_map_ok pending issued w' q f"
proof -
  have "voted w' q tx \<Longrightarrow> voted w q tx" for tx using assms(3) by (simp add: voted_def)
  then show ?thesis
    using assms(1) grows_mono(1-3) [OF assms(2)] unfolding lsn_map_ok_def assms(3) by blast
qed

lemma part_ok_mono:
  assumes ok: "part_ok pending issued w q" and g: "grows w w'" and same: "w_parts w' q = w_parts w q"
  shows "part_ok pending issued w' q"
proof -
  have vo: "voted w' q tx = voted w q tx" "applied w' q tx = applied w q tx" for tx
    using same by (simp_all add: voted_def applied_def)
  obtain f where "lsn_map_ok pending issued w q f" using part_okD(2) [OF ok] by blast
  from lsn_map_ok_mono [OF this g same] have "\<exists>f. lsn_map_ok pending issued w' q f" by blast
  moreover have "got_prepare (w_parts w' q) tx \<and>
      (voted w' q tx \<longrightarrow> (\<exists>ps ops. started w' tx ps ops \<and> (distinct ps \<longrightarrow> pt_prepared_lsn t \<noteq> None)))"
    if "fmlookup (p_txns (w_parts w' q)) tx = Some t" for tx t
    using that part_okD(3,4) [OF ok, of tx t] grows_mono(1) [OF g] unfolding same vo by blast
  moreover have "applied w' q tx \<Longrightarrow> decided w' tx True" for tx
    using part_okD(5) [OF ok] grows_mono(2) [OF g] unfolding vo by blast
  moreover have "got_prepare (w_parts w' q) tx \<Longrightarrow> member w' q tx" for tx
    using part_okD(7) [OF ok] grows_mono(5) [OF g] unfolding same by blast
  ultimately show ?thesis
    using part_okD(1,6) [OF ok] unfolding part_ok_def same vo by blast
qed

text \<open>The coordinator's invariant survives what participants do.\<close>

lemma coord_ok_mono:
  assumes ok: "coord_ok w" and g: "grows w w'" and same: "w_coord w' = w_coord w" and now: "w_now w \<le> w_now w'"
  shows "coord_ok w'"
proof -
  have st: "started w' = started w" "decided w' = decided w"
    using same by (simp_all add: fun_eq_iff started_def decided_def)
  have me: "member w' = member w" by (simp add: fun_eq_iff member_def st)
  have ct: "ctxn_ok w' tx t" if "ctxn_ok w tx t" for tx t
    using that grows_mono(3,4) [OF g] unfolding ctxn_ok_def st by blast
  note D = coord_okD [OF ok] and G = grows_mono(3,4,6) [OF g]
  show ?thesis
    unfolding coord_ok_def st me same
  proof (intro conjI allI impI)
    fix tx assume "decided w tx True"
    then show "\<exists>ps ops. started w tx ps ops \<and> distinct ps \<and> (\<forall>q\<in>set ps. voted w' q tx)"
      using D(7) [of tx] G(2) by blast
  next
    fix node ts k r assume "logged (c_log (w_coord w)) (TxnId node ts k) r"
    from D(11) [OF this] now show "ts \<le> w_now w'" "k < txn_counter (w_coord w)" by auto
  next
    fix tx t assume "fmlookup (c_txns (w_coord w)) tx = Some t"
    from ct [OF D(4) [OF this]] show "ctxn_ok w' tx t" .
  next
    fix tx show "\<not> (decided w tx True \<and> decided w tx False)" using D(5) [of tx] by blast
  next
    fix tx ps ops assume "started w tx ps ops" "fmlookup (c_txns (w_coord w)) tx = None"
    from D(6) [OF this] G(3) [of tx] show "decided w tx False \<or> all_applied w' tx" by blast
  next
    fix tx p assume "logged (c_log (w_coord w)) tx (AckReceived p)"
    from D(8) [OF this] G(1) [of p tx] show "member w p tx" "decided w tx False \<or> applied w' p tx" by blast+
  next
    fix tx assume "logged (c_log (w_coord w)) tx TransactionComplete"
    from D(9) [OF this] G(3) [of tx] show "decided w tx False \<or> all_applied w' tx" by blast
  next
    fix tx r assume "logged (c_log (w_coord w)) tx r"
    from D(10) [OF this] show "\<exists>ps ops. started w tx ps ops" .
  next
    fix tx ps ops ps' ops' assume "started w tx ps ops" "started w tx ps' ops'"
    from D(3) [OF this] show "ps' = ps" "ops' = ops" by blast+
  qed (use D(1,2) in blast)+
qed

end
