(* ===== verification/Tpc_Agreement.thy ===== *)
theory Tpc_Agreement
  imports Tpc_System
begin

text \<open>
  The participants' side of the invariant of two-phase commit, for any storage that meets the contract
  \<open>participant_storage\<close>, and the invariant of the whole system.
\<close>

abbreviation set_part :: "'s tpc_world \<Rightarrow> pid \<Rightarrow> 's participant \<Rightarrow> 's tpc_world" where
  "set_part w q p \<equiv> w\<lparr>w_parts := (w_parts w)(q := p)\<rparr>"

lemma set_part_facts:
  "voted (set_part w q p) q tx \<longleftrightarrow> logged (p_log p) tx (VoteSent VoteCommit)"
  "applied (set_part w q p) q tx \<longleftrightarrow> logged (p_log p) tx Applied"
  by (simp_all add: voted_def applied_def)

lemma grows_part: "(\<And>tx r. logged (p_log (w_parts w q)) tx r \<Longrightarrow> logged (p_log p) tx r) \<Longrightarrow> grows w (set_part w q p)"
  by (simp add: grows_def)

text \<open>A participant's step that is not a prepare.\<close>

lemma part_ok_resolve:
  assumes ok: "part_ok pending issued w q" and node: "p_node p' = q"
    and log: "\<And>tx' r. logged (p_log p') tx' r \<longleftrightarrow> logged (p_log (w_parts w q)) tx' r \<or> (tx', r) \<in> S"
    and S: "\<And>tx' r. (tx', r) \<in> S \<Longrightarrow> r = Applied \<and> decided w tx' True \<or> (\<exists>b. r = DecisionReceived b)"
    and txns: "\<And>tx' t'. fmlookup (p_txns p') tx' = Some t' \<Longrightarrow>
      \<exists>t. fmlookup (p_txns (w_parts w q)) tx' = Some t \<and> pt_prepared_lsn t' = pt_prepared_lsn t"
    and iss: "issued (p_storage p') = issued (p_storage (w_parts w q))"
    and pend: "\<And>l. pending (p_storage p') l \<noteq> pending (p_storage (w_parts w q)) l \<Longrightarrow>
      \<exists>t. fmlookup (p_txns (w_parts w q)) tx = Some t \<and> pt_prepared_lsn t = Some l \<and>
        ((tx, Applied) \<in> S \<or> applied w q tx \<or> decided w tx False)"
  shows "grows w (set_part w q p')" "part_ok pending issued (set_part w q p') q"
    "got_prepare p' tx' = got_prepare (w_parts w q) tx'"
proof -
  let ?w = "set_part w q p'"
  show gr: "grows w ?w" by (rule grows_part) (simp add: log)
  have vo: "voted ?w q tx' = voted w q tx'" for tx'
    using S by (fastforce simp: set_part_facts(1) log voted_def)
  have ap: "applied ?w q tx' \<longleftrightarrow> applied w q tx' \<or> (tx', Applied) \<in> S" for tx'
    by (simp add: set_part_facts(2) log applied_def)
  show gp: "got_prepare p' tx' = got_prepare (w_parts w q) tx'" for tx'
    using S by (fastforce simp: got_prepare_logged log)
  obtain f where f: "lsn_map_ok pending issued w q f" using part_okD(2) [OF ok] by blast
  have "lsn_map_ok pending issued ?w q f"
    unfolding lsn_map_ok_def
  proof (intro conjI allI impI)
    fix tx' t' l assume "fmlookup (p_txns (w_parts ?w q)) tx' = Some t'" "pt_prepared_lsn t' = Some l"
    then obtain t where "fmlookup (p_txns (w_parts w q)) tx' = Some t" "pt_prepared_lsn t = Some l"
      using txns [of tx' t'] by auto
    then show "f tx' = Some l" using f unfolding lsn_map_ok_def by blast
  next
    fix tx' l assume "f tx' = Some l"
    then show "l \<in> issued (p_storage (w_parts ?w q))" using f iss by (auto simp: lsn_map_ok_def)
  next
    fix tx1 tx2 l assume "f tx1 = Some l" "f tx2 = Some l"
    then show "tx1 = tx2" using f unfolding lsn_map_ok_def by blast
  next
    fix tx' assume "voted ?w q tx'"
    then consider (done1) "applied w q tx' \<or> decided w tx' False"
      | (open1) ps ops l where "started w tx' ps ops" "f tx' = Some l" "pending (p_storage (w_parts w q)) l = Some ops"
      using f unfolding lsn_map_ok_def vo by blast
    then show "applied ?w q tx' \<or> decided ?w tx' False \<or>
        (\<exists>ps ops l. started ?w tx' ps ops \<and> f tx' = Some l \<and> pending (p_storage (w_parts ?w q)) l = Some ops)"
    proof cases
      case done1 then show ?thesis by (auto simp: ap)
    next
      case open1
      show ?thesis
      proof (cases "pending (p_storage p') l = pending (p_storage (w_parts w q)) l")
        case True with open1 show ?thesis by auto
      next
        case False
        from pend [OF this] obtain t where t: "fmlookup (p_txns (w_parts w q)) tx = Some t" "pt_prepared_lsn t = Some l"
          and r: "(tx, Applied) \<in> S \<or> applied w q tx \<or> decided w tx False" by blast
        have "f tx = Some l" using f t unfolding lsn_map_ok_def by blast
        with f open1(2) have "tx' = tx" unfolding lsn_map_ok_def by blast
        with r show ?thesis by (auto simp: ap)
      qed
    qed
  qed
  moreover have "got_prepare p' tx' \<and> (voted w q tx' \<longrightarrow>
      (\<exists>ps ops. started w tx' ps ops \<and> (distinct ps \<longrightarrow> pt_prepared_lsn t' \<noteq> None)))"
    if t': "fmlookup (p_txns p') tx' = Some t'" for tx' t'
  proof -
    obtain t where t: "fmlookup (p_txns (w_parts w q)) tx' = Some t" "pt_prepared_lsn t' = pt_prepared_lsn t"
      using txns [OF t'] by blast
    show ?thesis using part_okD(3,4) [OF ok t(1)] unfolding gp t(2) by blast
  qed
  moreover have "decided w tx' True" if "applied ?w q tx'" for tx'
    using that part_okD(5) [OF ok] S unfolding ap by blast
  ultimately show "part_ok pending issued ?w q"
    using part_okD(6,7) [OF ok] node unfolding part_ok_def vo by (auto simp: gp)
qed

lemma p_set_state_frame [simp]:
  "p_node (p_set_state now tx s p) = p_node p" "p_log (p_set_state now tx s p) = p_log p"
  "p_storage (p_set_state now tx s p) = p_storage p" "p_stats (p_set_state now tx s p) = p_stats p"
  by (simp_all add: p_set_state_def split: option.split)

lemma p_set_state_lsn:
  "fmlookup (p_txns (p_set_state now tx s p)) tx' = Some t' \<Longrightarrow>
    \<exists>t. fmlookup (p_txns p) tx' = Some t \<and> pt_prepared_lsn t' = pt_prepared_lsn t"
  by (auto simp: p_set_state_def split: option.splits if_splits)

text \<open>What a participant's step leaves behind.\<close>

definition p_good :: "('s \<Rightarrow> nat \<Rightarrow> txn_op list option) \<Rightarrow> ('s \<Rightarrow> nat set) \<Rightarrow> 's tpc_world \<Rightarrow> pid \<Rightarrow>
    's participant \<Rightarrow> (pid \<times> tpc_msg) list \<Rightarrow> bool" where
  "p_good pending issued w q p' out \<longleftrightarrow>
     grows w (set_part w q p') \<and> part_ok pending issued (set_part w q p') q \<and>
     (\<forall>x\<in>set out. msg_ok (set_part w q p') x \<and> \<not> is_Prepare (snd x)) \<and>
     (\<forall>tx. got_prepare p' tx = got_prepare (w_parts w q) tx)"

context participant_storage
begin

lemma p_good_commit:
  assumes c: "coord_ok w" and ok: "part_ok pending issued w q"
    and m: "member w q tx" "decided w tx True"
    and r: "handle_commit st now (w_parts w q) (CommitMsg tx cid ts) = (res, p', out)"
  shows "p_good pending issued w q p' out"
proof -
  let ?p = "w_parts w q"
  have node: "p_node ?p = q" using part_okD(1) [OF ok] .
  show ?thesis
  proof (cases "fmlookup (p_txns ?p) tx")
    case None
    then have p': "out = []" "p_node p' = q" "p_storage p' = p_storage ?p" "p_txns p' = p_txns ?p"
      "logged (p_log p') tx' r \<longleftrightarrow> logged (p_log ?p) tx' r \<or> (tx', r) \<in> {(tx, DecisionReceived True)}" for tx' r
      using r node by (auto simp: handle_commit_def Let_def)
    from part_ok_resolve [OF ok p'(2), of "{(tx, DecisionReceived True)}" tx, OF p'(5)] p'(1,3,4)
    show ?thesis unfolding p_good_def by auto
  next
    case (Some t)
    obtain ps ops where k: "started w tx ps ops" "distinct ps" "\<forall>q\<in>set ps. voted w q tx"
      using coord_okD(7) [OF c m(2)] by blast
    have "q \<in> set ps" using m(1) coord_okD(3) [OF c k(1)] by (auto simp: member_def)
    with k(3) have v: "voted w q tx" by blast
    with part_okD(4) [OF ok Some] coord_okD(3) [OF c k(1)] k(2) obtain l where l: "pt_prepared_lsn t = Some l"
      by (metis option.exhaust)
    obtain f where f: "lsn_map_ok pending issued w q f" using part_okD(2) [OF ok] by blast
    have fl: "f tx = Some l" using f Some l unfolding lsn_map_ok_def by blast
    have "applied w q tx \<or> (\<exists>ops. pending (p_storage ?p) l = Some ops)"
      using f v coord_okD(5) [OF c m(2)] fl unfolding lsn_map_ok_def by (metis option.inject)
    moreover obtain cr s' where sc: "st_commit st (p_storage ?p) l = (cr, s')" by fastforce
    ultimately have ap: "applied w q tx \<or> cr = Inr ()"
      using commit_pending by (metis prod.inject)
    let ?S = "{(tx, DecisionReceived True)} \<union> (if cr = Inr () then {(tx, Applied)} else {})"
    have p': "p_node p' = q" "p_storage p' = s'"
      "logged (p_log p') tx' r \<longleftrightarrow> logged (p_log ?p) tx' r \<or> (tx', r) \<in> ?S" for tx' r
      using r node Some l sc by (auto simp: handle_commit_def Let_def split: sum.splits)
    have out: "\<exists>b e. out = [(cid, Ack tx q b e)]"
      using r node Some l sc by (auto simp: handle_commit_def Let_def split: sum.splits)
    have txns: "\<exists>t. fmlookup (p_txns ?p) tx' = Some t \<and> pt_prepared_lsn t' = pt_prepared_lsn t"
      if "fmlookup (p_txns p') tx' = Some t'" for tx' t'
      using that r node Some l sc
      by (auto simp: handle_commit_def Let_def split: sum.splits dest!: p_set_state_lsn)
    have S: "r = Applied \<and> decided w tx' True \<or> (\<exists>b. r = DecisionReceived b)" if "(tx', r) \<in> ?S" for tx' r
      using that m(2) by (auto split: if_splits)
    have iss: "issued (p_storage p') = issued (p_storage ?p)"
      unfolding p'(2) using commit_other(2) [OF sc, of "Suc l"] by simp
    have pend: "\<exists>t. fmlookup (p_txns ?p) tx = Some t \<and> pt_prepared_lsn t = Some l' \<and>
        ((tx, Applied) \<in> ?S \<or> applied w q tx \<or> decided w tx False)"
      if "pending (p_storage p') l' \<noteq> pending (p_storage ?p) l'" for l'
    proof -
      have "l' = l" using that commit_other(1) [OF sc, of l'] unfolding p'(2) by blast
      with Some l ap show ?thesis by auto
    qed
    note R = part_ok_resolve [OF ok p'(1,3) S txns iss pend]
    have "applied (set_part w q p') q tx"
      using ap p'(3) by (auto simp: set_part_facts(2) applied_def)
    then show ?thesis using m(1) out R by (auto simp: p_good_def)
  qed
qed

lemma p_good_abort:
  assumes ok: "part_ok pending issued w q"
    and m: "member w q tx" "decided w tx False \<or> applied w q tx"
    and r: "handle_abort st now (w_parts w q) (AbortMsg tx cid reason) = (res, p', out)"
  shows "p_good pending issued w q p' out"
proof -
  let ?p = "w_parts w q"
  let ?S = "{(tx, DecisionReceived False)}"
  have node: "p_node ?p = q" using part_okD(1) [OF ok] .
  have log: "logged (p_log p') tx' r \<longleftrightarrow> logged (p_log ?p) tx' r \<or> (tx', r) \<in> ?S" for tx' r
    using r by (auto simp: handle_abort_def Let_def split: option.splits prod.splits sum.splits)
  have node': "p_node p' = q" and out: "\<exists>b e. out = [(cid, Ack tx q b e)]"
    using r node by (auto simp: handle_abort_def Let_def split: option.splits prod.splits sum.splits)
  have txns: "\<exists>t. fmlookup (p_txns ?p) tx' = Some t \<and> pt_prepared_lsn t' = pt_prepared_lsn t"
    if "fmlookup (p_txns p') tx' = Some t'" for tx' t'
    using that r
    by (auto simp: handle_abort_def Let_def split: option.splits prod.splits sum.splits dest!: p_set_state_lsn)
  have st': "p_storage p' = (case Option.bind (fmlookup (p_txns ?p) tx) pt_prepared_lsn of
      Some l \<Rightarrow> snd (st_rollback st (p_storage ?p) l) | None \<Rightarrow> p_storage ?p)"
    using r by (auto simp: handle_abort_def Let_def split: option.splits prod.splits sum.splits)
  have iss: "issued (p_storage p') = issued (p_storage ?p)"
    unfolding st' using rollback_release by (auto split: option.split) (metis prod.collapse)+
  have pend: "\<exists>t. fmlookup (p_txns ?p) tx = Some t \<and> pt_prepared_lsn t = Some l \<and>
      ((tx, Applied) \<in> ?S \<or> applied w q tx \<or> decided w tx False)"
    if ne: "pending (p_storage p') l \<noteq> pending (p_storage ?p) l" for l
  proof (cases "Option.bind (fmlookup (p_txns ?p) tx) pt_prepared_lsn")
    case None
    with ne st' show ?thesis by simp
  next
    case (Some l')
    then obtain t where t: "fmlookup (p_txns ?p) tx = Some t" "pt_prepared_lsn t = Some l'"
      by (auto simp: bind_eq_Some_conv)
    obtain rr s' where "st_rollback st (p_storage ?p) l' = (rr, s')" by fastforce
    with rollback_release [OF this] Some ne st' have "l = l'" by (auto split: if_splits)
    with t m(2) show ?thesis by auto
  qed
  have S: "r = Applied \<and> decided w tx' True \<or> (\<exists>b. r = DecisionReceived b)" if "(tx', r) \<in> ?S" for tx' r
    using that by blast
  note R = part_ok_resolve [OF ok node' log S txns iss pend]
  have "decided (set_part w q p') tx False \<or> applied (set_part w q p') q tx"
    using m(2) grows_mono(2,3) [OF R(1)] by blast
  then show ?thesis using m(1) out R by (auto simp: p_good_def)
qed

lemma p_good_status:
  assumes c: "coord_ok w" and ok: "part_ok pending issued w q" and m: "msg_ok w (q, StatusResponse tx s cid)"
    and r: "handle_status_response st now (w_parts w q) (StatusResponse tx s cid) = (res, p', out)"
  shows "p_good pending issued w q p' out"
proof -
  have keep: "p_good pending issued w q (w_parts w q) []" using ok by (simp add: p_good_def)
  have mem: "member w q tx" using m by simp
  then obtain ps ops where k: "started w tx ps ops" "q \<in> set ps" unfolding member_def by blast
  have app: "applied w q tx" if "all_applied w tx"
  proof -
    obtain ps' ops' where "started w tx ps' ops'" "\<forall>q\<in>set ps'. applied w q tx"
      using \<open>all_applied w tx\<close> unfolding all_applied_def by blast
    with coord_okD(3) [OF c k(1)] k(2) show ?thesis by blast
  qed
  show ?thesis
  proof (cases s)
    case Committed
    with r m p_good_commit [OF c ok mem] show ?thesis by (auto simp: handle_status_response_def)
  next
    case Aborted
    with r m p_good_abort [OF ok mem] show ?thesis by (auto simp: handle_status_response_def)
  next
    case Unknown
    with m app have "decided w tx False \<or> applied w q tx" by auto
    with Unknown r p_good_abort [OF ok mem] show ?thesis by (auto simp: handle_status_response_def)
  qed (use r keep in \<open>auto simp: handle_status_response_def\<close>)
qed

text \<open>A prepare: the number is fresh, so every other prepared transaction is left alone.\<close>

lemma prepare_ok_part:
  assumes ok: "part_ok pending issued w q" and k: "started w tx ps ops" "q \<in> set ps"
    and first: "distinct ps \<Longrightarrow> \<not> got_prepare (w_parts w q) tx"
    and r: "handle_prepare st now (w_parts w q) (Prepare tx cid ps ops ts) = (res, p', out)"
  shows "grows w (set_part w q p')" "part_ok pending issued (set_part w q p') q"
    "\<forall>x\<in>set out. msg_ok (set_part w q p') x \<and> \<not> is_Prepare (snd x)"
    "got_prepare p' tx' \<longleftrightarrow> got_prepare (w_parts w q) tx' \<or> tx' = tx"
proof -
  let ?p = "w_parts w q" and ?w = "set_part w q p'"
  obtain sr s' where sp: "st_prepare st (p_storage ?p) ops = (sr, s')" by fastforce
  let ?v = "case sr of Inr _ \<Rightarrow> VoteCommit | Inl _ \<Rightarrow> VoteAbort"
  let ?l = "case sr of Inr l \<Rightarrow> Some l | Inl _ \<Rightarrow> None"
  have node: "p_node ?p = q" using part_okD(1) [OF ok] .
  have p': "p_node p' = q" "p_storage p' = s'" "out = [(cid, Vote tx q ?v ?l)]"
    "\<And>tx' r. logged (p_log p') tx' r \<longleftrightarrow> logged (p_log ?p) tx' r \<or> (tx' = tx \<and> r \<in> {PrepareReceived cid, VoteSent ?v})"
    "\<And>tx'. tx' \<noteq> tx \<Longrightarrow> fmlookup (p_txns p') tx' = fmlookup (p_txns ?p) tx'"
    "map_option pt_prepared_lsn (fmlookup (p_txns p') tx) = Some ?l"
    using r node sp by (auto simp: handle_prepare_def Let_def split: sum.splits prod.splits)
  show gr: "grows w ?w" by (rule grows_part) (simp add: p'(4))
  have vo: "voted ?w q tx' \<longleftrightarrow> voted w q tx' \<or> (tx' = tx \<and> ?v = VoteCommit)" for tx'
    by (auto simp: set_part_facts(1) p'(4) voted_def)
  have ap: "applied ?w q tx' = applied w q tx'" for tx' by (simp add: set_part_facts(2) p'(4) applied_def)
  show gp: "got_prepare p' tx' \<longleftrightarrow> got_prepare ?p tx' \<or> tx' = tx" for tx'
    by (auto simp: got_prepare_logged p'(4))
  have mem: "member ?w q tx" using k grows_mono(5) [OF gr] by (auto intro: memberI)
  then show "\<forall>x\<in>set out. msg_ok ?w x \<and> \<not> is_Prepare (snd x)" by (simp add: p'(3) vo)
  obtain f where f: "lsn_map_ok pending issued w q f" using part_okD(2) [OF ok] by blast
  have "\<exists>f. lsn_map_ok pending issued ?w q f"
  proof (cases sr)
    case (Inr l)
    note P = prepare_ok [OF sp [unfolded Inr]]
    let ?f = "f(tx := Some l)"
    have fresh: "f tx' \<noteq> Some l" for tx' using f P unfolding lsn_map_ok_def by blast
    have "lsn_map_ok pending issued ?w q ?f"
      unfolding lsn_map_ok_def
    proof (intro conjI allI impI)
      fix tx' t l' assume "fmlookup (p_txns (w_parts ?w q)) tx' = Some t" "pt_prepared_lsn t = Some l'"
      then show "?f tx' = Some l'" using f p'(5,6) Inr unfolding lsn_map_ok_def by (cases "tx' = tx") auto
    next
      fix tx' l' assume "?f tx' = Some l'"
      then show "l' \<in> issued (p_storage (w_parts ?w q))" using f P unfolding lsn_map_ok_def by (auto simp: p'(2) split: if_splits)
    next
      fix tx1 tx2 l' assume "?f tx1 = Some l'" "?f tx2 = Some l'"
      then show "tx1 = tx2" using f fresh unfolding lsn_map_ok_def by (auto split: if_splits)
    next
      fix tx' assume v: "voted ?w q tx'"
      show "applied ?w q tx' \<or> decided ?w tx' False \<or>
        (\<exists>ps ops l. started ?w tx' ps ops \<and> ?f tx' = Some l \<and> pending (p_storage (w_parts ?w q)) l = Some ops)"
      proof (cases "tx' = tx")
        case True with k(1) P show ?thesis by (auto simp: p'(2))
      next
        case False
        with v have "voted w q tx'" by (simp add: vo)
        then have "applied w q tx' \<or> decided w tx' False \<or>
          (\<exists>ps ops l. started w tx' ps ops \<and> f tx' = Some l \<and> pending (p_storage ?p) l = Some ops)"
          using f unfolding lsn_map_ok_def by blast
        with False fresh P show ?thesis by (auto simp: ap p'(2)) metis
      qed
    qed
    then show ?thesis by blast
  next
    case (Inl e)
    note P = prepare_err [OF sp [unfolded Inl]]
    have "lsn_map_ok pending issued ?w q f"
      unfolding lsn_map_ok_def
    proof (intro conjI allI impI)
      fix tx' t l' assume "fmlookup (p_txns (w_parts ?w q)) tx' = Some t" "pt_prepared_lsn t = Some l'"
      then show "f tx' = Some l'" using f p'(5,6) Inl unfolding lsn_map_ok_def by (cases "tx' = tx") auto
    next
      fix tx' l' assume "f tx' = Some l'"
      then show "l' \<in> issued (p_storage (w_parts ?w q))" using f P unfolding lsn_map_ok_def by (auto simp: p'(2))
    next
      fix tx1 tx2 l' assume "f tx1 = Some l'" "f tx2 = Some l'"
      then show "tx1 = tx2" using f unfolding lsn_map_ok_def by blast
    next
      fix tx' assume "voted ?w q tx'"
      then have "voted w q tx'" using Inl by (simp add: vo)
      with f P show "applied ?w q tx' \<or> decided ?w tx' False \<or>
        (\<exists>ps ops l. started ?w tx' ps ops \<and> f tx' = Some l \<and> pending (p_storage (w_parts ?w q)) l = Some ops)"
        unfolding lsn_map_ok_def by (simp add: ap p'(2))
    qed
    then show ?thesis by blast
  qed
  moreover have "\<exists>ps ops. started w tx' ps ops \<and> (distinct ps \<longrightarrow> pt_prepared_lsn t \<noteq> None)"
    if t: "fmlookup (p_txns p') tx' = Some t" and v: "voted ?w q tx'" for tx' t
  proof (cases "tx' = tx")
    case False
    with t v p'(5) part_okD(4) [OF ok] show ?thesis by (simp add: vo)
  next
    case True
    have "pt_prepared_lsn t \<noteq> None" if "distinct ps"
    proof -
      have "\<not> voted w q tx" using first [OF that] part_okD(6) [OF ok] by blast
      with v True have "?v = VoteCommit" by (simp add: vo)
      with t True p'(6) show ?thesis by (auto split: sum.splits)
    qed
    with k(1) True show ?thesis by blast
  qed
  ultimately show "part_ok pending issued ?w q"
    using part_okD(3,5,6,7) [OF ok] p'(1,5) mem unfolding part_ok_def
    by (simp add: gp ap vo) (metis (full_types) frame_derived(3))
qed

end

section \<open>Timeouts and cleanup of participants\<close>

lemma p_good_timeouts:
  assumes ok: "part_ok pending issued w q" and r: "p_check_timeouts now (w_parts w q) = (ids, p', out)"
  shows "p_good pending issued w q p' out"
proof -
  let ?p = "w_parts w q"
  have node: "p_node ?p = q" using part_okD(1) [OF ok] .
  have p': "p_node p' = q" "p_storage p' = p_storage ?p" "p_txns p' = p_txns ?p"
    "\<And>tx r. logged (p_log p') tx r \<longleftrightarrow> logged (p_log ?p) tx r \<or> (tx, r) \<in> {}"
    using r node by (auto simp: p_check_timeouts_def Let_def)
  have R: "grows w (set_part w q p')" "part_ok pending issued (set_part w q p') q"
    "\<And>tx. got_prepare p' tx = got_prepare ?p tx"
    using part_ok_resolve [OF ok p'(1,4)] p'(2,3) by auto
  have "\<exists>cid tx t. x = (cid, QueryStatus tx q) \<and> fmlookup (p_txns ?p) tx = Some t" if "x \<in> set out" for x
    using r that node by (auto simp: p_check_timeouts_def Let_def)
  then have "msg_ok (set_part w q p') x \<and> \<not> is_Prepare (snd x)" if "x \<in> set out" for x
    using that part_okD(3,7) [OF ok] by fastforce
  with R show ?thesis by (simp add: p_good_def)
qed

lemma p_good_cleanup:
  assumes ok: "part_ok pending issued w q" and r: "p_cleanup_completed now (w_parts w q) age = (k, p')"
  shows "p_good pending issued w q p' []"
proof -
  let ?p = "w_parts w q"
  have p': "p_node p' = q" "p_storage p' = p_storage ?p" "\<And>tx t. fmlookup (p_txns p') tx = Some t \<Longrightarrow> fmlookup (p_txns ?p) tx = Some t"
    "\<And>tx r. logged (p_log p') tx r \<longleftrightarrow> logged (p_log ?p) tx r \<or> (tx, r) \<in> {}"
    using r part_okD(1) [OF ok] by (auto simp: p_cleanup_completed_def Let_def split: if_splits)
  have "grows w (set_part w q p')" "part_ok pending issued (set_part w q p') q" "\<And>tx. got_prepare p' tx = got_prepare ?p tx"
    using part_ok_resolve [OF ok p'(1,4)] p'(2,3) by auto
  then show ?thesis by (simp add: p_good_def)
qed

section \<open>The whole system\<close>

lemma prepares_append: "prepares (xs @ ys) q tx = prepares xs q tx + prepares ys q tx"
  by (simp add: prepares_def)

lemma prepares_none: "\<forall>x\<in>set xs. \<not> is_Prepare (snd x) \<Longrightarrow> prepares xs q tx = 0"
  by (simp add: prepares_def prepare_for_def filter_empty_conv)

lemma length_filter_remove1:
  "x \<in> set xs \<Longrightarrow> P x \<Longrightarrow> length (filter P (remove1 x xs)) = length (filter P xs) - 1"
  "length (filter P (remove1 x xs)) \<le> length (filter P xs)"
  by (simp_all add: filter_remove1 length_remove1)

lemma prepares_remove1: "prepares (remove1 x xs) q tx \<le> prepares xs q tx"
  by (simp add: prepares_def length_filter_remove1(2))

lemma prepares_remove1_same:
  "(q, Prepare tx cid ps ops ts) \<in> set xs \<Longrightarrow>
    prepares (remove1 (q, Prepare tx cid ps ops ts) xs) q tx = prepares xs q tx - 1"
  unfolding prepares_def by (rule length_filter_remove1(1)) (simp_all add: prepare_for_def)

lemma prepares_pos: "(q, Prepare tx cid ps ops ts) \<in> set xs \<Longrightarrow> 0 < prepares xs q tx"
  by (force simp: prepares_def prepare_for_def filter_empty_conv)

lemma once_subnet:
  assumes "once w" "set N \<subseteq> set (w_net w)" "\<And>q tx. prepares N q tx \<le> prepares (w_net w) q tx"
    and "\<forall>x\<in>set out. \<not> is_Prepare (snd x)" "\<And>q tx. got_prepare (w_parts w' q) tx = got_prepare (w_parts w q) tx"
    and "w_net w' = N @ out"
  shows "once w'"
  unfolding once_def
proof (intro allI impI)
  fix q tx cid ps ops ts assume m: "(q, Prepare tx cid ps ops ts) \<in> set (w_net w')" "distinct ps"
  have "(q, Prepare tx cid ps ops ts) \<notin> set out" using assms(4) by fastforce
  with m(1) assms(2,6) have "(q, Prepare tx cid ps ops ts) \<in> set (w_net w)" by auto
  with assms(1) m(2) have "prepares (w_net w) q tx \<le> 1" "\<not> got_prepare (w_parts w q) tx"
    unfolding once_def by blast+
  with assms(3) [of q tx] assms(5) show "prepares (w_net w') q tx \<le> 1 \<and> \<not> got_prepare (w_parts w' q) tx"
    by (simp add: assms(6) prepares_append prepares_none [OF assms(4)])
qed

text \<open>A step of the coordinator that sends no prepare, possibly consuming a message.\<close>

lemma tpc_ok_coord:
  assumes ok: "tpc_ok pending issued w" and base: "grows w w0" "w_parts w0 = w_parts w" and g: "c_good w0 c' out"
    and N: "set N \<subseteq> set (w_net w)" "\<And>q tx. prepares N q tx \<le> prepares (w_net w) q tx"
  shows "tpc_ok pending issued (w0\<lparr>w_coord := c', w_net := N @ out\<rparr>)"
proof -
  let ?w = "w0\<lparr>w_coord := c'\<rparr>" and ?w' = "w0\<lparr>w_coord := c', w_net := N @ out\<rparr>"
  have gr: "grows w ?w" using base(1) g grows_trans by (auto simp: c_good_def)
  then have gr': "grows w ?w'" by (simp add: grows_def)
  have "coord_ok ?w" using g by (simp add: c_good_def)
  then have "coord_ok ?w'" by (rule coord_ok_mono) (simp_all add: grows_def)
  moreover have "part_ok pending issued ?w' q" for q
    using ok base(2) by (intro part_ok_mono [OF _ gr']) (auto simp: tpc_ok_def)
  moreover have "msg_ok ?w' x" if "x \<in> set (N @ out)" for x
  proof -
    have "msg_ok w x \<or> msg_ok ?w x" using that N(1) ok g by (auto simp: tpc_ok_def c_good_def)
    moreover have "msg_ok ?w x \<Longrightarrow> msg_ok ?w' x" by simp
    ultimately show ?thesis using msg_ok_mono [OF gr'] by blast
  qed
  moreover have "once ?w'"
    by (rule once_subnet [of w N out]) (use ok g N base in \<open>auto simp: tpc_ok_def c_good_def\<close>)
  ultimately show ?thesis by (simp add: tpc_ok_def)
qed

text \<open>A step of a participant other than a prepare.\<close>

lemma tpc_ok_part:
  assumes ok: "tpc_ok pending issued w" and g: "p_good pending issued w q p' out"
    and N: "set N \<subseteq> set (w_net w)" "\<And>q tx. prepares N q tx \<le> prepares (w_net w) q tx"
  shows "tpc_ok pending issued (w\<lparr>w_parts := (w_parts w)(q := p'), w_net := N @ out\<rparr>)"
proof -
  let ?w = "set_part w q p'" and ?w' = "w\<lparr>w_parts := (w_parts w)(q := p'), w_net := N @ out\<rparr>"
  have g': "grows w ?w" "part_ok pending issued ?w q" "\<forall>x\<in>set out. msg_ok ?w x \<and> \<not> is_Prepare (snd x)"
    "\<forall>tx. got_prepare p' tx = got_prepare (w_parts w q) tx" using g by (auto simp: p_good_def)
  have gr: "grows w ?w'" "grows ?w ?w'" using g'(1) by (simp_all add: grows_def)
  have "coord_ok ?w'" by (rule coord_ok_mono [OF _ gr(1)]) (use ok in \<open>auto simp: tpc_ok_def\<close>)
  moreover have "part_ok pending issued ?w' q'" for q'
    using part_ok_mono [OF g'(2) gr(2)] part_ok_mono [OF _ gr(1), of pending issued q'] ok
    by (cases "q' = q") (auto simp: tpc_ok_def)
  moreover have "msg_ok ?w' x" if "x \<in> set (N @ out)" for x
  proof -
    have "msg_ok w x \<or> msg_ok ?w x" using that N(1) ok g'(3) by (auto simp: tpc_ok_def)
    with msg_ok_mono [OF gr(1)] msg_ok_mono [OF gr(2)] show ?thesis by blast
  qed
  moreover have "once ?w'"
    by (rule once_subnet [of w N out]) (use ok g' N in \<open>auto simp: tpc_ok_def\<close>)
  ultimately show ?thesis by (simp add: tpc_ok_def)
qed

lemma tpc_ok_begin:
  assumes ok: "tpc_ok pending issued w"
    and r: "begin_transaction (w_now w) (w_coord w) ps ops = (res, c', out)"
  shows "tpc_ok pending issued (w\<lparr>w_coord := c', w_net := w_net w @ out\<rparr>)"
proof -
  have co: "coord_ok w" using ok by (simp add: tpc_ok_def)
  let ?w = "w\<lparr>w_coord := c'\<rparr>" and ?w' = "w\<lparr>w_coord := c', w_net := w_net w @ out\<rparr>"
  let ?tx = "TxnId (node_id (c_config (w_coord w))) (w_now w) (txn_counter (w_coord w))"
  note B = begin_ok [OF co r]
  obtain n where out: "out = map (\<lambda>p. (p, Prepare ?tx n ps ops (w_now w))) ps" using B(5) by blast
  have gr: "grows w ?w'" using B(2) by (simp add: grows_def)
  have fresh: "\<not> member w q ?tx" "\<not> started w ?tx ps' ops'" for q ps' ops'
    using B(3) by (auto simp: member_def started_def)
  have "coord_ok ?w'" by (rule coord_ok_mono [OF B(1)]) (simp_all add: grows_def)
  moreover have "part_ok pending issued ?w' q" for q
    using ok by (intro part_ok_mono [OF _ gr]) (auto simp: tpc_ok_def)
  moreover have "msg_ok ?w' x" if x: "x \<in> set (w_net w @ out)" for x
  proof (cases "x \<in> set out")
    case True
    have "started ?w ?tx ps ops" using B(4) by blast
    with True show ?thesis by (auto simp: out)
  next
    case False
    with x ok have "msg_ok w x" by (auto simp: tpc_ok_def)
    then show ?thesis by (rule msg_ok_mono [OF gr])
  qed
  moreover have "once ?w'"
    unfolding once_def
  proof (intro allI impI)
    fix q tx cid ps' ops' ts
    assume m: "(q, Prepare tx cid ps' ops' ts) \<in> set (w_net ?w')" "distinct ps'"
    show "prepares (w_net ?w') q tx \<le> 1 \<and> \<not> got_prepare (w_parts ?w' q) tx"
    proof (cases "tx = ?tx")
      case False
      then have "prepares out q tx = 0" by (auto simp: out prepares_def prepare_for_def filter_empty_conv)
      moreover have "(q, Prepare tx cid ps' ops' ts) \<in> set (w_net w)" using m(1) False by (auto simp: out)
      with ok m(2) have "prepares (w_net w) q tx \<le> 1 \<and> \<not> got_prepare (w_parts w q) tx"
        unfolding tpc_ok_def once_def by blast
      ultimately show ?thesis by (simp add: prepares_append)
    next
      case True
      have "msg_ok w x" if "x \<in> set (w_net w)" for x using ok that by (auto simp: tpc_ok_def)
      then have "\<not> prepare_for q ?tx x" if "x \<in> set (w_net w)" for x
        using that fresh(2) by (cases x; cases "snd x") (fastforce simp: prepare_for_def)+
      then have "prepares (w_net w) q tx = 0" using True by (simp add: prepares_def filter_empty_conv)
      moreover have "(q, Prepare tx cid ps' ops' ts) \<in> set out"
        using m(1) \<open>prepares (w_net w) q tx = 0\<close> prepares_pos [of q tx cid ps' ops' ts "w_net w"] by auto
      then have "distinct ps" using m(2) by (auto simp: out)
      then have "prepares out q tx \<le> 1"
        using distinct_filter [of ps "\<lambda>p. p = q"] True
        by (simp add: out prepares_def prepare_for_def filter_map comp_def length_filter_le distinct_length_filter card_le_Suc0_iff_eq)
      moreover have "\<not> got_prepare (w_parts w q) tx"
        using ok fresh(1) [of q] True part_okD(7) [of pending issued w q tx] by (auto simp: tpc_ok_def)
      ultimately show ?thesis by (simp add: prepares_append)
    qed
  qed
  ultimately show ?thesis by (simp add: tpc_ok_def)
qed

lemma tpc_okD:
  assumes "tpc_ok pending issued w"
  shows "coord_ok w" "part_ok pending issued w q" "x \<in> set (w_net w) \<Longrightarrow> msg_ok w x" "once w"
  using assms by (auto simp: tpc_ok_def)

lemma remove1_net: "set (remove1 x N) \<subseteq> set N"
  by (rule set_remove1_subset)

lemma tpc_ok_coord_receive:
  assumes ok: "tpc_ok pending issued w" and m: "(d, m) \<in> set (w_net w)"
    and r: "coord_receive (w_now w) (w_coord w) m = (c', out)"
  shows "tpc_ok pending issued (w\<lparr>w_coord := c', w_net := remove1 (d, m) (w_net w) @ out\<rparr>)"
proof -
  note D = tpc_okD(1) [OF ok] and M = tpc_okD(3) [OF ok m]
  have "c_good w c' out"
  proof (cases m)
    case (Vote tx p v lsn)
    obtain res where "handle_vote (w_now w) (w_coord w) m = (res, c', out)"
      using r Vote by (auto simp: coord_receive_def) (metis prod.collapse)
    with c_good_vote [OF D] M Vote show ?thesis by blast
  next
    case (Ack tx p b e)
    obtain res where "handle_ack (w_now w) (w_coord w) m = (res, c', out)"
      using r Ack by (auto simp: coord_receive_def) (metis prod.collapse)
    with c_good_ack [OF D] M Ack show ?thesis by blast
  next
    case (QueryStatus tx q)
    have "\<forall>x\<in>set out. msg_ok w x \<and> \<not> is_Prepare (snd x)" "c' = w_coord w"
      using r QueryStatus status_query_ok [OF D M [unfolded QueryStatus]]
      by (auto simp: coord_receive_def split: sum.splits)
    with c_good_refl [OF D] show ?thesis by (simp add: c_good_def)
  qed (use r c_good_refl [OF D] in \<open>auto simp: coord_receive_def\<close>)
  from tpc_ok_coord [OF ok grows_refl refl this remove1_net prepares_remove1] show ?thesis by simp
qed

context participant_storage
begin

lemma tpc_ok_prepare:
  assumes ok: "tpc_ok pending issued w" and m: "(q, Prepare tx cid ps ops ts) \<in> set (w_net w)"
    and r: "handle_prepare st (w_now w) (w_parts w q) (Prepare tx cid ps ops ts) = (res, p', out)"
  shows "tpc_ok pending issued (w\<lparr>w_parts := (w_parts w)(q := p'),
    w_net := remove1 (q, Prepare tx cid ps ops ts) (w_net w) @ out\<rparr>)"
proof -
  let ?N = "remove1 (q, Prepare tx cid ps ops ts) (w_net w)"
  let ?w = "set_part w q p'" and ?w' = "w\<lparr>w_parts := (w_parts w)(q := p'), w_net := ?N @ out\<rparr>"
  note D = tpc_okD [OF ok]
  have k: "started w tx ps ops" "q \<in> set ps" using D(3) [OF m] by auto
  have first: "distinct ps \<Longrightarrow> \<not> got_prepare (w_parts w q) tx" using D(4) m unfolding once_def by blast
  note P = prepare_ok_part [OF D(2) k first r]
  have gr: "grows w ?w'" "grows ?w ?w'" using P(1) by (simp_all add: grows_def)
  have "coord_ok ?w'" by (rule coord_ok_mono [OF D(1) gr(1)]) simp_all
  moreover have "part_ok pending issued ?w' q'" for q'
    using part_ok_mono [OF P(2) gr(2)] part_ok_mono [OF D(2) gr(1), of q'] by (cases "q' = q") auto
  moreover have "msg_ok ?w' x" if "x \<in> set (?N @ out)" for x
  proof -
    have "x \<in> set (w_net w) \<or> x \<in> set out" using that remove1_net by fastforce
    then have "msg_ok w x \<or> msg_ok ?w x" using P(3) D(3) by blast
    with msg_ok_mono [OF gr(1)] msg_ok_mono [OF gr(2)] show ?thesis by blast
  qed
  moreover have "once ?w'"
    unfolding once_def
  proof (intro allI impI)
    fix q' tx' cid' ps' ops' ts'
    assume m': "(q', Prepare tx' cid' ps' ops' ts') \<in> set (w_net ?w')" "distinct ps'"
    have "(q', Prepare tx' cid' ps' ops' ts') \<notin> set out" using P(3) by fastforce
    with m'(1) have inN: "(q', Prepare tx' cid' ps' ops' ts') \<in> set ?N" by simp
    then have "(q', Prepare tx' cid' ps' ops' ts') \<in> set (w_net w)" using notin_set_remove1 by fast
    with D(4) m'(2) have o: "prepares (w_net w) q' tx' \<le> 1" "\<not> got_prepare (w_parts w q') tx'"
      unfolding once_def by blast+
    have "\<not> (q' = q \<and> tx' = tx)"
      using prepares_remove1_same [OF m] prepares_pos [OF inN] o(1) by auto
    then have "\<not> got_prepare (w_parts ?w' q') tx'" using o(2) P(4) by auto
    moreover have "prepares out q' tx' = 0" using P(3) by (intro prepares_none) blast
    ultimately show "prepares (w_net ?w') q' tx' \<le> 1 \<and> \<not> got_prepare (w_parts ?w' q') tx'"
      using o(1) prepares_remove1 [of "(q, Prepare tx cid ps ops ts)" "w_net w" q' tx'] by (simp add: prepares_append)
  qed
  ultimately show ?thesis by (simp add: tpc_ok_def)
qed

lemma tpc_ok_part_receive:
  assumes ok: "tpc_ok pending issued w" and m: "(d, m) \<in> set (w_net w)"
    and r: "part_receive st (w_now w) (w_parts w d) m = (p', out)"
  shows "tpc_ok pending issued (w\<lparr>w_parts := (w_parts w)(d := p'), w_net := remove1 (d, m) (w_net w) @ out\<rparr>)"
proof -
  note D = tpc_okD [OF ok] and M = tpc_okD(3) [OF ok m]
  note go = tpc_ok_part [OF ok _ remove1_net prepares_remove1, of d]
  have keep: "p_good pending issued w d (w_parts w d) []" using D(2) by (simp add: p_good_def)
  show ?thesis
  proof (cases m)
    case (Prepare tx cid ps ops ts)
    obtain res where "handle_prepare st (w_now w) (w_parts w d) m = (res, p', out)"
      using r Prepare by (auto simp: part_receive_def) (metis prod.collapse)
    with tpc_ok_prepare [OF ok] m Prepare show ?thesis by blast
  next
    case (CommitMsg tx cid ts)
    obtain res where "handle_commit st (w_now w) (w_parts w d) m = (res, p', out)"
      using r CommitMsg by (auto simp: part_receive_def) (metis prod.collapse)
    with p_good_commit [OF D(1,2)] M CommitMsg show ?thesis by (intro go) auto
  next
    case (AbortMsg tx cid reason)
    obtain res where "handle_abort st (w_now w) (w_parts w d) m = (res, p', out)"
      using r AbortMsg by (auto simp: part_receive_def) (metis prod.collapse)
    with p_good_abort [OF D(2)] M AbortMsg show ?thesis by (intro go) auto
  next
    case (StatusResponse tx s cid)
    obtain res where "handle_status_response st (w_now w) (w_parts w d) m = (res, p', out)"
      using r StatusResponse by (auto simp: part_receive_def) (metis prod.collapse)
    with p_good_status [OF D(1,2)] M StatusResponse show ?thesis by (intro go) blast
  qed (use r go [OF keep] in \<open>auto simp: part_receive_def\<close>)
qed

lemma tpc_ok_step: "tpc_step st w w' \<Longrightarrow> tpc_ok pending issued w \<Longrightarrow> tpc_ok pending issued w'"
proof (induction rule: tpc_step.induct)
  case (t_tick w)
  let ?w = "w\<lparr>w_now := w_now w + 1\<rparr>"
  note D = tpc_okD [OF t_tick]
  have gr: "grows w ?w" by (simp add: grows_def)
  have "coord_ok ?w"
    by (rule coord_ok_mono [OF D(1) gr]) simp_all
  then show ?case
    using D(2,3,4) part_ok_mono [OF D(2) gr] by (simp add: tpc_ok_def once_def)
next
  case (t_lose x w)
  have "c_good w (w_coord w) []" using c_good_refl [OF tpc_okD(1) [OF t_lose(2)]] .
  from tpc_ok_coord [OF t_lose(2) grows_refl refl this remove1_net prepares_remove1, of x] show ?case by simp
next
  case (t_begin w ps ops r c' out)
  then show ?case by (rule tpc_ok_begin [rotated])
next
  case (t_coord d m w c' out)
  then show ?case by (metis tpc_ok_coord_receive)
next
  case (t_part d m w p' out)
  then show ?case by (metis tpc_ok_part_receive)
next
  case (t_timeouts w ids c' out)
  then show ?case
    using tpc_ok_coord [OF t_timeouts(2) grows_refl refl c_good_timeouts [OF tpc_okD(1) [OF t_timeouts(2)] t_timeouts(1)]]
    by simp
next
  case (t_abort w tx reason r c' out)
  then show ?case
    using tpc_ok_coord [OF t_abort(2) grows_refl refl c_good_abort [OF tpc_okD(1) [OF t_abort(2)] t_abort(1)]]
    by simp
next
  case (t_cleanup w age k c')
  have "c_good w c' []" using c_good_cleanup [OF tpc_okD(1) [OF t_cleanup(2)] t_cleanup(1)] .
  from tpc_ok_coord [OF t_cleanup(2) grows_refl refl this, of "w_net w"] show ?case by simp
next
  case (t_p_timeouts w d ids p' out)
  then show ?case
    using tpc_ok_part [OF t_p_timeouts(2) p_good_timeouts [OF tpc_okD(2) [OF t_p_timeouts(2)] t_p_timeouts(1)]] by simp
next
  case (t_p_cleanup w d age k p')
  have "p_good pending issued w d p' []" using p_good_cleanup [OF tpc_okD(2) [OF t_p_cleanup(2)] t_p_cleanup(1)] .
  from tpc_ok_part [OF t_p_cleanup(2) this, of "w_net w"] show ?case by simp
qed

lemma tpc_ok_init: "tpc_ok pending issued (tpc_init cfg timeout st0)"
proof -
  let ?w = "tpc_init cfg timeout st0 :: 's tpc_world"
  have l: "logged (c_log (w_coord ?w)) tx r = False" "logged (p_log (w_parts ?w q)) tx r = False" for tx r q
    by (simp_all add: tpc_init_def coord_new_def logged_def participant_new_def log_new_def Let_def)
  have "coord_ok ?w"
    unfolding coord_ok_def started_def decided_def l
    using log_ok_new by (simp add: tpc_init_def coord_new_def log_new_def)
  moreover have "part_ok pending issued ?w q" for q
    unfolding part_ok_def lsn_map_ok_def voted_def applied_def got_prepare_logged l
    by (auto simp: tpc_init_def participant_new_def intro: exI [of _ "\<lambda>_. None"])
  ultimately show ?thesis by (simp add: tpc_ok_def once_def) (simp add: tpc_init_def)
qed

lemma tpc_reachable_ok: "tpc_reachable st cfg timeout st0 w \<Longrightarrow> tpc_ok pending issued w"
  by (induction rule: tpc_reachable.induct) (auto intro: tpc_ok_init tpc_ok_step)

text \<open>
  Atomic commitment: when a participant has applied a transaction, the decision is commit and only
  commit, every participant voted for it, and each has applied it or still holds its operations prepared.
\<close>

lemma atomic_commitment:
  assumes w: "tpc_reachable st cfg timeout st0 w" and k: "started w tx ps ops"
    and a: "applied w p tx" "q \<in> set ps"
  shows "decided w tx True \<and> \<not> decided w tx False \<and> voted w q tx \<and>
    (applied w q tx \<or> (\<exists>l. pending (p_storage (w_parts w q)) l = Some ops))"
proof -
  note D = tpc_okD [OF tpc_reachable_ok [OF w]]
  have d: "decided w tx True" using part_okD(5) [OF D(2) a(1)] .
  then have nd: "\<not> decided w tx False" using coord_okD(5) [OF D(1)] by blast
  have v: "voted w q tx" using coord_okD(7) [OF D(1) d] coord_okD(3) [OF D(1) k] a(2) by blast
  obtain f where "lsn_map_ok pending issued w q f" using part_okD(2) [OF D(2)] by blast
  then have "applied w q tx \<or> (\<exists>ps' ops' l. started w tx ps' ops' \<and> pending (p_storage (w_parts w q)) l = Some ops')"
    using v nd unfolding lsn_map_ok_def by blast
  with coord_okD(3) [OF D(1) k] d nd v show ?thesis by blast
qed

end

end
