(* ===== verification/Tpc_Props.thy ===== *)
theory Tpc_Props
  imports Tpc_Agreement
begin

text \<open>
  The properties of two-phase commit: atomic commitment over lossy networks, unanimity of a commit, the order in which a decision
  is logged and sent, recovery, the effect on the participant's data, and the situations in which the implementation loses an
  agreed commit or takes one back: a lost message, a restart, the gap between two locks.
\<close>

section \<open>Agreement\<close>

text \<open>
  C2: Atomic commitment. However messages are lost, delayed or reordered and whichever nodes stop, as long as handlers run one
  at a time and no node restarts: once one participant has applied a transaction, the coordinator's log
  has the decision to commit and none to abort, every participant voted for it, and every
  participant has applied it or still holds exactly its operations prepared in its storage.
\<close>
theorem tpc_atomic_commitment:
  assumes "tpc_reachable mem_ops cfg timeout mem_new w" "started w tx ps ops" "applied w p tx" "q \<in> set ps"
  shows "decided w tx True \<and> \<not> decided w tx False \<and> voted w q tx \<and>
    (applied w q tx \<or> (\<exists>l. fmlookup (ms_prepared (p_storage (w_parts w q))) l = Some ops))"
  by (rule mem.atomic_commitment [OF assms])

text \<open>A run with one participant: it prepares, votes, and applies the commit.\<close>

abbreviation ex_tx :: txn_id where "ex_tx \<equiv> TxnId '''' 0 1"
abbreviation ex_ops :: "txn_op list" where "ex_ops \<equiv> [Put [1] [2]]"
abbreviation ex_prepare :: tpc_msg where "ex_prepare \<equiv> Prepare ex_tx '''' [''a''] ex_ops 0"
abbreviation ex_vote :: tpc_msg where "ex_vote \<equiv> Vote ex_tx ''a'' VoteCommit (Some 1)"
abbreviation ex_commit :: tpc_msg where "ex_commit \<equiv> CommitMsg ex_tx '''' 0"

definition ex_c1 :: coord where
  "ex_c1 = fst (snd (begin_transaction 0 (coord_new default_config) [''a''] ex_ops))"

definition ex_p1 :: "mem_storage participant" where
  "ex_p1 = fst (snd (handle_prepare mem_ops 0 (participant_new ''a'' 30000 mem_new) ex_prepare))"

definition ex_c2 :: coord where
  "ex_c2 = fst (snd (handle_vote 0 ex_c1 ex_vote))"

definition ex_p2 :: "mem_storage participant" where
  "ex_p2 = fst (snd (handle_commit mem_ops 0 ex_p1 ex_commit))"

lemmas ex_begin_defs = begin_transaction_def generate_txn_id_def start_prepare_phase_def Let_def
  coord_new_def default_config_def ct_new_def

lemma ex_begin:
  "begin_transaction 0 (coord_new default_config) [''a''] ex_ops = (Inr ex_tx, ex_c1, [(''a'', ex_prepare)])"
  "fmlookup (c_txns ex_c1) ex_tx = Some ((ct_new 0 [''a''] ex_ops)\<lparr>ct_state := Preparing\<rparr>)"
  "node_id (c_config ex_c1) = ''''" "logged (c_log ex_c1) ex_tx (TransactionStart [''a''] ex_ops)"
  by (simp_all add: ex_c1_def ex_begin_defs del: One_nat_def)

lemmas ex_prepare_defs = handle_prepare_def mem_ops_def mem_prepare_def mem_new_def participant_new_def Let_def pt_new_def

lemma ex_prepared:
  "handle_prepare mem_ops 0 (participant_new ''a'' 30000 mem_new) ex_prepare = (Inr (), ex_p1, [('''', ex_vote)])"
  "map_option pt_prepared_lsn (fmlookup (p_txns ex_p1) ex_tx) = Some (Some 1)"
  by (simp_all add: ex_p1_def ex_prepare_defs)

lemma ex_voted:
  "handle_vote 0 ex_c1 ex_vote = (Inr (), ex_c2, [(''a'', ex_commit)])"
  "logged (c_log ex_c2) ex_tx (TransactionStart [''a''] ex_ops)" "logged (c_log ex_c2) ex_tx (Decision True)"
  using ex_begin(4)
  by (simp_all add: ex_c2_def handle_vote_def record_vote_def make_decision_eq Let_def ex_begin(2,3)
      all_votes_received_def should_commit_def ct_new_def fm_entries_def sorted_list_of_fmap_def
      sorted_list_of_fset_def fcard_def del: One_nat_def)

lemma ex_voted_config: "c_config ex_c2 = c_config ex_c1"
  by (simp add: ex_c2_def handle_vote_def record_vote_def make_decision_eq Let_def ex_begin(2,3)
      all_votes_received_def should_commit_def ct_new_def fm_entries_def sorted_list_of_fmap_def
      sorted_list_of_fset_def fcard_def del: One_nat_def)

lemma ex_log:
  "logged (c_log ex_c2) ex_tx x \<longleftrightarrow>
    x \<in> {TransactionStart [''a''] ex_ops, PrepareSent, VoteReceived ''a'' VoteCommit, Decision True, DecisionSent ''a''}"
proof -
  have "logged (c_log ex_c1) ex_tx x \<longleftrightarrow> x \<in> {TransactionStart [''a''] ex_ops, PrepareSent}"
    by (auto simp: ex_c1_def ex_begin_defs simp del: One_nat_def)
  then show ?thesis
    by (auto simp: ex_c2_def handle_vote_def record_vote_def make_decision_eq Let_def ex_begin(2,3)
        all_votes_received_def should_commit_def ct_new_def fm_entries_def sorted_list_of_fmap_def
        sorted_list_of_fset_def fcard_def simp del: One_nat_def)
qed

lemma ex_committed: "logged (p_log ex_p2) ex_tx Applied"
proof -
  obtain t where t: "fmlookup (p_txns ex_p1) ex_tx = Some t" "pt_prepared_lsn t = Some 1"
    using ex_prepared(2) by auto
  obtain s' where "mem_commit (p_storage ex_p1) 1 = (Inr (), s')"
    by (cases "fmlookup (ms_prepared (p_storage ex_p1)) 1") (auto simp: mem_commit_def)
  with t show ?thesis by (simp add: ex_p2_def handle_commit_def Let_def mem_ops_def del: One_nat_def)
qed

definition ex_acks :: "(pid \<times> tpc_msg) list" where
  "ex_acks = snd (snd (handle_commit mem_ops 0 ex_p1 ex_commit))"

definition tpc_example :: "mem_storage tpc_world" where
  "tpc_example = \<lparr>w_coord = ex_c2, w_parts = (\<lambda>q. participant_new q 30000 mem_new)(''a'' := ex_p2),
     w_net = ex_acks, w_now = 0\<rparr>"

lemma ex_part_commit: "part_receive mem_ops 0 ex_p1 ex_commit = (ex_p2, ex_acks)"
  unfolding part_receive_def ex_p2_def ex_acks_def by (simp only: tpc_msg.case prod.collapse)

lemma tpc_example_reachable: "tpc_reachable mem_ops default_config 30000 mem_new tpc_example"
proof -
  let ?init = "tpc_init default_config 30000 mem_new"
  let ?parts = "\<lambda>q. participant_new q 30000 mem_new"
  let ?wa = "\<lparr>w_coord = ex_c1, w_parts = ?parts, w_net = [(''a'', ex_prepare)], w_now = 0\<rparr>"
  let ?wb = "\<lparr>w_coord = ex_c1, w_parts = ?parts(''a'' := ex_p1), w_net = [('''', ex_vote)], w_now = 0\<rparr>"
  let ?wc = "\<lparr>w_coord = ex_c2, w_parts = ?parts(''a'' := ex_p1), w_net = [(''a'', ex_commit)], w_now = 0\<rparr>"
  have 1: "tpc_step mem_ops ?init ?wa"
    using t_begin [of ?init "[''a'']" ex_ops "Inr ex_tx" ex_c1 "[(''a'', ex_prepare)]" mem_ops] ex_begin(1)
    by (simp add: tpc_init_def del: One_nat_def)
  have 2: "tpc_step mem_ops ?wa ?wb"
    using t_part [of "''a''" ex_prepare ?wa mem_ops ex_p1 "[('''', ex_vote)]"] ex_prepared(1)
    by (simp add: part_receive_def del: One_nat_def)
  have 3: "tpc_step mem_ops ?wb ?wc"
    using t_coord [of "''''" ex_vote ?wb ex_c2 "[(''a'', ex_commit)]" mem_ops] ex_voted(1)
    by (simp add: coord_receive_def del: One_nat_def)
  have 4: "tpc_step mem_ops ?wc tpc_example"
    using t_part [of "''a''" ex_commit ?wc mem_ops ex_p2 ex_acks] ex_part_commit
    by (simp add: tpc_example_def del: One_nat_def)
  show ?thesis
    by (rule t_reach_step [OF t_reach_step [OF t_reach_step [OF t_reach_step [OF t_reach_init 1] 2] 3] 4])
qed

lemma tpc_example_facts:
  "started tpc_example ex_tx [''a''] ex_ops" "applied tpc_example ''a'' ex_tx" "decided tpc_example ex_tx True"
  using ex_voted(2,3) ex_committed by (simp_all add: tpc_example_def started_def applied_def decided_def)

theorem tpc_atomic_commitment_witness:
  "voted tpc_example ''a'' (TxnId '''' 0 1) \<and> \<not> decided tpc_example (TxnId '''' 0 1) False"
  using tpc_atomic_commitment [OF tpc_example_reachable tpc_example_facts(1,2), of "''a''"] by simp

text \<open>
  C8: A commit is unanimous. In every such run, if the coordinator's log has the decision to commit, then the
  participants are distinct and each of them has logged a vote to commit.
\<close>
theorem tpc_commit_unanimous:
  assumes "tpc_reachable mem_ops cfg timeout mem_new w" "started w tx ps ops" "decided w tx True"
  shows "distinct ps \<and> (\<forall>q\<in>set ps. voted w q tx)"
proof -
  note D = tpc_okD(1) [OF mem.tpc_reachable_ok [OF assms(1)]]
  obtain ps' ops' where "started w tx ps' ops'" "distinct ps'" "\<forall>q\<in>set ps'. voted w q tx"
    using coord_okD(7) [OF D assms(3)] by blast
  with coord_okD(3) [OF D assms(2)] show ?thesis by blast
qed

theorem tpc_commit_unanimous_witness:
  "distinct [''a''] \<and> voted tpc_example ''a'' (TxnId '''' 0 1)"
  using tpc_commit_unanimous [OF tpc_example_reachable tpc_example_facts(1,3)] by simp

section \<open>The coordinator\<close>

lemma send_decision_frame:
  "send_decision now tx msg qs c = (c', out) \<Longrightarrow>
    set (entries (c_log c)) \<subseteq> set (entries (c_log c')) \<and> synced_lsn (c_log c') = synced_lsn (c_log c) \<and>
    out = map (\<lambda>q. (q, msg)) qs \<and> c_txns c' = c_txns c"
proof (induction qs arbitrary: c c' out)
  case (Cons q qs)
  obtain out' where s: "send_decision now tx msg qs (c_append now tx (DecisionSent q) c) = (c', out')" "out = (q, msg) # out'"
    using Cons.prems by (auto split: prod.splits)
  from Cons.IH [OF s(1)] s(2) show ?case by (auto simp: log_append_def persist_entry_def Let_def)
qed simp

lemma should_commit_iff:
  "should_commit t \<longleftrightarrow> fcard (fmdom (ct_votes t)) = length (ct_participants t) \<and>
    (\<forall>p v. fmlookup (ct_votes t) p = Some v \<longrightarrow> v = VoteCommit)"
  by (auto simp: should_commit_def all_votes_received_def list_all_iff)

text \<open>Running the effects of a decision: what a prefix of them has done when it has sent something.\<close>

lemma send_effects_prefix:
  assumes "fold (run_effect now tx) (take k (concat (map (\<lambda>p. [Log (DecisionSent p), Send p msg]) ps))) (c, out) = (c', out')"
  shows "set (entries (c_log c)) \<subseteq> set (entries (c_log c'))" "synced_lsn (c_log c') = synced_lsn (c_log c)" "c_txns c' = c_txns c"
    "\<forall>x\<in>set out' - set out. snd x = msg \<and> fst x \<in> set ps \<and> logged (c_log c') tx (DecisionSent (fst x))"
proof -
  have "set (entries (c_log c)) \<subseteq> set (entries (c_log c')) \<and> synced_lsn (c_log c') = synced_lsn (c_log c) \<and> c_txns c' = c_txns c \<and>
      (\<forall>x\<in>set out' - set out. snd x = msg \<and> fst x \<in> set ps \<and> logged (c_log c') tx (DecisionSent (fst x)))"
    using assms
  proof (induction ps arbitrary: k c out)
    case (Cons p ps)
    let ?c = "c_append now tx (DecisionSent p) c"
    consider "k = 0" | "k = 1" | k' where "k = Suc (Suc k')" by (metis One_nat_def not0_implies_Suc)
    then show ?case
    proof cases
      case 3
      then have run: "fold (run_effect now tx) (take k' (concat (map (\<lambda>p. [Log (DecisionSent p), Send p msg]) ps))) (?c, out @ [(p, msg)]) = (c', out')"
        using Cons.prems by simp
      have "logged (c_log c') tx (DecisionSent p)" if "set (entries (c_log ?c)) \<subseteq> set (entries (c_log c'))"
        using that by (force simp: logged_def list_ex_iff)
      moreover have "synced_lsn (c_log ?c) = synced_lsn (c_log c)" by (simp add: log_append_def persist_entry_def Let_def)
      ultimately show ?thesis using Cons.IH [OF run] by auto
    qed (use Cons.prems in \<open>auto simp: log_append_def persist_entry_def Let_def\<close>)
  qed simp
  then show "set (entries (c_log c)) \<subseteq> set (entries (c_log c'))" "synced_lsn (c_log c') = synced_lsn (c_log c)" "c_txns c' = c_txns c"
    "\<forall>x\<in>set out' - set out. snd x = msg \<and> fst x \<in> set ps \<and> logged (c_log c') tx (DecisionSent (fst x))" by blast+
qed

lemma send_effects_all:
  "snd (fold (run_effect now tx) (concat (map (\<lambda>p. [Log (DecisionSent p), Send p msg]) ps)) (c, out)) = out @ map (\<lambda>p. (p, msg)) ps"
  by (induction ps arbitrary: c out) simp_all

text \<open>
  C12: The decision is logged and synced before it is sent. Stop \<open>make_decision\<close> after any number of its effects: if a message is on the
  channel by then, the log already holds the decision under a number that has been synced, the transaction is in the
  state of the decision, and the sending is logged; the message is a commit exactly when there are as many votes as participants and
  all of them say commit, otherwise an abort, and goes to a participant. Run to its end it has sent one message to each participant.
  Synced is what the log's own counter says; the log that \<open>TransactionCoordinator::new\<close> builds is in memory, so this order
  survives no restart.
\<close>
theorem tpc_decision_logged_before_send:
  assumes "fmlookup (c_txns c) tx = Some t" "run_effects now tx (take k (decision_effects now c tx t)) c = (c', out)"
  defines "commit \<equiv> fcard (fmdom (ct_votes t)) = length (ct_participants t) \<and> (\<forall>p v. fmlookup (ct_votes t) p = Some v \<longrightarrow> v = VoteCommit)"
    and "msg \<equiv> \<lambda>b. if b then CommitMsg tx (node_id (c_config c)) now
           else AbortMsg tx (node_id (c_config c)) ''One or more participants voted to abort''"
  shows "(\<forall>q m. (q, m) \<in> set out \<longrightarrow> m = msg commit \<and> q \<in> set (ct_participants t) \<and> logged (c_log c') tx (DecisionSent q) \<and>
       (\<exists>e\<in>set (entries (c_log c')). le_txn e = tx \<and> le_record e = Decision commit \<and> le_lsn e \<le> synced_lsn (c_log c')) \<and>
       map_option ct_state (fmlookup (c_txns c') tx) = Some (if commit then Committing else Aborting))
    \<and> (length (decision_effects now c tx t) \<le> k \<longrightarrow>
       make_decision now c tx = (Inr (), c', out) \<and> out = map (\<lambda>q. (q, msg commit)) (ct_participants t))"
proof -
  have sc: "should_commit t = commit" by (simp add: should_commit_iff commit_def)
  let ?t = "t\<lparr>ct_state := (if commit then Committing else Aborting), ct_last_activity := now\<rparr>"
  let ?sends = "concat (map (\<lambda>p. [Log (DecisionSent p), Send p (msg commit)]) (ct_participants t))"
  let ?c = "c_put tx ?t (c_append_sync now tx (Decision commit) c)"
  have es: "decision_effects now c tx t = LogSync (Decision commit) # SetTxn ?t # ?sends"
    by (simp add: decision_effects_def sc msg_def Let_def)
  have full: "make_decision now c tx = (Inr (), c', out) \<and> out = map (\<lambda>q. (q, msg commit)) (ct_participants t)"
    if "length (decision_effects now c tx t) \<le> k"
  proof -
    have "run_effects now tx (decision_effects now c tx t) c = (c', out)" using assms(2) that by simp
    moreover from this have "out = map (\<lambda>q. (q, msg commit)) (ct_participants t)"
      using send_effects_all [of now tx "msg commit" "ct_participants t" ?c "[]"] unfolding run_effects_def es by simp
    ultimately show ?thesis using assms(1) by (simp add: make_decision_def)
  qed
  consider "k = 0" | "k = 1" | k' where "k = Suc (Suc k')" by (metis One_nat_def not0_implies_Suc)
  then show ?thesis
  proof cases
    case 3
    then have "fold (run_effect now tx) (take k' ?sends) (?c, []) = (c', out)" using assms(2) unfolding run_effects_def es by simp
    note S = send_effects_prefix [OF this]
    let ?e = "\<lparr>le_lsn = next_lsn (c_log c), le_timestamp = now, le_txn = tx, le_record = Decision commit\<rparr>"
    have "?e \<in> set (entries (c_log ?c))" by (simp add: log_append_sync_def)
    moreover have "synced_lsn (c_log ?c) = next_lsn (c_log c)" by (simp add: synced_append_sync)
    ultimately have "\<exists>e\<in>set (entries (c_log c')). le_txn e = tx \<and> le_record e = Decision commit \<and> le_lsn e \<le> synced_lsn (c_log c')"
      using S(1,2) by (intro bexI [of _ ?e]) auto
    moreover have "map_option ct_state (fmlookup (c_txns c') tx) = Some (if commit then Committing else Aborting)" using S(3) by simp
    ultimately show ?thesis using S(4) full by fastforce
  qed (use assms(2) full in \<open>auto simp: run_effects_def es\<close>)
qed

definition two_votes :: coord_txn where
  "two_votes = (ct_new 0 [''a'', ''b''] [])\<lparr>ct_state := Preparing,
     ct_votes := fmap_of_list [(''a'', VoteCommit), (''b'', VoteAbort)]\<rparr>"

theorem tpc_decision_logged_before_send_witness:
  "let c = (coord_new default_config)\<lparr>c_txns := fmap_of_list [(TxnId '''' 0 1, two_votes)]\<rparr>;
       (c', out) = run_effects 7 (TxnId '''' 0 1) (take 4 (decision_effects 7 c (TxnId '''' 0 1) two_votes)) c
   in map fst out = [''a''] \<and> logged (c_log c') (TxnId '''' 0 1) (DecisionSent ''a'')"
proof -
  let ?tx = "TxnId '''' 0 1"
  let ?c = "(coord_new default_config)\<lparr>c_txns := fmap_of_list [(?tx, two_votes)]\<rparr>"
  have t: "fmlookup (c_txns ?c) ?tx = Some two_votes" by (simp add: fmlookup_of_list)
  obtain c' out where r: "run_effects 7 ?tx (take 4 (decision_effects 7 ?c ?tx two_votes)) ?c = (c', out)" by fastforce
  have "ct_participants two_votes = [''a'', ''b'']" by (simp add: two_votes_def ct_new_def)
  then have f: "map fst out = [''a'']" using r by (auto simp: run_effects_def decision_effects_def Let_def numeral_eq_Suc)
  then obtain m where "(''a'', m) \<in> set out" by fastforce
  then have "logged (c_log c') ?tx (DecisionSent ''a'')" using tpc_decision_logged_before_send [OF t r] by blast
  with r f show ?thesis by (simp add: Let_def)
qed

text \<open>Recovery of one transaction leaves the others alone.\<close>

lemma recover_one_other:
  assumes "recover_one now c tx' es = (c', out)"
  shows "c_config c' = c_config c" "tx \<noteq> tx' \<Longrightarrow> logged (c_log c') tx = logged (c_log c) tx"
    "tx \<noteq> tx' \<Longrightarrow> fmlookup (c_txns c') tx = fmlookup (c_txns c) tx" "\<forall>x\<in>set out. msg_txn (snd x) = tx'"
  using assms by (auto simp: recover_one_def Let_def fun_eq_iff split: option.splits if_splits)

lemma recover_all_other:
  "recover_all now c xs = (c', out) \<Longrightarrow> tx \<notin> fst ` set xs \<Longrightarrow> c_config c' = c_config c \<and> logged (c_log c') tx = logged (c_log c) tx \<and>
    fmlookup (c_txns c') tx = fmlookup (c_txns c) tx \<and> filter (\<lambda>x. msg_txn (snd x) = tx) out = []"
proof (induction xs arbitrary: c c' out)
  case (Cons x xs)
  obtain tx' es where x: "x = (tx', es)" by fastforce
  obtain c1 out1 where o: "recover_one now c tx' es = (c1, out1)" by fastforce
  obtain out2 where a: "recover_all now c1 xs = (c', out2)" "out = out1 @ out2"
    using Cons.prems(1) x o by (auto split: prod.splits)
  have ne: "tx \<noteq> tx'" "tx \<notin> fst ` set xs" using Cons.prems(2) x by auto
  note one = recover_one_other [OF o]
  have "filter (\<lambda>x. msg_txn (snd x) = tx) out1 = []" using one(4) ne(1) by (auto simp: filter_empty_conv)
  then show ?case using Cons.IH [OF a(1) ne(2)] one(1) one(2,3) [OF ne(1)] a(2) by simp
qed simp

lemma recover_all_one:
  assumes "recover_all now c xs = (c', out)" "distinct (map fst xs)" "(tx, es) \<in> set xs"
  obtains c1 c2 out1 where "recover_one now c1 tx es = (c2, out1)" "c_config c1 = c_config c" "logged (c_log c1) tx = logged (c_log c) tx"
    "logged (c_log c') tx = logged (c_log c2) tx" "fmlookup (c_txns c') tx = fmlookup (c_txns c2) tx"
    "filter (\<lambda>x. msg_txn (snd x) = tx) out = out1"
  using assms
proof (induction xs arbitrary: c out thesis)
  case (Cons x xs)
  obtain tx' es' where x: "x = (tx', es')" by fastforce
  obtain c1 out1 where o: "recover_one now c tx' es' = (c1, out1)" by fastforce
  obtain out2 where a: "recover_all now c1 xs = (c', out2)" "out = out1 @ out2"
    using Cons.prems(2) x o by (auto split: prod.splits)
  note one = recover_one_other [OF o]
  show ?case
  proof (cases "tx' = tx")
    case True
    then have "tx \<notin> fst ` set xs" using Cons.prems(3) x by auto
    note rest = recover_all_other [OF a(1) this]
    have "es' = es" using Cons.prems(3,4) x True by (auto simp: rev_image_eqI)
    moreover have "filter (\<lambda>x. msg_txn (snd x) = tx) out1 = out1" using one(4) True by (simp add: filter_id_conv)
    ultimately show ?thesis using Cons.prems(1) [of c c1 out1] o True rest a(2) by simp
  next
    case False
    then have ne: "tx \<noteq> tx'" "(tx, es) \<in> set xs" using Cons.prems(4) x by auto
    have none: "filter (\<lambda>x. msg_txn (snd x) = tx) out1 = []" using one(4) ne(1) by (auto simp: filter_empty_conv)
    show ?thesis
      by (rule Cons.IH [OF _ a(1) _ ne(2)])
        (use Cons.prems(1,3) x one(1) one(2,3) [OF ne(1)] a(2) none in auto)
  qed
qed simp

text \<open>
  C15: \<open>recover\<close> finishes what the log says. For every transaction whose log entries name one set of participants and not both
  decisions: a completed one is left alone; one without a decision is aborted, which is logged and told to every participant; of
  a decided one exactly that decision is sent to exactly the participants whose acknowledgement is not logged, and when there are
  none the transaction is logged as complete. This is what \<open>recover\<close> does with the log the coordinator has; the log of
  a coordinator that has just been built is empty.
\<close>
theorem tpc_recovery_follows_log:
  assumes rec: "c_recover now c = (ids, c', out)" and start: "logged (c_log c) tx (TransactionStart ps ops)"
    and same: "\<forall>ps' ops'. logged (c_log c) tx (TransactionStart ps' ops') \<longrightarrow> ps' = ps \<and> ops' = ops"
    and one: "\<not> (logged (c_log c) tx (Decision True) \<and> logged (c_log c) tx (Decision False))"
  defines "unacked \<equiv> filter (\<lambda>q. \<not> logged (c_log c) tx (AckReceived q)) ps"
    and "me \<equiv> node_id (c_config c)" and "sent \<equiv> filter (\<lambda>x. msg_txn (snd x) = tx) out"
  shows "(tx \<in> set ids \<longleftrightarrow> \<not> logged (c_log c) tx TransactionComplete)
    \<and> (logged (c_log c) tx TransactionComplete \<longrightarrow> sent = [])
    \<and> (\<not> logged (c_log c) tx TransactionComplete \<longrightarrow>
         ((\<nexists>b. logged (c_log c) tx (Decision b)) \<longrightarrow> logged (c_log c') tx (Decision False) \<and>
            sent = map (\<lambda>q. (q, AbortMsg tx me ''Presumed abort after coordinator recovery'')) ps)
       \<and> (\<forall>b. logged (c_log c) tx (Decision b) \<longrightarrow>
            (if unacked = [] then logged (c_log c') tx TransactionComplete \<and> sent = []
             else sent = map (\<lambda>q. (q, if b then CommitMsg tx me now
                    else AbortMsg tx me ''Recovered after coordinator restart'')) unacked \<and>
                  map_option ct_state (fmlookup (c_txns c') tx) = Some (if b then Committing else Aborting))))"
proof -
  let ?inc = "get_incomplete_transactions (c_log c)" and ?es = "get_transaction_entries (c_log c) tx"
  let ?r = "scan_entries ?es"
  have all: "recover_all now c ?inc = (c', out)" "ids = map fst ?inc" using rec by (auto simp: c_recover_def Let_def split: prod.splits)
  have mem: "tx \<in> fst ` set ?inc \<longleftrightarrow> \<not> logged (c_log c) tx TransactionComplete"
  proof -
    have "tx \<in> fst ` set ?inc \<longleftrightarrow> (\<exists>es. (tx, es) \<in> set ?inc)" by force
    also have "\<dots> \<longleftrightarrow> \<not> logged (c_log c) tx TransactionComplete" using start unfolding in_incomplete by blast
    finally show ?thesis .
  qed
  have "map fst ?inc = filter (\<lambda>tx. \<not> list_ex (\<lambda>e. le_record e = TransactionComplete) (get_transaction_entries (c_log c) tx))
      (remdups (map le_txn (entries (c_log c))))"
    by (simp add: get_incomplete_transactions_def filter_map comp_def)
  then have dist: "distinct (map fst ?inc)" by simp
  have es: "r \<in> records ?es \<longleftrightarrow> logged (c_log c) tx r" for r
    using transaction_record [of "c_log c" tx r] by (auto simp: records_def)
  have "r_participants ?r = ps \<and> r_operations ?r = ops"
  proof (rule scan_start)
    show "TransactionStart ps ops \<in> records ?es" using start unfolding es .
    show "ps' = ps \<and> ops' = ops" if "TransactionStart ps' ops' \<in> records ?es" for ps' ops' using same that unfolding es by blast
  qed
  then have pp: "r_participants ?r = ps" "r_operations ?r = ops" by auto
  have pend: "filter (\<lambda>p. p |\<notin>| r_acks ?r) ps = unacked" by (simp add: unacked_def scan_acks es)
  have dec: "r_decision ?r = Some b \<longleftrightarrow> logged (c_log c) tx (Decision b)" for b
    using scan_decision [of ?es] one unfolding es by (metis (full_types) not_None_eq)
  show ?thesis
  proof (cases "logged (c_log c) tx TransactionComplete")
    case True
    then show ?thesis using recover_all_other [OF all(1), of tx] mem all(2) by (simp add: sent_def)
  next
    case False
    then have "(tx, ?es) \<in> set ?inc" using start by (auto simp: in_incomplete)
    from recover_all_one [OF all(1) dist this] obtain c1 c2 out1 where o: "recover_one now c1 tx ?es = (c2, out1)" "c_config c1 = c_config c"
        "logged (c_log c1) tx = logged (c_log c) tx" "logged (c_log c') tx = logged (c_log c2) tx"
        "fmlookup (c_txns c') tx = fmlookup (c_txns c2) tx" "sent = out1"
      unfolding sent_def by metis
    show ?thesis
    proof (cases "r_decision ?r")
      case None
      then have "\<not> logged (c_log c) tx (Decision b)" for b using dec by auto
      then show ?thesis using o False None mem all(2) by (auto simp: recover_one_def Let_def pp me_def)
    next
      case (Some b)
      then have d: "logged (c_log c) tx (Decision b') \<longleftrightarrow> b' = b" for b' using dec [of b'] by auto
      have "if unacked = [] then logged (c_log c2) tx TransactionComplete \<and> out1 = []
          else out1 = map (\<lambda>q. (q, if b then CommitMsg tx me now else AbortMsg tx me ''Recovered after coordinator restart'')) unacked \<and>
            map_option ct_state (fmlookup (c_txns c2) tx) = Some (if b then Committing else Aborting)"
        using o(1,2) Some by (cases "unacked = []") (auto simp: recover_one_def Let_def pp me_def pend)
      then have "if unacked = [] then logged (c_log c') tx TransactionComplete \<and> sent = []
          else sent = map (\<lambda>q. (q, if b then CommitMsg tx me now else AbortMsg tx me ''Recovered after coordinator restart'')) unacked \<and>
            map_option ct_state (fmlookup (c_txns c') tx) = Some (if b then Committing else Aborting)"
        unfolding o(4-6) .
      then show ?thesis using False mem all(2) unfolding d by simp
    qed
  qed
qed

theorem tpc_recovery_follows_log_witness:
  "let (ids, c', out) = c_recover 9 ex_c2 in filter (\<lambda>x. msg_txn (snd x) = TxnId '''' 0 1) out = [(''a'', CommitMsg (TxnId '''' 0 1) '''' 9)]"
proof -
  obtain ids c' out where r: "c_recover 9 ex_c2 = (ids, c', out)" by (metis prod.collapse)
  have "node_id (c_config ex_c2) = ''''" using ex_begin(3) ex_voted_config by simp
  moreover have ack: "filter (\<lambda>q. \<not> logged (c_log ex_c2) ex_tx (AckReceived q)) [''a''] = [''a'']" by (simp add: ex_log del: One_nat_def)
  have A: "logged (c_log ex_c2) ex_tx (TransactionStart [''a''] ex_ops)"
    "\<forall>ps' ops'. logged (c_log ex_c2) ex_tx (TransactionStart ps' ops') \<longrightarrow> ps' = [''a''] \<and> ops' = ex_ops"
    "\<not> (logged (c_log ex_c2) ex_tx (Decision True) \<and> logged (c_log ex_c2) ex_tx (Decision False))"
    "logged (c_log ex_c2) ex_tx (Decision True)" "\<not> logged (c_log ex_c2) ex_tx TransactionComplete"
    by (simp_all add: ex_log del: One_nat_def)
  note T = tpc_recovery_follows_log [OF r A(1-3), THEN conjunct2, THEN conjunct2, rule_format, OF A(5), THEN conjunct2, rule_format, OF A(4), unfolded ack]
  ultimately have "filter (\<lambda>x. msg_txn (snd x) = ex_tx) out = [(''a'', CommitMsg ex_tx '''' 9)]" using T by (simp del: One_nat_def)
  with r show ?thesis by simp
qed

text \<open>
  A coordinator that comes back has an empty log: \<open>recover\<close> finds nothing, the status of every transaction is unknown, and a
  participant that asks rolls its prepared operations back, although others may have applied theirs.
\<close>

theorem tpc_coordinator_restart_forgets:
  assumes "fmlookup (p_txns p) tx = Some t" "pt_prepared_lsn t = Some l"
    and "c_recover now (coord_new cfg) = (ids, c, out)" "handle_status_query c (QueryStatus tx q) = Inr m"
    and "handle_status_response mem_ops now p m = (r, p', out')"
  shows "ids = [] \<and> c = coord_new cfg \<and> out = [] \<and> m = StatusResponse tx Unknown (node_id cfg)
    \<and> fmlookup (ms_prepared (p_storage p')) l = None \<and> ms_data (p_storage p') = ms_data (p_storage p)
    \<and> map_option pt_state (fmlookup (p_txns p') tx) = Some Aborted"
proof -
  have c: "ids = []" "c = coord_new cfg" "out = []"
    using assms(3) by (auto simp: c_recover_def get_incomplete_transactions_def coord_new_def log_new_def Let_def)
  then have m: "m = StatusResponse tx Unknown (node_id cfg)" using assms(4) by (auto simp: handle_status_query_def coord_new_def)
  have "fmlookup (ms_prepared (p_storage p')) l = None \<and> ms_data (p_storage p') = ms_data (p_storage p) \<and>
      map_option pt_state (fmlookup (p_txns p') tx) = Some Aborted"
    using assms(1,2,5) by (auto simp: m handle_status_response_def handle_abort_def p_set_state_def mem_ops_def mem_rollback_def Let_def)
  with c m show ?thesis by simp
qed

section \<open>The participant\<close>

text \<open>
  Effect on the data. Prepare votes to commit and changes no data; the commit applies the
  prepared operations in order and acknowledges success; a repeated commit changes nothing; an
  abort instead of the commit leaves the data as it was before the prepare.
\<close>
theorem tpc_participant_effect:
  assumes "handle_prepare mem_ops n1 p (Prepare tx cid ps ops ts) = (r1, p1, out1)"
    and "handle_commit mem_ops n2 p1 (CommitMsg tx cid2 ts2) = (r2, p2, out2)"
    and "handle_commit mem_ops n3 p2 (CommitMsg tx cid3 ts3) = (r3, p3, out3)"
    and "handle_abort mem_ops n4 p1 (AbortMsg tx cid4 reason) = (r4, p4, out4)"
  defines "data \<equiv> \<lambda>q. ms_data (p_storage q)"
  shows "out1 = [(cid, Vote tx (p_node p) VoteCommit (Some (ms_next_lsn (p_storage p))))] \<and> data p1 = data p
    \<and> out2 = [(cid2, Ack tx (p_node p) True None)] \<and> data p2 = fold apply_op ops (data p)
    \<and> data p3 = data p2 \<and> data p4 = data p"
proof -
  let ?n = "ms_next_lsn (p_storage p)"
  obtain t where p1: "out1 = [(cid, Vote tx (p_node p) VoteCommit (Some ?n))]" "p_node p1 = p_node p"
      "p_storage p1 = snd (mem_prepare (p_storage p) ops)"
      "fmlookup (p_txns p1) tx = Some t" "pt_prepared_lsn t = Some ?n"
    using assms(1) by (auto simp: handle_prepare_def mem_ops_def mem_prepare_def Let_def)
  have pend: "fmlookup (ms_prepared (p_storage p1)) ?n = Some ops" "data p1 = data p"
    by (simp_all add: p1(3) data_def mem_prepare_def Let_def)
  let ?s = "(p_storage p1)\<lparr>ms_prepared := fmdrop ?n (ms_prepared (p_storage p1)), ms_data := fold apply_op ops (data p)\<rparr>"
  obtain t' where p2: "out2 = [(cid2, Ack tx (p_node p) True None)]" "p_storage p2 = ?s"
      "fmlookup (p_txns p2) tx = Some t'" "pt_prepared_lsn t' = Some ?n"
    using assms(2) p1(2,4,5) pend
    by (auto simp: handle_commit_def Let_def mem_ops_def mem_commit_def p_set_state_def data_def)
  have "data p3 = data p2"
    using assms(3) p2(2-4)
    by (auto simp: handle_commit_def Let_def mem_ops_def mem_commit_def p_set_state_def data_def)
  moreover have "data p4 = data p1"
    using assms(4) p1(4,5)
    by (auto simp: handle_abort_def Let_def mem_ops_def mem_rollback_def p_set_state_def data_def)
  ultimately show ?thesis using p1(1) pend(2) p2(1,2) by (simp add: data_def)
qed

theorem tpc_participant_effect_witness:
  "let p1 = fst (snd (handle_prepare mem_ops 0 (participant_new ''a'' 9 mem_new) (Prepare (TxnId '''' 0 1) ''c'' [''a''] [Put [1] [2], Delete [1]] 0)));
       p2 = fst (snd (handle_commit mem_ops 1 p1 (CommitMsg (TxnId '''' 0 1) ''c'' 1)))
   in fmlookup (ms_data (p_storage p2)) [1] = None \<and> ms_data (p_storage p1) = fmempty"
proof -
  let ?p = "participant_new ''a'' 9 mem_new" and ?tx = "TxnId '''' 0 1"
  let ?r1 = "handle_prepare mem_ops 0 ?p (Prepare ?tx ''c'' [''a''] [Put [1] [2], Delete [1]] 0)"
  let ?p1 = "fst (snd ?r1)"
  let ?r2 = "handle_commit mem_ops 1 ?p1 (CommitMsg ?tx ''c'' 1)"
  let ?r3 = "handle_commit mem_ops 2 (fst (snd ?r2)) (CommitMsg ?tx ''c'' 1)"
  let ?r4 = "handle_abort mem_ops 1 ?p1 (AbortMsg ?tx ''c'' '''')"
  have "?r1 = (fst ?r1, ?p1, snd (snd ?r1))" "?r2 = (fst ?r2, fst (snd ?r2), snd (snd ?r2))"
    "?r3 = (fst ?r3, fst (snd ?r3), snd (snd ?r3))" "?r4 = (fst ?r4, fst (snd ?r4), snd (snd ?r4))"
    by (simp_all only: prod.collapse)
  from tpc_participant_effect [OF this]
  have "ms_data (p_storage ?p1) = ms_data (p_storage ?p)"
    "ms_data (p_storage (fst (snd ?r2))) = fold apply_op [Put [1] [2], Delete [1]] (ms_data (p_storage ?p))" by blast+
  moreover have "ms_data (p_storage ?p) = fmempty" by (simp add: participant_new_def mem_new_def)
  ultimately show ?thesis unfolding Let_def by (simp only:) simp
qed

section \<open>Agreed commits that get lost\<close>

lemma timeout_scan_committing:
  "timeout_scan now c xs = (c', ids) \<Longrightarrow> map_option ct_state (fmlookup (c_txns c) tx) = Some Committing \<Longrightarrow>
    (\<And>t. (tx, t) \<in> set xs \<Longrightarrow> ct_state t = Committing) \<Longrightarrow>
    tx \<notin> set ids \<and> map_option ct_state (fmlookup (c_txns c') tx) = Some Committing \<and> c_config c' = c_config c"
proof (induction xs arbitrary: c c' ids)
  case (Cons x xs)
  obtain tx' t' where x: "x = (tx', t')" by fastforce
  obtain c1 late where o: "timeout_one now c tx' t' = (c1, late)" by fastforce
  obtain ids' where r: "timeout_scan now c1 xs = (c', ids')" "ids = (if late then tx' # ids' else ids')"
    using Cons.prems(1) x o by (auto split: prod.splits)
  have t': "tx' = tx \<Longrightarrow> ct_state t' = Committing" using Cons.prems(3) [of t'] x by simp
  have "map_option ct_state (fmlookup (c_txns c1) tx) = Some Committing \<and> c_config c1 = c_config c \<and> (late \<longrightarrow> tx' \<noteq> tx)"
    using o Cons.prems(2) t'
    by (auto simp: timeout_one_def Let_def split: transaction_state.splits if_splits)
  with Cons.IH [OF r(1)] Cons.prems(3) x r(2) show ?case by (auto split: if_splits)
qed auto

lemma abort_all_other:
  "abort_all now c txs = (c', out) \<Longrightarrow> tx \<notin> set txs \<Longrightarrow>
    fmlookup (c_txns c') tx = fmlookup (c_txns c) tx \<and> c_config c' = c_config c \<and> (\<forall>x\<in>set out. msg_txn (snd x) \<noteq> tx)"
proof (induction txs arbitrary: c c' out)
  case (Cons tx' txs)
  obtain r c1 out1 where o: "c_abort_transaction now c tx' ''Prepare phase timeout'' = (r, c1, out1)"
    by (cases "c_abort_transaction now c tx' ''Prepare phase timeout''")
  obtain out2 where a: "abort_all now c1 txs = (c', out2)" "out = out1 @ out2"
    using Cons.prems(1) o by (auto split: prod.splits)
  have "fmlookup (c_txns c1) tx = fmlookup (c_txns c) tx \<and> c_config c1 = c_config c \<and> (\<forall>x\<in>set out1. msg_txn (snd x) \<noteq> tx)"
    using o Cons.prems(2) by (auto simp: c_abort_transaction_def Let_def split: option.splits if_splits)
  with Cons.IH [OF a(1)] Cons.prems(2) a(2) show ?case by auto
qed simp

text \<open>
  C22: A decided commit that is lost on the way is not sent again. While a transaction is committing,
  \<open>check_timeouts\<close> puts no message for it on the channel and keeps it committing, whatever the time; and a
  participant that asks is told \<open>Committing\<close>, which it ignores: it stays as it is.
\<close>
theorem tpc_lost_commit_never_resent:
  assumes "fmlookup (c_txns c) tx = Some t" "ct_state t = Committing" "c_check_timeouts now c = (ids, c', out)"
  shows "(\<forall>x\<in>set out. msg_txn (snd x) \<noteq> tx) \<and> map_option ct_state (fmlookup (c_txns c') tx) = Some Committing
    \<and> handle_status_query c' (QueryStatus tx q) = Inr (StatusResponse tx Committing (node_id (c_config c)))
    \<and> handle_status_response st now p (StatusResponse tx Committing (node_id (c_config c))) = (Inr (), p, [])"
proof -
  obtain c1 where s: "timeout_scan now c (fm_entries (c_txns c)) = (c1, ids)" "abort_all now c1 ids = (c', out)"
    using assms(3) by (auto simp: c_check_timeouts_def Let_def split: prod.splits)
  have "tx \<notin> set ids \<and> map_option ct_state (fmlookup (c_txns c1) tx) = Some Committing \<and> c_config c1 = c_config c"
    using assms(1,2) by (intro timeout_scan_committing [OF s(1)]) auto
  with abort_all_other [OF s(2), of tx] show ?thesis
    by (auto simp: handle_status_query_def handle_status_response_def)
qed

definition committing_txn :: coord_txn where
  "committing_txn = (ct_new 0 [''a''] [])\<lparr>ct_state := Committing\<rparr>"

theorem tpc_lost_commit_never_resent_witness:
  "let c = (coord_new default_config)\<lparr>c_txns := fmap_of_list [(TxnId '''' 0 1, committing_txn)]\<rparr>
   in map_option ct_state (fmlookup (c_txns (fst (snd (c_check_timeouts 1000000 c)))) (TxnId '''' 0 1)) = Some Committing"
proof -
  let ?c = "(coord_new default_config)\<lparr>c_txns := fmap_of_list [(TxnId '''' 0 1, committing_txn)]\<rparr>"
  let ?r = "c_check_timeouts 1000000 ?c"
  have "fmlookup (c_txns ?c) (TxnId '''' 0 1) = Some committing_txn" "ct_state committing_txn = Committing"
    by (simp_all add: committing_txn_def fmlookup_of_list)
  moreover have "?r = (fst ?r, fst (snd ?r), snd (snd ?r))" by (simp only: prod.collapse)
  ultimately show ?thesis using tpc_lost_commit_never_resent by (metis (no_types, lifting))
qed

text \<open>
  C23: A restarted participant cannot commit. The number under which the storage prepared the operations is
  only in memory: a participant built anew over the same storage, whatever log it is given (the program gives it an empty one),
  answers the commit of a transaction it voted for, after \<open>recover\<close>, as not found; no
  acknowledgement is sent, and the operations stay prepared and unapplied in the storage.
\<close>
theorem tpc_restart_forgets_prepared:
  assumes "p_recover n1 ((participant_new node timeout storage)\<lparr>p_log := l\<rparr>) = (ids, p1, out1)"
    and "handle_commit st n2 p1 (CommitMsg tx cid ts) = (r, p2, out2)"
  shows "r = Inl (TransactionNotFound tx) \<and> out2 = [] \<and> p_storage p2 = storage"
proof -
  have one: "p_recover_one now q tx' es = (q', o1) \<Longrightarrow> p_txns q' = p_txns q \<and> p_storage q' = p_storage q"
    for now tx' es q' o1 and q :: "'a participant"
    by (auto simp: p_recover_one_def Let_def split: option.splits if_splits)
  have all: "p_recover_all now q xs = (q', o1) \<Longrightarrow> p_txns q' = p_txns q \<and> p_storage q' = p_storage q"
    for now xs q' o1 and q :: "'a participant"
  proof (induction xs arbitrary: q q' o1)
    case (Cons x xs)
    then show ?case by (cases x) (auto split: prod.splits dest!: one)
  qed simp
  have "p_txns p1 = fmempty \<and> p_storage p1 = storage"
    using assms(1) by (auto simp: p_recover_def Let_def participant_new_def split: prod.splits dest!: all)
  with assms(2) show ?thesis by (auto simp: handle_commit_def Let_def)
qed

theorem tpc_restart_forgets_prepared_witness:
  "let p1 = fst (snd (p_recover 5 ((participant_new ''a'' 30000 (p_storage ex_p1))\<lparr>p_log := p_log ex_p1\<rparr>)));
       r = handle_commit mem_ops 6 p1 (CommitMsg (TxnId '''' 0 1) '''' 0)
   in fst r = Inl (TransactionNotFound (TxnId '''' 0 1)) \<and> p_storage (fst (snd r)) = p_storage ex_p1"
proof -
  let ?q = "p_recover 5 ((participant_new ''a'' 30000 (p_storage ex_p1))\<lparr>p_log := p_log ex_p1\<rparr>)"
  let ?r = "handle_commit mem_ops 6 (fst (snd ?q)) (CommitMsg (TxnId '''' 0 1) '''' 0)"
  have "?q = (fst ?q, fst (snd ?q), snd (snd ?q))" "?r = (fst ?r, fst (snd ?r), snd (snd ?r))"
    by (simp_all only: prod.collapse)
  from tpc_restart_forgets_prepared [OF this] show ?thesis unfolding Let_def by blast
qed

text \<open>
  C24: Two decisions. \<open>handle_vote\<close> releases the lock between recording the last vote and deciding. An abort
  (a prepare timeout, or the client) that runs in between succeeds and is logged and sent, and then the
  commit is logged and sent too: to the same participants, for the same transaction.
\<close>
theorem tpc_two_decisions_between_locks:
  assumes "fmlookup (c_txns c) tx = Some t" "ct_state t = Preparing"
    and "should_commit (t\<lparr>ct_votes := fmupd q v (ct_votes t)\<rparr>)"
    and "record_vote now c tx q v = (r1, c1)" "c_abort_transaction now c1 tx reason = (r2, c2, out2)"
    and "make_decision now c2 tx = (r3, c3, out3)"
  shows "r1 = Inr True \<and> logged (c_log c3) tx (Decision False) \<and> logged (c_log c3) tx (Decision True)
    \<and> out2 = map (\<lambda>p. (p, AbortMsg tx (node_id (c_config c)) reason)) (ct_participants t)
    \<and> out3 = map (\<lambda>p. (p, CommitMsg tx (node_id (c_config c)) now)) (ct_participants t)"
proof -
  let ?t = "t\<lparr>ct_votes := fmupd q v (ct_votes t), ct_last_activity := now\<rparr>"
  have sc: "should_commit (?t\<lparr>ct_state := s, ct_last_activity := k\<rparr>)" "all_votes_received ?t" for s k
    using assms(3) by (simp_all add: should_commit_def all_votes_received_def)
  have 1: "r1 = Inr True" "c1 = c_put tx ?t (c_append now tx (VoteReceived q v) c)"
    using assms(1,2,4) sc(2) by (simp_all add: record_vote_def Let_def)
  have 2: "c2 = c_append_sync now tx (Decision False) (c_put tx (?t\<lparr>ct_state := Aborting, ct_last_activity := now\<rparr>) c1)"
    "out2 = map (\<lambda>p. (p, AbortMsg tx (node_id (c_config c)) reason)) (ct_participants t)"
    using assms(2,5) by (simp_all add: 1(2) c_abort_transaction_def can_abort_def Let_def)
  have sc': "should_commit (?t\<lparr>ct_state := Aborting, ct_last_activity := now\<rparr>)" by (rule sc(1))
  obtain c' where s: "send_decision now tx (CommitMsg tx (node_id (c_config c)) now) (ct_participants t) c' = (c3, out3)"
      "logged (c_log c') tx (Decision True)" "logged (c_log c') tx (Decision False)"
    using assms(6) sc' unfolding 2(1) 1(2) by (auto simp: make_decision_eq Let_def split: prod.splits)
  have log: "logged (c_log c3) tx x" if "logged (c_log c') tx x" for x
    using that send_decision_frame [OF s(1)] by (auto simp: logged_def list_ex_iff)
  show ?thesis using 1(1) 2(2) s log send_decision_frame [OF s(1)] by auto
qed

definition one_vote_left :: coord_txn where
  "one_vote_left = (ct_new 0 [''a''] [])\<lparr>ct_state := Preparing\<rparr>"

theorem tpc_two_decisions_between_locks_witness:
  "let c = (coord_new default_config)\<lparr>c_txns := fmap_of_list [(TxnId '''' 0 1, one_vote_left)]\<rparr>;
       c1 = snd (record_vote 7 c (TxnId '''' 0 1) ''a'' VoteCommit);
       c2 = fst (snd (c_abort_transaction 7 c1 (TxnId '''' 0 1) ''timeout''));
       c3 = fst (snd (make_decision 7 c2 (TxnId '''' 0 1)))
   in logged (c_log c3) (TxnId '''' 0 1) (Decision False) \<and> logged (c_log c3) (TxnId '''' 0 1) (Decision True)"
proof -
  let ?tx = "TxnId '''' 0 1"
  let ?c = "(coord_new default_config)\<lparr>c_txns := fmap_of_list [(?tx, one_vote_left)]\<rparr>"
  let ?r1 = "record_vote 7 ?c ?tx ''a'' VoteCommit"
  let ?r2 = "c_abort_transaction 7 (snd ?r1) ?tx ''timeout''"
  let ?r3 = "make_decision 7 (fst (snd ?r2)) ?tx"
  have t: "fmlookup (c_txns ?c) ?tx = Some one_vote_left" "ct_state one_vote_left = Preparing"
    by (simp_all add: one_vote_left_def fmlookup_of_list)
  have v: "should_commit (one_vote_left\<lparr>ct_votes := fmupd ''a'' VoteCommit (ct_votes one_vote_left)\<rparr>)" by code_simp
  have "?r1 = (fst ?r1, snd ?r1)" "?r2 = (fst ?r2, fst (snd ?r2), snd (snd ?r2))"
    "?r3 = (fst ?r3, fst (snd ?r3), snd (snd ?r3))" by (simp_all only: prod.collapse)
  from tpc_two_decisions_between_locks [OF t v this] show ?thesis unfolding Let_def by blast
qed

end
