(* ===== verification/Raft_Types.thy ===== *)
theory Raft_Types
  imports Prelude
begin

text \<open>
  The data of the consensus layer, \<open>crates/joule-db-server/src/raft.rs\<close>: commands, log entries, cluster
  configurations with their quorums, messages, the persistent state with its log operations, and
  the leader's bookkeeping.

  Terms and indices are \<open>u64\<close> counters and natural numbers here. The node energy figures piggybacked on
  heartbeats are floating point numbers for monitoring; they are left out of the messages.
\<close>

type_synonym node = string

datatype raft_state = Follower | Candidate | Leader

section \<open>Cluster configurations\<close>

record cluster_config =
  members :: "node fset"
  new_members :: "node fset option"
  config_index :: nat

definition cc_single :: "node \<Rightarrow> cluster_config" where
  "cc_single i = \<lparr>members = {|i|}, new_members = None, config_index = 0\<rparr>"

definition cc_new :: "node fset \<Rightarrow> cluster_config" where
  "cc_new ms = \<lparr>members = ms, new_members = None, config_index = 0\<rparr>"

definition is_joint :: "cluster_config \<Rightarrow> bool" where
  "is_joint c \<longleftrightarrow> new_members c \<noteq> None"

definition voting_members :: "cluster_config \<Rightarrow> node fset" where
  "voting_members c = (case new_members c of Some new \<Rightarrow> members c |\<union>| new | None \<Rightarrow> members c)"

definition old_majority :: "cluster_config \<Rightarrow> nat" where
  "old_majority c = fcard (members c) div 2 + 1"

definition new_majority :: "cluster_config \<Rightarrow> nat option" where
  "new_majority c = map_option (\<lambda>m. fcard m div 2 + 1) (new_members c)"

definition has_old_majority :: "cluster_config \<Rightarrow> node fset \<Rightarrow> bool" where
  "has_old_majority c voters \<longleftrightarrow> fcard (ffilter (\<lambda>v. v |\<in>| members c) voters) \<ge> old_majority c"

definition has_new_majority :: "cluster_config \<Rightarrow> node fset \<Rightarrow> bool" where
  "has_new_majority c voters \<longleftrightarrow>
     (case new_members c of
        Some new \<Rightarrow> fcard (ffilter (\<lambda>v. v |\<in>| new) voters) \<ge> (case new_majority c of Some n \<Rightarrow> n | None \<Rightarrow> 1)
      | None \<Rightarrow> True)"

definition has_quorum :: "cluster_config \<Rightarrow> node fset \<Rightarrow> bool" where
  "has_quorum c voters \<longleftrightarrow> has_old_majority c voters \<and> has_new_majority c voters"

section \<open>Commands, entries, messages\<close>

datatype command =
    Noop
  | SetCmd bytes bytes
  | DeleteCmd bytes
  | ConfigChange cluster_config
  | MutationDelta bytes

record raft_entry =
  e_term :: nat
  e_index :: nat
  e_command :: command

definition entry_new :: "nat \<Rightarrow> nat \<Rightarrow> command \<Rightarrow> raft_entry" where
  "entry_new t i c = \<lparr>e_term = t, e_index = i, e_command = c\<rparr>"

record snapshot_metadata =
  sm_last_index :: nat
  sm_last_term :: nat
  sm_config :: cluster_config
  sm_total_size :: nat

record snapshot =
  sn_metadata :: snapshot_metadata
  sn_data :: bytes

record vote_request =
  vr_term :: nat
  vr_candidate :: node
  vr_last_log_index :: nat
  vr_last_log_term :: nat

record vote_response =
  vs_term :: nat
  vs_granted :: bool

record append_request =
  ar_term :: nat
  ar_leader :: node
  ar_prev_log_index :: nat
  ar_prev_log_term :: nat
  ar_entries :: "raft_entry list"
  ar_leader_commit :: nat

record append_response =
  as_term :: nat
  as_success :: bool
  as_conflict_index :: "nat option"
  as_conflict_term :: "nat option"
  as_match_index :: nat

record install_request =
  ir_term :: nat
  ir_leader :: node
  ir_last_index :: nat
  ir_last_term :: nat
  ir_offset :: nat
  ir_data :: bytes
  ir_done :: bool
  ir_config :: cluster_config

record install_response =
  is_term :: nat
  is_success :: bool
  is_next_offset :: nat

datatype raft_error =
    NotLeader "node option"
  | ProposalFailed string
  | RaftTimeout
  | NodeNotFound node
  | InvalidConfig string
  | SnapshotError string
  | RaftInternal string

section \<open>Persistent state\<close>

record persistent =
  current_term :: nat
  voted_for :: "node option"
  rlog :: "raft_entry list"

definition ps_new :: persistent where
  "ps_new = \<lparr>current_term = 0, voted_for = None, rlog = []\<rparr>"

definition last_log_index :: "persistent \<Rightarrow> nat" where
  "last_log_index p = (if rlog p = [] then 0 else e_index (last (rlog p)))"

definition last_log_term :: "persistent \<Rightarrow> nat" where
  "last_log_term p = (if rlog p = [] then 0 else e_term (last (rlog p)))"

definition get_entry :: "persistent \<Rightarrow> nat \<Rightarrow> raft_entry option" where
  "get_entry p i = (if i = 0 \<or> i > length (rlog p) then None else Some (rlog p ! (i - 1)))"

definition get_term :: "persistent \<Rightarrow> nat \<Rightarrow> nat option" where
  "get_term p i = map_option e_term (get_entry p i)"

definition append_entries :: "persistent \<Rightarrow> raft_entry list \<Rightarrow> persistent" where
  "append_entries p es = p\<lparr>rlog := rlog p @ es\<rparr>"

definition truncate_from :: "persistent \<Rightarrow> nat \<Rightarrow> persistent" where
  "truncate_from p i = (if i > 0 \<and> i \<le> length (rlog p) then p\<lparr>rlog := take (i - 1) (rlog p)\<rparr> else p)"

text \<open>The slice \<open>log[start..end]\<close> panics when \<open>start\<close> is beyond \<open>end\<close>; the panic is \<open>None\<close>.\<close>

definition get_entries :: "persistent \<Rightarrow> nat \<Rightarrow> nat \<Rightarrow> raft_entry list option" where
  "get_entries p start_index end_index =
     (if start_index = 0 \<or> start_index > end_index then Some []
      else let s = start_index - 1; e = min end_index (length (rlog p))
           in if s > e then None else Some (take (e - s) (drop s (rlog p))))"

fun reindex :: "nat \<Rightarrow> nat \<Rightarrow> raft_entry list \<Rightarrow> raft_entry list" where
  "reindex n i [] = []"
| "reindex n i (e # es) = e\<lparr>e_index := i + 1 + n\<rparr> # reindex n (i + 1) es"

definition compact_until :: "persistent \<Rightarrow> nat \<Rightarrow> persistent" where
  "compact_until p n =
     (if n > 0 \<and> n \<le> length (rlog p) then p\<lparr>rlog := reindex n 0 (drop n (rlog p))\<rparr> else p)"

section \<open>Leader state\<close>

record leader_state =
  next_index :: "(node, nat) fmap"
  match_index :: "(node, nat) fmap"

definition ls_new :: "node fset \<Rightarrow> nat \<Rightarrow> leader_state" where
  "ls_new peers last_index =
     \<lparr>next_index = fmap_of_list (map (\<lambda>p. (p, last_index + 1)) (sorted_list_of_fset peers)),
      match_index = fmap_of_list (map (\<lambda>p. (p, 0)) (sorted_list_of_fset peers))\<rparr>"

definition update_match :: "leader_state \<Rightarrow> node \<Rightarrow> nat \<Rightarrow> leader_state" where
  "update_match l i m = l\<lparr>match_index := fmupd i m (match_index l), next_index := fmupd i (m + 1) (next_index l)\<rparr>"

definition decrement_next :: "leader_state \<Rightarrow> node \<Rightarrow> nat option \<Rightarrow> leader_state" where
  "decrement_next l i hint =
     (case fmlookup (next_index l) i of
        None \<Rightarrow> l
      | Some next \<Rightarrow>
          (case hint of
             Some h \<Rightarrow> l\<lparr>next_index := fmupd i (min next h) (next_index l)\<rparr>
           | None \<Rightarrow> if next > 1 then l\<lparr>next_index := fmupd i (next - 1) (next_index l)\<rparr> else l))"

section \<open>Quorums\<close>

text \<open>
  What the protocol needs of quorums: two of them share a node. Then no two candidates can both hold a
  quorum of votes when every node gives its vote to one candidate.
\<close>

locale quorum_system =
  fixes quorum :: "'q fset \<Rightarrow> bool"
  assumes intersect: "quorum A \<Longrightarrow> quorum B \<Longrightarrow> \<exists>x. x |\<in>| A \<and> x |\<in>| B"
begin

lemma quorum_nonempty: "quorum A \<Longrightarrow> A \<noteq> {||}"
  using intersect [of A A] by auto

lemma single_winner:
  assumes "quorum A" "quorum B" "\<And>x. x |\<in>| A \<Longrightarrow> granted x a" "\<And>x. x |\<in>| B \<Longrightarrow> granted x b"
    and once: "\<And>x c d. granted x c \<Longrightarrow> granted x d \<Longrightarrow> c = d"
  shows "a = b"
  using intersect [OF assms(1,2)] assms(3,4) once by blast

end

lemma majorities_intersect:
  assumes "fcard (ffilter (\<lambda>v. v |\<in>| M) A) \<ge> fcard M div 2 + 1" "fcard (ffilter (\<lambda>v. v |\<in>| M) B) \<ge> fcard M div 2 + 1"
  shows "\<exists>x. x |\<in>| A \<and> x |\<in>| B"
proof (rule ccontr)
  assume no: "\<nexists>x. x |\<in>| A \<and> x |\<in>| B"
  let ?A = "ffilter (\<lambda>v. v |\<in>| M) A" and ?B = "ffilter (\<lambda>v. v |\<in>| M) B"
  have "?A |\<inter>| ?B = {||}" using no by auto
  then have "fcard (?A |\<union>| ?B) = fcard ?A + fcard ?B" by (rule fcard_funion_disjoint)
  moreover have "fcard (?A |\<union>| ?B) \<le> fcard M" by (rule fcard_mono) auto
  ultimately show False using assms by linarith
qed

text \<open>During a membership change: a quorum of the joint configuration meets every quorum of the old and of the new one.\<close>

lemma joint_quorum_intersects:
  assumes "has_quorum j Q" "has_quorum c R"
    and "members c = members j \<or> new_members j = Some (members c)"
  shows "\<exists>x. x |\<in>| Q \<and> x |\<in>| R"
  using assms majorities_intersect [of "members j" Q R] majorities_intersect [of "members c" Q R]
  by (auto simp: has_quorum_def has_old_majority_def has_new_majority_def old_majority_def new_majority_def)

interpretation cluster: quorum_system "has_quorum c" for c
  by unfold_locales (rule joint_quorum_intersects, auto)

end
