(* ===== verification/Raft_Wal.thy ===== *)
theory Raft_Wal
  imports Raft_Types
begin

text \<open>
  The append-only log of the consensus layer, \<open>RaftWal\<close> in \<open>crates/joule-db-server/src/raft.rs\<close>, byte by byte: the
  record format with its checksum, the checkpoint, and recovery after a crash.

  The checksum (crate \<open>crc32fast\<close>) and the encoding of an entry (crate \<open>bincode\<close>) are the parameters of \<open>wal_codec\<close>.
  A Rust \<open>String\<close> is the list of its UTF-8 bytes, one \<open>char\<close> per byte. File operations succeed; a crash may
  cut the last record short.
\<close>

section \<open>Strings\<close>

definition as_bytes :: "string \<Rightarrow> bytes" where
  "as_bytes s = map of_char s"

definition utf8_cont :: "u8 \<Rightarrow> bool" where
  "utf8_cont b \<longleftrightarrow> 0x80 \<le> b \<and> b \<le> 0xBF"

definition utf8_lead3 :: "u8 \<Rightarrow> u8 \<Rightarrow> bool" where
  "utf8_lead3 b0 b1 \<longleftrightarrow> (b0 = 0xE0 \<and> 0xA0 \<le> b1 \<and> b1 \<le> 0xBF) \<or> (0xE1 \<le> b0 \<and> b0 \<le> 0xEC \<and> utf8_cont b1) \<or>
     (b0 = 0xED \<and> 0x80 \<le> b1 \<and> b1 \<le> 0x9F) \<or> (0xEE \<le> b0 \<and> b0 \<le> 0xEF \<and> utf8_cont b1)"

definition utf8_lead4 :: "u8 \<Rightarrow> u8 \<Rightarrow> bool" where
  "utf8_lead4 b0 b1 \<longleftrightarrow> (b0 = 0xF0 \<and> 0x90 \<le> b1 \<and> b1 \<le> 0xBF) \<or> (0xF1 \<le> b0 \<and> b0 \<le> 0xF3 \<and> utf8_cont b1) \<or>
     (b0 = 0xF4 \<and> 0x80 \<le> b1 \<and> b1 \<le> 0x8F)"

fun utf8_ok :: "bytes \<Rightarrow> bool" where
  "utf8_ok [] = True"
| "utf8_ok (b0 # bs) =
     (if b0 < 0x80 then utf8_ok bs
      else case bs of [] \<Rightarrow> False | b1 # bs1 \<Rightarrow>
        if 0xC2 \<le> b0 \<and> b0 \<le> 0xDF then utf8_cont b1 \<and> utf8_ok bs1
        else case bs1 of [] \<Rightarrow> False | b2 # bs2 \<Rightarrow>
          if utf8_lead3 b0 b1 then utf8_cont b2 \<and> utf8_ok bs2
          else case bs2 of [] \<Rightarrow> False | b3 # bs3 \<Rightarrow>
            utf8_lead4 b0 b1 \<and> utf8_cont b2 \<and> utf8_cont b3 \<and> utf8_ok bs3)"

definition from_utf8 :: "bytes \<Rightarrow> string option" where
  "from_utf8 bs = (if utf8_ok bs then Some (map (\<lambda>b. char_of (unat b)) bs) else None)"

lemma as_bytes_length [simp]: "length (as_bytes s) = length s"
  by (simp add: as_bytes_def)

lemma from_utf8_as_bytes: "utf8_ok (as_bytes s) \<Longrightarrow> from_utf8 (as_bytes s) = Some s"
proof -
  have "char_of (unat (of_char c :: u8)) = c" for c
    unfolding of_nat_of_char [of c, where ?'a = "8 word", symmetric] unat_of_nat by simp
  then show "utf8_ok (as_bytes s) \<Longrightarrow> from_utf8 (as_bytes s) = Some s"
    by (simp add: from_utf8_def as_bytes_def comp_def)
qed

section \<open>Records\<close>

datatype wal_record =
    WalMeta nat "node option"
  | WalEntry raft_entry

record wal_codec =
  crc32 :: "bytes \<Rightarrow> nat"
  entry_enc :: "raft_entry \<Rightarrow> bytes"
  entry_dec :: "bytes \<Rightarrow> raft_entry option"

definition wal_type_meta :: u8 where "wal_type_meta = 1"

definition wal_type_entry :: u8 where "wal_type_entry = 2"

definition encode_entry :: "wal_codec \<Rightarrow> raft_entry \<Rightarrow> bytes" where
  "encode_entry c e =
     (let data = entry_enc c e; rec = wal_type_entry # le_enc 4 (length data) @ data
      in rec @ le_enc 4 (crc32 c rec))"

definition encode_meta :: "wal_codec \<Rightarrow> nat \<Rightarrow> node option \<Rightarrow> bytes" where
  "encode_meta c t v =
     (let rec = wal_type_meta # le_enc 8 t @
            (case v of Some i \<Rightarrow> 1 # le_enc 4 (length (as_bytes i)) @ as_bytes i | None \<Rightarrow> [0])
      in rec @ le_enc 4 (crc32 c rec))"

fun encode_record :: "wal_codec \<Rightarrow> wal_record \<Rightarrow> bytes" where
  "encode_record c (WalMeta t v) = encode_meta c t v"
| "encode_record c (WalEntry e) = encode_entry c e"

section \<open>The files\<close>

text \<open>The directory of a node: the JSON state of the last checkpoint and the log file.\<close>

record raft_wal =
  wal_json :: "persistent option"
  wal_file :: bytes
  entries_since_checkpoint :: nat
  checkpoint_threshold :: nat

definition wal_open :: "persistent option \<Rightarrow> bytes \<Rightarrow> raft_wal" where
  "wal_open json file = \<lparr>wal_json = json, wal_file = file, entries_since_checkpoint = 0, checkpoint_threshold = 10000\<rparr>"

definition wal_append_entry :: "wal_codec \<Rightarrow> raft_wal \<Rightarrow> raft_entry \<Rightarrow> raft_wal" where
  "wal_append_entry c w e = w\<lparr>wal_file := wal_file w @ encode_entry c e,
     entries_since_checkpoint := entries_since_checkpoint w + 1\<rparr>"

definition wal_append_meta :: "wal_codec \<Rightarrow> raft_wal \<Rightarrow> nat \<Rightarrow> node option \<Rightarrow> raft_wal" where
  "wal_append_meta c w t v = w\<lparr>wal_file := wal_file w @ encode_meta c t v\<rparr>"

definition needs_checkpoint :: "raft_wal \<Rightarrow> bool" where
  "needs_checkpoint w \<longleftrightarrow> entries_since_checkpoint w \<ge> checkpoint_threshold w"

definition wal_checkpoint :: "raft_wal \<Rightarrow> persistent \<Rightarrow> raft_wal" where
  "wal_checkpoint w s = w\<lparr>wal_json := Some s, wal_file := [], entries_since_checkpoint := 0\<rparr>"

definition load_from_dir :: "persistent option \<Rightarrow> persistent" where
  "load_from_dir json = (case json of None \<Rightarrow> ps_new | Some s \<Rightarrow> s)"

definition push_entry :: "persistent \<Rightarrow> raft_entry \<Rightarrow> persistent" where
  "push_entry s e = (if e_index e > last_log_index s then s\<lparr>rlog := rlog s @ [e]\<rparr> else s)"

text \<open>
  The voted-for field of a metadata record at the head of \<open>rest\<close>: \<open>Inl False\<close> when it is cut short,
  \<open>Inl True\<close> when it is not UTF-8, else the value and the position behind it.
\<close>

definition parse_voted :: "bytes \<Rightarrow> bool + node option \<times> nat" where
  "parse_voted rest =
     (if rest ! 9 = 1 then
        (if 10 + 4 > length rest then Inl False
         else let id_len = le_dec (take 4 (drop 10 rest))
              in if 14 + id_len > length rest then Inl False
                 else case from_utf8 (take id_len (drop 14 rest)) of
                        None \<Rightarrow> Inl True
                      | Some i \<Rightarrow> Inr (Some i, 14 + id_len))
      else Inr (None, 10))"

text \<open>The replay loop of \<open>recover\<close>; \<open>rest\<close> is the file from the cursor on, and a \<open>break\<close> returns the state reached.\<close>

function recover_loop :: "wal_codec \<Rightarrow> persistent \<Rightarrow> bytes \<Rightarrow> string + persistent" where
  "recover_loop c s rest =
     (if rest = [] then Inr s
      else if 5 > length rest then Inr s
      else if rest ! 0 = wal_type_entry then
        let len = le_dec (take 4 (drop 1 rest))
        in if 5 + len + 4 > length rest then Inr s
           else if le_dec (take 4 (drop (5 + len) rest)) \<noteq> crc32 c (take (5 + len) rest) then Inr s
           else (case entry_dec c (take len (drop 5 rest)) of
                   None \<Rightarrow> Inl ''WAL entry deserialize''
                 | Some e \<Rightarrow> recover_loop c (push_entry s e) (drop (5 + len + 4) rest))
      else if rest ! 0 = wal_type_meta then
        if 1 + 9 > length rest then Inr s
        else (case parse_voted rest of
                Inl False \<Rightarrow> Inr s
              | Inl True \<Rightarrow> Inl ''WAL voted_for UTF-8''
              | Inr (v, pos) \<Rightarrow>
                  if pos + 4 > length rest then Inr s
                  else if le_dec (take 4 (drop pos rest)) \<noteq> crc32 c (take pos rest) then Inr s
                  else recover_loop c (s\<lparr>current_term := le_dec (take 8 (drop 1 rest)), voted_for := v\<rparr>)
                         (drop (pos + 4) rest))
      else Inr s)"
  by pat_completeness auto
termination by (relation "measure (\<lambda>(c, s, rest). length rest)") auto

declare recover_loop.simps [simp del]

definition wal_recover :: "wal_codec \<Rightarrow> raft_wal \<Rightarrow> string + persistent" where
  "wal_recover c w = recover_loop c (load_from_dir (wal_json w)) (wal_file w)"

section \<open>Replay\<close>

fun replay_record :: "wal_record \<Rightarrow> persistent \<Rightarrow> persistent" where
  "replay_record (WalMeta t v) s = s\<lparr>current_term := t, voted_for := v\<rparr>"
| "replay_record (WalEntry e) s = push_entry s e"

fun record_ok :: "wal_codec \<Rightarrow> wal_record \<Rightarrow> bool" where
  "record_ok c (WalMeta t v) \<longleftrightarrow> t < 2 ^ 64 \<and>
     (case v of None \<Rightarrow> True | Some i \<Rightarrow> utf8_ok (as_bytes i) \<and> length i < 2 ^ 32)"
| "record_ok c (WalEntry e) \<longleftrightarrow> length (entry_enc c e) < 2 ^ 32 \<and> entry_dec c (entry_enc c e) = Some e"

abbreviation crc_ok :: "wal_codec \<Rightarrow> bool" where
  "crc_ok c \<equiv> \<forall>bs. crc32 c bs < 2 ^ 32"

lemma le4_crc: "crc_ok c \<Longrightarrow> le_dec (le_enc 4 (crc32 c bs)) = crc32 c bs"
  by (intro le_dec_enc_small) simp

lemma split_app: "length xs = n \<Longrightarrow> take n (xs @ ys) = xs" "length xs = n \<Longrightarrow> drop n (xs @ ys) = ys"
  by simp_all

lemma split_app4: "drop (n + 4) (xs @ le_enc 4 x @ ys) = ys" if "length xs = n"
  using that by simp

lemma split_head: "take n (drop (length xs) (xs @ zs @ ys)) = zs" if "length zs = n"
  using that by simp

text \<open>One step of the loop on a complete record, and on a record that is cut short.\<close>

lemma recover_entry_step:
  assumes "hd_bytes = le_enc 4 (length d)" "length d < 2 ^ 32" "crc_ok c" "entry_dec c d = Some e"
  defines "rec \<equiv> wal_type_entry # hd_bytes @ d"
  shows "recover_loop c s (rec @ le_enc 4 (crc32 c rec) @ rest) = recover_loop c (push_entry s e) rest"
proof -
  let ?bs = "rec @ le_enc 4 (crc32 c rec) @ rest"
  have len: "le_dec (take 4 (drop 1 ?bs)) = length d"
    using assms(1,2) le_dec_enc_small [of "length d" 4] by (simp add: rec_def)
  have l: "length rec = 5 + length d" by (simp add: rec_def assms(1))
  have "take (length d) (drop 5 ?bs) = d"
    using split_head [of d "length d" "wal_type_entry # hd_bytes" "le_enc 4 (crc32 c rec) @ rest"]
    by (simp add: rec_def assms(1))
  moreover have "?bs ! 0 = wal_type_entry" "?bs \<noteq> []" by (simp_all add: rec_def)
  moreover have "le_dec (take 4 (drop (5 + length d) ?bs)) = crc32 c (take (5 + length d) ?bs)"
    unfolding split_app [OF l] using le4_crc [OF assms(3)] by simp
  moreover have "drop (5 + length d + 4) ?bs = rest" by (rule split_app4 [OF l])
  moreover have "\<not> 5 > length ?bs" "\<not> 5 + length d + 4 > length ?bs" using l by simp_all
  ultimately show ?thesis
    using assms(4) by (subst recover_loop.simps) (simp only: len Let_def if_True if_False option.case simp_thms)
qed

lemma recover_meta_step:
  assumes "parse_voted (rec @ le_enc 4 (crc32 c rec) @ rest) = Inr (v, length rec)" "crc_ok c" "t < 2 ^ 64"
    and rec: "rec = wal_type_meta # le_enc 8 t @ b # tl_bytes"
  shows "recover_loop c s (rec @ le_enc 4 (crc32 c rec) @ rest) =
    recover_loop c (s\<lparr>current_term := t, voted_for := v\<rparr>) rest"
proof -
  let ?bs = "rec @ le_enc 4 (crc32 c rec) @ rest"
  have "le_dec (take 8 (drop 1 ?bs)) = t"
    using assms(3) le_dec_enc_small [of t 8] by (simp add: rec)
  moreover have "?bs ! 0 = wal_type_meta" "?bs \<noteq> []" "wal_type_meta \<noteq> wal_type_entry"
    by (simp_all add: rec wal_type_meta_def wal_type_entry_def)
  moreover have "le_dec (take 4 (drop (length rec) ?bs)) = crc32 c (take (length rec) ?bs)"
    using le4_crc [OF assms(2)] by (simp add: split_app [of "le_enc 4 _" 4])
  moreover have "drop (length rec + 4) ?bs = rest" by (rule split_app4) simp
  moreover have "\<not> 5 > length ?bs" "\<not> 1 + 9 > length ?bs" "\<not> length rec + 4 > length ?bs" by (simp_all add: rec)
  ultimately show ?thesis
    by (subst recover_loop.simps)
      (simp only: assms(1) Let_def if_True if_False sum.case prod.case simp_thms)
qed

lemma recover_record:
  assumes "crc_ok c" "record_ok c r"
  shows "recover_loop c s (encode_record c r @ rest) = recover_loop c (replay_record r s) rest"
proof (cases r)
  case (WalEntry e)
  then show ?thesis using recover_entry_step [OF refl _ assms(1), of "entry_enc c e" e s rest] assms(2)
    by (simp add: encode_entry_def Let_def)
next
  case (WalMeta t v)
  show ?thesis
  proof (cases v)
    case None
    let ?rec = "wal_type_meta # le_enc 8 t @ [0]"
    have "parse_voted (?rec @ le_enc 4 (crc32 c ?rec) @ rest) = Inr (None, length ?rec)"
      by (simp add: parse_voted_def nth_append)
    from recover_meta_step [OF this assms(1)] assms(2) show ?thesis
      by (simp add: WalMeta None encode_meta_def Let_def)
  next
    case (Some i)
    let ?rec = "wal_type_meta # le_enc 8 t @ 1 # le_enc 4 (length i) @ as_bytes i"
    let ?bs = "?rec @ le_enc 4 (crc32 c ?rec) @ rest"
    have ok: "utf8_ok (as_bytes i)" "length i < 2 ^ 32" "t < 2 ^ 64" using assms(2) WalMeta Some by auto
    have "?bs ! 9 = 1" by (simp add: nth_append)
    moreover have "le_dec (take 4 (drop 10 ?bs)) = length i"
      using ok(2) le_dec_enc_small [of "length i" 4] by simp
    moreover have "take (length i) (drop 14 ?bs) = as_bytes i" by simp
    ultimately have "parse_voted ?bs = Inr (Some i, length ?rec)"
      using from_utf8_as_bytes [OF ok(1)] by (simp add: parse_voted_def Let_def)
    from recover_meta_step [OF this assms(1) ok(3)] show ?thesis
      by (simp add: WalMeta Some encode_meta_def Let_def)
  qed
qed

lemma recover_records:
  "crc_ok c \<Longrightarrow> list_all (record_ok c) rs \<Longrightarrow>
    recover_loop c s (concat (map (encode_record c) rs) @ rest) = recover_loop c (fold replay_record rs s) rest"
  by (induction rs arbitrary: s) (auto simp: recover_record)

text \<open>A record that was cut short is ignored, with everything read before kept.\<close>

lemma recover_torn_entry:
  assumes "n < length (encode_entry c e)" "length (entry_enc c e) < 2 ^ 32"
  shows "recover_loop c s (take n (encode_entry c e)) = Inr s"
proof -
  let ?d = "entry_enc c e" and ?p = "take n (encode_entry c e)"
  have l: "length ?p = n" "n < 9 + length ?d" using assms(1) by (simp_all add: encode_entry_def Let_def)
  have "le_dec (take 4 (drop 1 ?p)) = length ?d" if "n \<ge> 5"
  proof -
    have "take 4 (drop 1 ?p) = take 4 (take (n - 1) (le_enc 4 (length ?d) @ ?d @ le_enc 4 (crc32 c (wal_type_entry # le_enc 4 (length ?d) @ ?d))))"
      using that by (cases n) (simp_all add: encode_entry_def Let_def)
    also have "\<dots> = le_enc 4 (length ?d)" using that by simp
    finally show ?thesis using le_dec_enc_small [of "length ?d" 4] assms(2) by simp
  qed
  moreover have "n \<ge> 5 \<Longrightarrow> ?p ! 0 = wal_type_entry" by (simp add: encode_entry_def Let_def)
  ultimately show ?thesis using l by (subst recover_loop.simps) (auto simp: Let_def)
qed

lemma recover_torn_meta:
  assumes "n < length (encode_meta c t v)" "record_ok c (WalMeta t v)"
  shows "recover_loop c s (take n (encode_meta c t v)) = Inr s"
proof -
  let ?p = "take n (encode_meta c t v)"
  have n: "length ?p = n" using assms(1) by simp
  have short: "parse_voted ?p = Inl False \<or> (\<exists>w pos. parse_voted ?p = Inr (w, pos) \<and> pos + 4 > n)" if "n \<ge> 10"
  proof (cases v)
    case None
    then have "?p ! 9 = 0" "n < 14" using that assms(1) by (simp_all add: encode_meta_def Let_def nth_append)
    then show ?thesis by (simp add: parse_voted_def)
  next
    case (Some i)
    let ?tail = "le_enc 4 (crc32 c (wal_type_meta # le_enc 8 t @ 1 # le_enc 4 (length i) @ as_bytes i))"
    let ?full = "(wal_type_meta # le_enc 8 t @ [1]) @ le_enc 4 (length i) @ as_bytes i @ ?tail"
    have p: "?p = take n ?full" by (simp add: Some encode_meta_def Let_def)
    have ok: "utf8_ok (as_bytes i)" "length i < 2 ^ 32" using assms(2) Some by auto
    have 9: "?p ! 9 = 1" using that by (simp add: p nth_append)
    have len: "n < 18 + length i" using assms(1) by (simp add: Some encode_meta_def Let_def)
    show ?thesis
    proof (cases "14 \<le> n")
      case True
      have "take 4 (drop 10 ?p) = take 4 (take (n - 10) (drop 10 ?full))" by (simp only: p drop_take)
      also have "\<dots> = le_enc 4 (length i)" using True by simp
      finally have id_len: "le_dec (take 4 (drop 10 ?p)) = length i"
        using ok(2) le_dec_enc_small [of "length i" 4] by simp
      show ?thesis
      proof (cases "14 + length i \<le> n")
        case True
        have "take (length i) (drop 14 ?p) = take (length i) (take (n - 14) (drop 14 ?full))" by (simp only: p drop_take)
        also have "\<dots> = as_bytes i" using True by simp
        finally show ?thesis using True 9 id_len n len from_utf8_as_bytes [OF ok(1)] by (simp add: parse_voted_def Let_def)
      next
        case False
        then show ?thesis using \<open>14 \<le> n\<close> 9 id_len n by (simp add: parse_voted_def Let_def)
      qed
    next
      case False
      then show ?thesis using 9 n by (simp add: parse_voted_def)
    qed
  qed
  have 0: "n \<ge> 5 \<Longrightarrow> ?p ! 0 = wal_type_meta" by (simp add: encode_meta_def Let_def)
  show ?thesis
  proof (cases "n \<ge> 10")
    case True
    with short 0 n show ?thesis
      by (subst recover_loop.simps) (auto simp: wal_type_meta_def wal_type_entry_def)
  next
    case False
    with 0 n show ?thesis
      by (subst recover_loop.simps) (auto simp: wal_type_meta_def wal_type_entry_def)
  qed
qed

lemma recover_torn_record:
  "n < length (encode_record c r) \<Longrightarrow> record_ok c r \<Longrightarrow> recover_loop c s (take n (encode_record c r)) = Inr s"
  by (cases r) (auto simp: recover_torn_entry intro!: recover_torn_meta)

text \<open>
  C13: Recovery reads back what was written. If the log file holds the encodings of a sequence of records,
  followed by any proper prefix of a further record (a write cut short by a crash), then \<open>recover\<close>
  returns the checkpoint's state with exactly the complete records replayed, and no error. The hypothesis on a
  record is that the crate \<open>bincode\<close> decodes what it encoded and that lengths fit their fields.
\<close>
theorem raft_wal_roundtrip:
  assumes "\<forall>bs. crc32 c bs < 2 ^ 32" "list_all (record_ok c) rs" "record_ok c r" "n < length (encode_record c r)"
    and "wal_file w = concat (map (encode_record c) rs) @ take n (encode_record c r)"
  shows "wal_recover c w = Inr (fold replay_record rs (load_from_dir (wal_json w)))"
  using assms(3-5) recover_records [OF assms(1,2)] by (simp add: wal_recover_def recover_torn_record)

text \<open>A codec to evaluate: an additive checksum and entries of no-operations with one-byte fields.\<close>

definition toy_codec :: wal_codec where
  "toy_codec = \<lparr>crc32 = \<lambda>bs. sum_list (map unat bs) mod 2 ^ 32,
     entry_enc = \<lambda>e. [of_nat (e_term e), of_nat (e_index e)],
     entry_dec = \<lambda>bs. (case bs of [t, i] \<Rightarrow> Some (entry_new (unat t) (unat i) Noop) | _ \<Rightarrow> None)\<rparr>"

lemma toy_codec_facts:
  "\<forall>bs. crc32 toy_codec bs < 2 ^ 32"
  "record_ok toy_codec (WalMeta 3 (Some ''n1''))" "record_ok toy_codec (WalEntry (entry_new 3 1 Noop))"
proof -
  have "utf8_ok (as_bytes ''n1'')" by code_simp
  then show "record_ok toy_codec (WalMeta 3 (Some ''n1''))" by simp
qed (simp_all add: toy_codec_def entry_new_def)

theorem raft_wal_roundtrip_witness:
  "let rs = [WalMeta 3 (Some ''n1''), WalEntry (entry_new 3 1 Noop)];
       w = wal_open None (concat (map (encode_record toy_codec) rs) @ take 5 (encode_record toy_codec (WalMeta 3 (Some ''n1''))))
   in wal_recover toy_codec w = Inr \<lparr>current_term = 3, voted_for = Some ''n1'', rlog = [entry_new 3 1 Noop]\<rparr>"
proof -
  let ?rs = "[WalMeta 3 (Some ''n1''), WalEntry (entry_new 3 1 Noop)]"
  let ?w = "wal_open None (concat (map (encode_record toy_codec) ?rs) @ take 5 (encode_record toy_codec (WalMeta 3 (Some ''n1''))))"
  have "list_all (record_ok toy_codec) ?rs" "5 < length (encode_record toy_codec (WalMeta 3 (Some ''n1'')))"
    using toy_codec_facts(2,3) by (simp_all add: encode_meta_def Let_def)
  from raft_wal_roundtrip [OF toy_codec_facts(1) this(1) toy_codec_facts(2) this(2), of ?w] show ?thesis
    by (simp add: wal_open_def load_from_dir_def ps_new_def push_entry_def last_log_index_def entry_new_def)
qed

end
