(* ===== verification/Erasure.thy ===== *)
theory Erasure
  imports Prelude
begin

text \<open>
  Erasure coding of snapshots, \<open>crates/joule-db-server/src/hrp_erasure.rs\<close>: a payload is padded, cut into
  data shards and extended by parity shards; any sufficiently large subset of the shards gives the payload
  back. The Reed-Solomon code itself is the crate \<open>reed-solomon-erasure\<close>: its constructor,
  \<open>encode\<close> and \<open>reconstruct\<close> are the parameter \<open>rs\<close>.
\<close>

record erasure_config =
  data_shards :: nat
  parity_shards :: nat
  threshold_bytes :: nat

definition erasure_default :: erasure_config where
  "erasure_default = \<lparr>data_shards = 2, parity_shards = 1, threshold_bytes = 64 * 1024\<rparr>"

record erasure_shard =
  sh_index :: nat
  sh_data :: bytes
  sh_total :: nat
  sh_original_len :: nat
  sh_data_shards :: nat
  sh_parity_shards :: nat

datatype erasure_error =
    EmptyPayload
  | ErasureInvalidConfig string
  | InsufficientShards nat nat
  | ErasureInternal string

record reed_solomon =
  rs_new :: "nat \<Rightarrow> nat \<Rightarrow> string + unit"
  rs_encode :: "nat \<Rightarrow> nat \<Rightarrow> bytes list \<Rightarrow> string + bytes list"
  rs_reconstruct :: "nat \<Rightarrow> nat \<Rightarrow> bytes option list \<Rightarrow> string + bytes option list"

text \<open>The \<open>i\<close>-th data shard, padded with zeros.\<close>

definition data_shard :: "bytes \<Rightarrow> nat \<Rightarrow> nat \<Rightarrow> bytes" where
  "data_shard data sz i =
     (let s = i * sz; e = min (s + sz) (length data);
          shard = (if s < length data then take (e - s) (drop s data) else [])
      in shard @ replicate (sz - length shard) 0)"

fun wrap_shards :: "nat \<Rightarrow> bytes list \<Rightarrow> nat \<Rightarrow> erasure_config \<Rightarrow> erasure_shard list" where
  "wrap_shards i [] len cfg = []"
| "wrap_shards i (d # ds) len cfg =
     \<lparr>sh_index = i, sh_data = d, sh_total = data_shards cfg + parity_shards cfg, sh_original_len = len,
      sh_data_shards = data_shards cfg, sh_parity_shards = parity_shards cfg\<rparr> # wrap_shards (i + 1) ds len cfg"

definition erasure_encode :: "reed_solomon \<Rightarrow> bytes \<Rightarrow> erasure_config \<Rightarrow> erasure_error + erasure_shard list" where
  "erasure_encode rs data cfg =
     (if data = [] then Inl EmptyPayload
      else if data_shards cfg = 0 \<or> parity_shards cfg = 0
      then Inl (ErasureInvalidConfig ''data_shards and parity_shards must be > 0'')
      else case rs_new rs (data_shards cfg) (parity_shards cfg) of
        Inl e \<Rightarrow> Inl (ErasureInternal (''ReedSolomon::new: '' @ e))
      | Inr _ \<Rightarrow>
          let k = data_shards cfg; m = parity_shards cfg;
              sz = (length data + k - 1) div k;
              shards = map (data_shard data sz) [0..<k] @ replicate m (replicate sz 0)
          in case rs_encode rs k m shards of
               Inl e \<Rightarrow> Inl (ErasureInternal (''encode: '' @ e))
             | Inr full \<Rightarrow> Inr (wrap_shards 0 full (length data) cfg))"

definition erasure_decode :: "reed_solomon \<Rightarrow> erasure_shard option list \<Rightarrow> erasure_error + bytes" where
  "erasure_decode rs shards =
     (if shards = [] then Inl EmptyPayload
      else case List.map_filter id shards of
        [] \<Rightarrow> Inl (InsufficientShards 0 0)
      | first # _ \<Rightarrow>
          let k = sh_data_shards first; m = sh_parity_shards first; total = k + m;
              available = length (filter (\<lambda>s. s \<noteq> None) shards)
          in if length shards \<noteq> total then Inl (ErasureInvalidConfig ''expected shard slots'')
             else if available < k then Inl (InsufficientShards available k)
             else case rs_new rs k m of
               Inl e \<Rightarrow> Inl (ErasureInternal (''ReedSolomon::new: '' @ e))
             | Inr _ \<Rightarrow>
                 (case rs_reconstruct rs k m (map (map_option sh_data) shards) of
                    Inl e \<Rightarrow> Inl (ErasureInternal (''reconstruct: '' @ e))
                  | Inr full \<Rightarrow> Inr (take (sh_original_len first) (concat (List.map_filter id (take k full))))))"

section \<open>Cutting and padding\<close>

lemma data_shard_length: "length (data_shard data sz i) = sz"
  by (auto simp: data_shard_def Let_def)

text \<open>The first \<open>n\<close> shards, joined, are the payload followed by padding, cut at \<open>n\<close> times the size.\<close>

lemma concat_data_shards:
  "concat (map (data_shard data sz) [0..<n]) = take (n * sz) data @ replicate (n * sz - length data) 0"
proof (induction n)
  case (Suc n)
  have "take (n * sz) data @ replicate (n * sz - length data) 0 @ data_shard data sz n =
      take (Suc n * sz) data @ replicate (Suc n * sz - length data) 0"
  proof (cases "n * sz < length data")
    case True
    have "take (Suc n * sz) data = take (n * sz) data @ take sz (drop (n * sz) data)"
      by (metis add.commute mult_Suc take_add)
    with True show ?thesis
      by (auto simp: data_shard_def Let_def min_def add.commute algebra_simps)
  next
    case False
    then show ?thesis by (simp add: data_shard_def Let_def replicate_add [symmetric] algebra_simps)
  qed
  with Suc show ?case by simp
qed simp

lemma shards_cover:
  assumes "0 < k"
  shows "length data \<le> k * ((length data + k - 1) div k)"
proof -
  let ?n = "length data + k - 1"
  have "k * (?n div k) + ?n mod k = ?n" "?n mod k < k" using assms by auto
  then show ?thesis by linarith
qed

lemma wrap_shards_data: "map sh_data (wrap_shards i ds len cfg) = ds"
  by (induction i ds len cfg rule: wrap_shards.induct) auto

lemma wrap_shards_meta:
  "s \<in> set (wrap_shards i ds len cfg) \<Longrightarrow> sh_original_len s = len \<and> sh_data_shards s = data_shards cfg \<and>
    sh_parity_shards s = parity_shards cfg"
  by (induction i ds len cfg rule: wrap_shards.induct) auto

text \<open>The shards that arrive.\<close>

definition keep_shards :: "bool list \<Rightarrow> 'a list \<Rightarrow> 'a option list" where
  "keep_shards sel xs = map2 (\<lambda>b x. if b then Some x else None) sel xs"

lemma keep_shards_map: "map (map_option f) (keep_shards sel xs) = keep_shards sel (map f xs)"
  by (induction sel xs rule: list_induct2') (auto simp: keep_shards_def)

lemma keep_shards_present: "s \<in> set (List.map_filter id (keep_shards sel xs)) \<Longrightarrow> s \<in> set xs"
  by (induction sel xs rule: list_induct2') (auto simp: keep_shards_def List.map_filter_simps split: if_splits)

lemma keep_shards_count:
  "length sel = length xs \<Longrightarrow> length (filter (\<lambda>s. s \<noteq> None) (keep_shards sel xs)) = length (filter id sel)"
  by (induction sel xs rule: list_induct2) (auto simp: keep_shards_def)

lemma keep_shards_length: "length sel = length xs \<Longrightarrow> length (keep_shards sel xs) = length xs"
  by (simp add: keep_shards_def)

lemma map_filter_id_length: "length (List.map_filter id xs) = length (filter (\<lambda>s. s \<noteq> None) xs)"
  by (induction xs) (auto simp: List.map_filter_simps)

lemma map_filter_map_Some: "List.map_filter id (map Some xs) = xs"
  by (induction xs) (auto simp: List.map_filter_simps)

section \<open>Round trip\<close>

text \<open>
  C30: Any \<open>data_shards\<close> of the shards give the payload back. The hypotheses are what the Reed-Solomon crate
  documents: its encoder keeps the data shards, and its decoder recovers all shards from any \<open>k\<close> of them.
\<close>
theorem erasure_roundtrip:
  assumes enc: "erasure_encode rs data cfg = Inr shards"
    and sel: "length sel = length shards" "data_shards cfg \<le> length (filter id sel)"
    and keeps_data: "\<And>xs full. rs_encode rs (data_shards cfg) (parity_shards cfg) xs = Inr full \<Longrightarrow>
      length full = length xs \<and> take (data_shards cfg) full = take (data_shards cfg) xs"
    and recovers: "\<And>xs full sl. rs_encode rs (data_shards cfg) (parity_shards cfg) xs = Inr full \<Longrightarrow>
      length sl = length full \<Longrightarrow> data_shards cfg \<le> length (filter id sl) \<Longrightarrow>
      rs_reconstruct rs (data_shards cfg) (parity_shards cfg) (keep_shards sl full) = Inr (map Some full)"
  shows "erasure_decode rs (keep_shards sel shards) = Inr data"
proof -
  let ?k = "data_shards cfg" and ?m = "parity_shards cfg"
  let ?size = "(length data + ?k - 1) div ?k"
  let ?xs = "map (data_shard data ?size) [0..<?k] @ replicate ?m (replicate ?size 0)"
  obtain full where new: "data \<noteq> []" "?k > 0" "?m > 0" "rs_new rs ?k ?m = Inr ()"
      and full: "rs_encode rs ?k ?m ?xs = Inr full" "shards = wrap_shards 0 full (length data) cfg"
    using enc by (auto simp: erasure_encode_def Let_def split: if_splits sum.splits)
  have len: "length full = ?k + ?m" "take ?k full = map (data_shard data ?size) [0..<?k]"
    using keeps_data [OF full(1)] by auto
  have sh: "map sh_data shards = full" using full(2) by (simp add: wrap_shards_data)
  then have l: "length shards = length full" by (metis length_map)
  let ?kept = "keep_shards sel shards"
  have n: "length (List.map_filter id ?kept) \<ge> ?k"
    using sel keep_shards_count [OF sel(1)] by (simp add: map_filter_id_length)
  then obtain first rest where first: "List.map_filter id ?kept = first # rest"
    using new(2) by (cases "List.map_filter id ?kept") auto
  then have "first \<in> set shards" using keep_shards_present by (metis list.set_intros(1))
  then have meta: "sh_original_len first = length data" "sh_data_shards first = ?k" "sh_parity_shards first = ?m"
    using wrap_shards_meta by (auto simp: full(2))
  have "rs_reconstruct rs ?k ?m (map (map_option sh_data) ?kept) = Inr (map Some full)"
    using recovers [OF full(1), of sel] sel l by (simp add: keep_shards_map sh)
  moreover have "take (length data) (concat (List.map_filter id (take ?k (map Some full)))) = data"
    using shards_cover [OF new(2), of data]
    by (simp add: take_map map_filter_map_Some len(2) concat_data_shards del: map_map)
  moreover have "?kept \<noteq> []" "length ?kept = ?k + ?m" "\<not> length (filter (\<lambda>s. s \<noteq> None) ?kept) < ?k"
    using n new(2) len(1) l keep_shards_length [OF sel(1)] by (auto simp: map_filter_id_length)
  ultimately show ?thesis by (simp add: erasure_decode_def first meta new(4) Let_def)
qed

text \<open>With one data shard the code is a repetition: every parity shard is a copy.\<close>

definition rs_copy :: reed_solomon where
  "rs_copy = \<lparr>rs_new = \<lambda>k m. Inr (),
     rs_encode = \<lambda>k m xs. (case xs of [] \<Rightarrow> Inl ''empty'' | x # _ \<Rightarrow> Inr (replicate (length xs) x)),
     rs_reconstruct = \<lambda>k m xs. (case List.map_filter id xs of [] \<Rightarrow> Inl ''too few'' | x # _ \<Rightarrow> Inr (replicate (length xs) (Some x)))\<rparr>"

theorem erasure_roundtrip_witness:
  "let cfg = \<lparr>data_shards = 1, parity_shards = 2, threshold_bytes = 0\<rparr>
   in \<exists>shards. erasure_encode rs_copy [7, 8] cfg = Inr shards \<and>
        erasure_decode rs_copy (keep_shards [False, False, True] shards) = Inr [7, 8]"
proof -
  let ?cfg = "\<lparr>data_shards = 1, parity_shards = 2, threshold_bytes = 0\<rparr>"
  obtain shards where s: "erasure_encode rs_copy [7, 8] ?cfg = Inr shards" "length shards = 3"
    by (simp add: erasure_encode_def rs_copy_def Let_def numeral_2_eq_2)
  have "erasure_decode rs_copy (keep_shards [False, False, True] shards) = Inr [7, 8]"
  proof (rule erasure_roundtrip [OF s(1)])
    fix xs full :: "bytes list" and sl :: "bool list"
    assume f: "rs_encode rs_copy (data_shards ?cfg) (parity_shards ?cfg) xs = Inr full"
    then obtain x rest where x: "xs = x # rest" "full = replicate (length xs) x"
      by (auto simp: rs_copy_def split: list.splits)
    then show "length full = length xs \<and> take (data_shards ?cfg) full = take (data_shards ?cfg) xs" by simp
    assume m: "length sl = length full" "data_shards ?cfg \<le> length (filter id sl)"
    let ?kept = "keep_shards sl full"
    have "length (List.map_filter id ?kept) \<noteq> 0"
      using m keep_shards_count [OF m(1)] by (auto simp: map_filter_id_length)
    then obtain y ys where y: "List.map_filter id ?kept = y # ys" by (cases "List.map_filter id ?kept") auto
    then have "y \<in> set full" using keep_shards_present by (metis list.set_intros(1))
    then have "y = x" by (simp add: x(2))
    then show "rs_reconstruct rs_copy (data_shards ?cfg) (parity_shards ?cfg) ?kept = Inr (map Some full)"
      using m(1) y by (simp add: rs_copy_def x keep_shards_length)
  qed (use s(2) in simp_all)
  with s(1) show ?thesis by auto
qed

end
