(* ===== verification/Raft_Node.thy ===== *)
theory Raft_Node
  imports Raft_Wal Erasure
begin

text \<open>
  The consensus node, \<open>RaftNode\<close> in \<open>crates/joule-db-server/src/raft.rs\<close>: state transitions, elections,
  proposals, replication, the handlers of the three remote calls, snapshots and membership changes.

  Each method is a function from the node to its result and the new node; a method runs as one step. What it takes
  from outside is in \<open>raft_env\<close>: the clock, the random election timeout, the state machine (a trait), and the
  codecs of other crates. Remote calls are an argument that gives the result for a peer and a request, so a
  transport failure is an \<open>Inl\<close>. A panic, or waiting for ever, is \<open>None\<close>. The write-ahead log is there iff a data directory is configured.
\<close>

section \<open>Configuration and state\<close>

record raft_config =
  rc_node_id :: node
  election_timeout_min :: nat
  election_timeout_max :: nat
  heartbeat_interval :: nat
  max_entries_per_rpc :: nat
  snapshot_threshold :: nat

definition raft_config_new :: "node \<Rightarrow> raft_config" where
  "raft_config_new i = \<lparr>rc_node_id = i, election_timeout_min = 150, election_timeout_max = 300,
     heartbeat_interval = 50, max_entries_per_rpc = 100, snapshot_threshold = 10000\<rparr>"

record 's state_machine =
  sm_apply :: "'s \<Rightarrow> command \<Rightarrow> bytes \<times> 's"
  sm_snapshot :: "'s \<Rightarrow> bytes"
  sm_restore :: "'s \<Rightarrow> bytes \<Rightarrow> (string + unit) \<times> 's"

record 's raft_env =
  env_now :: nat
  env_timeout :: nat
  env_codec :: wal_codec
  env_sm :: "'s state_machine"
  env_rs :: reed_solomon
  env_shard_dec :: "bytes \<Rightarrow> erasure_shard option"

record raft_stats =
  elections_started :: nat
  elections_won :: nat
  votes_granted :: nat
  append_entries_sent :: nat
  append_entries_received :: nat
  snapshots_installed :: nat

record 's raft_node =
  rn_config :: raft_config
  rn_state :: raft_state
  rn_ps :: persistent
  commit_index :: nat
  last_applied :: nat
  rn_leader_state :: "leader_state option"
  rn_cluster :: cluster_config
  rn_leader :: "node option"
  rn_sm :: 's
  rn_last_heartbeat :: nat
  rn_election_timeout :: nat
  rn_running :: bool
  rn_snapshot :: "snapshot option"
  snapshot_offset :: nat
  pending_snapshot :: bytes
  rn_wal :: "raft_wal option"
  pending_shards :: "erasure_shard option list"
  commit_notified :: "nat list"
  rn_stats :: raft_stats

abbreviation rn_id :: "'s raft_node \<Rightarrow> node" where
  "rn_id n \<equiv> rc_node_id (rn_config n)"

abbreviation rn_term :: "'s raft_node \<Rightarrow> nat" where
  "rn_term n \<equiv> current_term (rn_ps n)"

abbreviation is_leader :: "'s raft_node \<Rightarrow> bool" where
  "is_leader n \<equiv> rn_state n = Leader"

text \<open>Construction: the state on disk is recovered; if replay fails, the checkpoint alone is used.\<close>

definition node_new :: "'s raft_env \<Rightarrow> raft_config \<Rightarrow> 's \<Rightarrow> raft_wal option \<Rightarrow> cluster_config \<Rightarrow> 's raft_node" where
  "node_new env cfg sm disk cluster =
     (let ps = (case disk of
            None \<Rightarrow> ps_new
          | Some w \<Rightarrow> (case wal_recover (env_codec env) w of Inr s \<Rightarrow> s | Inl e \<Rightarrow> load_from_dir (wal_json w)))
      in \<lparr>rn_config = cfg, rn_state = Follower, rn_ps = ps, commit_index = 0, last_applied = 0,
          rn_leader_state = None, rn_cluster = cluster, rn_leader = None, rn_sm = sm,
          rn_last_heartbeat = env_now env, rn_election_timeout = env_timeout env, rn_running = False,
          rn_snapshot = None, snapshot_offset = 0, pending_snapshot = [],
          rn_wal = map_option (\<lambda>w. wal_open (wal_json w) (wal_file w)) disk, pending_shards = [],
          commit_notified = [],
          rn_stats = \<lparr>elections_started = 0, elections_won = 0, votes_granted = 0, append_entries_sent = 0,
            append_entries_received = 0, snapshots_installed = 0\<rparr>\<rparr>)"

section \<open>Persistence\<close>

definition persist_state_sync :: "'s raft_env \<Rightarrow> nat \<Rightarrow> 's raft_node \<Rightarrow> 's raft_node" where
  "persist_state_sync env new_entries n =
     (case rn_wal n of
        None \<Rightarrow> n
      | Some w \<Rightarrow>
          let log = rlog (rn_ps n); start = length log - new_entries;
              w1 = fold (\<lambda>e w. wal_append_entry (env_codec env) w e) (drop start log) w;
              w2 = (if needs_checkpoint w1 then wal_checkpoint w1 (rn_ps n) else w1)
          in n\<lparr>rn_wal := Some w2\<rparr>)"

definition persist_meta_sync :: "'s raft_env \<Rightarrow> 's raft_node \<Rightarrow> 's raft_node" where
  "persist_meta_sync env n =
     n\<lparr>rn_wal := map_option (\<lambda>w. wal_append_meta (env_codec env) w (rn_term n) (voted_for (rn_ps n))) (rn_wal n)\<rparr>"

section \<open>State transitions\<close>

definition reset_election_timeout :: "'s raft_env \<Rightarrow> 's raft_node \<Rightarrow> 's raft_node" where
  "reset_election_timeout env n = n\<lparr>rn_last_heartbeat := env_now env, rn_election_timeout := env_timeout env\<rparr>"

definition become_follower :: "'s raft_env \<Rightarrow> nat \<Rightarrow> node option \<Rightarrow> 's raft_node \<Rightarrow> 's raft_node" where
  "become_follower env t leader n =
     (let n1 = (if t > rn_term n then n\<lparr>rn_ps := (rn_ps n)\<lparr>current_term := t, voted_for := None\<rparr>\<rparr> else n);
          n2 = persist_meta_sync env n1;
          n3 = n2\<lparr>rn_state := Follower, rn_leader := leader, rn_leader_state := None\<rparr>
      in reset_election_timeout env n3)"

definition become_candidate :: "'s raft_env \<Rightarrow> 's raft_node \<Rightarrow> 's raft_node" where
  "become_candidate env n =
     (let n1 = n\<lparr>rn_ps := (rn_ps n)\<lparr>current_term := rn_term n + 1, voted_for := Some (rn_id n)\<rparr>\<rparr>;
          n2 = persist_meta_sync env n1;
          n3 = n2\<lparr>rn_state := Candidate, rn_leader := None, rn_leader_state := None\<rparr>;
          n4 = reset_election_timeout env n3
      in n4\<lparr>rn_stats := (rn_stats n4)\<lparr>elections_started := elections_started (rn_stats n4) + 1\<rparr>\<rparr>)"

definition propose_internal :: "'s raft_env \<Rightarrow> command \<Rightarrow> 's raft_node \<Rightarrow> nat \<times> 's raft_node" where
  "propose_internal env c n =
     (let index = last_log_index (rn_ps n) + 1;
          n1 = n\<lparr>rn_ps := (rn_ps n)\<lparr>rlog := rlog (rn_ps n) @ [entry_new (rn_term n) index c]\<rparr>\<rparr>
      in (index, persist_state_sync env 1 n1))"

definition become_leader :: "'s raft_env \<Rightarrow> 's raft_node \<Rightarrow> 's raft_node" where
  "become_leader env n =
     (let peers = voting_members (rn_cluster n) |-| {|rn_id n|};
          n1 = n\<lparr>rn_state := Leader, rn_leader := Some (rn_id n),
                 rn_leader_state := Some (ls_new peers (last_log_index (rn_ps n))),
                 rn_stats := (rn_stats n)\<lparr>elections_won := elections_won (rn_stats n) + 1\<rparr>\<rparr>
      in snd (propose_internal env Noop n1))"

definition election_timeout_elapsed :: "'s raft_env \<Rightarrow> 's raft_node \<Rightarrow> bool" where
  "election_timeout_elapsed env n \<longleftrightarrow> env_now env - rn_last_heartbeat n \<ge> rn_election_timeout n"

section \<open>Elections\<close>

definition peers_of :: "'s raft_node \<Rightarrow> node list" where
  "peers_of n = filter (\<lambda>i. i \<noteq> rn_id n) (sorted_list_of_fset (voting_members (rn_cluster n)))"

text \<open>\<open>run_election\<close> up to the remote calls: the node becomes a candidate and builds its request.\<close>

definition start_election :: "'s raft_env \<Rightarrow> 's raft_node \<Rightarrow> 's raft_node \<times> vote_request" where
  "start_election env n =
     (let n1 = become_candidate env n
      in (n1, \<lparr>vr_term = rn_term n1, vr_candidate = rn_id n1, vr_last_log_index = last_log_index (rn_ps n1),
               vr_last_log_term = last_log_term (rn_ps n1)\<rparr>))"

text \<open>The loop over the results of the calls, with the votes received so far.\<close>

fun count_votes :: "'s raft_env \<Rightarrow> nat \<Rightarrow> cluster_config \<Rightarrow> node fset \<Rightarrow> (node \<times> (raft_error + vote_response)) list \<Rightarrow>
    's raft_node \<Rightarrow> 's raft_node" where
  "count_votes env t cfg votes [] n = n"
| "count_votes env t cfg votes ((peer, Inl e) # rs) n = count_votes env t cfg votes rs n"
| "count_votes env t cfg votes ((peer, Inr r) # rs) n =
     (if rn_state n \<noteq> Candidate then n
      else if vs_term r > t then become_follower env (vs_term r) None n
      else if vs_granted r then
        (let votes' = finsert peer votes;
             n1 = n\<lparr>rn_stats := (rn_stats n)\<lparr>votes_granted := votes_granted (rn_stats n) + 1\<rparr>\<rparr>
         in if has_quorum cfg votes' then become_leader env n1 else count_votes env t cfg votes' rs n1)
      else count_votes env t cfg votes rs n)"

definition run_election :: "'s raft_env \<Rightarrow> (node \<Rightarrow> vote_request \<Rightarrow> raft_error + vote_response) \<Rightarrow>
    's raft_node \<Rightarrow> 's raft_node" where
  "run_election env send n =
     (let (n1, req) = start_election env n
      in count_votes env (vr_term req) (rn_cluster n1) {|rn_id n1|} (map (\<lambda>p. (p, send p req)) (peers_of n1)) n1)"

section \<open>Replication\<close>

definition propose :: "'s raft_env \<Rightarrow> command \<Rightarrow> 's raft_node \<Rightarrow> (raft_error + nat) \<times> 's raft_node" where
  "propose env c n =
     (if \<not> is_leader n then (Inl (NotLeader (rn_leader n)), n)
      else case propose_internal env c n of (i, n1) \<Rightarrow> (Inr i, n1))"

fun push_commands :: "command list \<Rightarrow> persistent \<Rightarrow> nat list \<times> persistent" where
  "push_commands [] p = ([], p)"
| "push_commands (c # cs) p =
     (let index = last_log_index p + 1;
          (is, p') = push_commands cs (p\<lparr>rlog := rlog p @ [entry_new (current_term p) index c]\<rparr>)
      in (index # is, p'))"

definition propose_batch :: "'s raft_env \<Rightarrow> command list \<Rightarrow> 's raft_node \<Rightarrow> (raft_error + nat list) \<times> 's raft_node" where
  "propose_batch env cs n =
     (if \<not> is_leader n then (Inl (NotLeader (rn_leader n)), n)
      else if cs = [] then (Inr [], n)
      else case push_commands cs (rn_ps n) of
        (is, p') \<Rightarrow> (Inr is, persist_state_sync env (length cs) (n\<lparr>rn_ps := p'\<rparr>)))"

definition maybe_advance_one :: "'s raft_node \<Rightarrow> leader_state \<Rightarrow> nat \<Rightarrow> 's raft_node \<Rightarrow> 's raft_node" where
  "maybe_advance_one n0 leader index n =
     (if get_term (rn_ps n0) index \<noteq> Some (rn_term n0) then n
      else let replicated = finsert (rn_id n0) (fmdom (fmfilter (\<lambda>i. fm_get 0 (match_index leader) i \<ge> index) (match_index leader)))
           in if has_quorum (rn_cluster n0) replicated
              then n\<lparr>commit_index := index, commit_notified := commit_notified n @ [index]\<rparr> else n)"

definition maybe_advance_commit_index :: "'s raft_node \<Rightarrow> 's raft_node" where
  "maybe_advance_commit_index n =
     (case rn_leader_state n of
        None \<Rightarrow> n
      | Some leader \<Rightarrow>
          fold (maybe_advance_one n leader) [commit_index n + 1 ..< last_log_index (rn_ps n) + 1] n)"

definition heartbeat_request :: "'s raft_node \<Rightarrow> leader_state \<Rightarrow> node \<Rightarrow> append_request option" where
  "heartbeat_request n leader peer =
     (let next = fm_get 1 (next_index leader) peer;
          prev = next - 1;
          last_index = last_log_index (rn_ps n);
          end_index = min (next + max_entries_per_rpc (rn_config n) - 1) last_index
      in map_option (\<lambda>es. \<lparr>ar_term = rn_term n, ar_leader = rn_id n, ar_prev_log_index = prev,
             ar_prev_log_term = (case get_term (rn_ps n) prev of Some t \<Rightarrow> t | None \<Rightarrow> 0), ar_entries = es,
             ar_leader_commit = commit_index n\<rparr>)
           (if next \<le> last_index then get_entries (rn_ps n) next end_index else Some []))"

fun heartbeat_requests :: "'s raft_node \<Rightarrow> leader_state \<Rightarrow> node list \<Rightarrow> (node \<times> append_request) list option" where
  "heartbeat_requests n leader [] = Some []"
| "heartbeat_requests n leader (p # ps) =
     Option.bind (heartbeat_request n leader p) (\<lambda>r. map_option ((#) (p, r)) (heartbeat_requests n leader ps))"

text \<open>The loop over the responses; the flag says that the loop returned early.\<close>

fun heartbeat_responses :: "'s raft_env \<Rightarrow> nat \<Rightarrow> (node \<times> (raft_error + append_response)) list \<Rightarrow> 's raft_node \<Rightarrow>
    's raft_node \<times> bool" where
  "heartbeat_responses env t [] n = (n, False)"
| "heartbeat_responses env t ((peer, Inl e) # rs) n = heartbeat_responses env t rs n"
| "heartbeat_responses env t ((peer, Inr r) # rs) n =
     (if as_term r > t then (become_follower env (as_term r) None n, True)
      else if as_term r \<noteq> t then heartbeat_responses env t rs n
      else heartbeat_responses env t rs
        (n\<lparr>rn_leader_state := map_option (\<lambda>l. if as_success r then update_match l peer (as_match_index r)
             else decrement_next l peer (as_conflict_index r)) (rn_leader_state n)\<rparr>))"

definition send_heartbeats :: "'s raft_env \<Rightarrow> (node \<Rightarrow> append_request \<Rightarrow> raft_error + append_response) \<Rightarrow>
    's raft_node \<Rightarrow> 's raft_node option" where
  "send_heartbeats env send n =
     (if \<not> is_leader n then Some n
      else case rn_leader_state n of
        None \<Rightarrow> Some n
      | Some leader \<Rightarrow>
          map_option (\<lambda>reqs.
            let n1 = n\<lparr>rn_stats := (rn_stats n)\<lparr>append_entries_sent := append_entries_sent (rn_stats n) + length reqs\<rparr>\<rparr>;
                (n2, early) = heartbeat_responses env (rn_term n1) (map (\<lambda>(p, r). (p, send p r)) reqs) n1
            in if early then n2 else maybe_advance_commit_index n2)
          (heartbeat_requests n leader (peers_of n)))"

section \<open>Applying committed entries\<close>

fun apply_entries :: "'s raft_env \<Rightarrow> raft_entry list \<Rightarrow> 's raft_node \<Rightarrow> nat \<Rightarrow> 's raft_node \<times> nat" where
  "apply_entries env [] n applied = (n, applied)"
| "apply_entries env (e # es) n applied =
     (let n1 = n\<lparr>rn_sm := snd (sm_apply (env_sm env) (rn_sm n) (e_command e))\<rparr>;
          n2 = (case e_command e of
             ConfigChange cfg \<Rightarrow>
               (let n1' = n1\<lparr>rn_cluster := cfg\<rparr>
                in case new_members cfg of
                     None \<Rightarrow> n1'
                   | Some new \<Rightarrow>
                       if is_leader n1'
                       then snd (propose_internal env (ConfigChange \<lparr>members = new, new_members = None,
                              config_index = e_index e + 1\<rparr>) n1')
                       else n1')
           | _ \<Rightarrow> n1)
      in apply_entries env es n2 (e_index e))"

definition apply_committed_entries :: "'s raft_env \<Rightarrow> 's raft_node \<Rightarrow> 's raft_node option" where
  "apply_committed_entries env n =
     (if last_applied n \<ge> commit_index n then Some n
      else map_option (\<lambda>es. case apply_entries env es n (last_applied n) of (n1, k) \<Rightarrow> n1\<lparr>last_applied := k\<rparr>)
             (get_entries (rn_ps n) (last_applied n + 1) (commit_index n)))"

section \<open>Handlers of remote calls\<close>

definition handle_request_vote :: "'s raft_env \<Rightarrow> vote_request \<Rightarrow> 's raft_node \<Rightarrow> vote_response \<times> 's raft_node" where
  "handle_request_vote env req n =
     (if vr_term req < rn_term n then (\<lparr>vs_term = rn_term n, vs_granted = False\<rparr>, n)
      else
        let n1 = (if vr_term req > rn_term n
                  then become_follower env (vr_term req) None
                         (n\<lparr>rn_ps := (rn_ps n)\<lparr>current_term := vr_term req, voted_for := None\<rparr>\<rparr>)
                  else n);
            p = rn_ps n1;
            can_vote = (voted_for p = None \<or> voted_for p = Some (vr_candidate req));
            log_ok = (vr_last_log_term req > last_log_term p \<or>
              (vr_last_log_term req = last_log_term p \<and> vr_last_log_index req \<ge> last_log_index p));
            granted = (can_vote \<and> log_ok);
            n2 = (if granted
                  then reset_election_timeout env (persist_meta_sync env
                         (n1\<lparr>rn_ps := p\<lparr>voted_for := Some (vr_candidate req)\<rparr>\<rparr>))
                  else n1)
        in (\<lparr>vs_term = current_term p, vs_granted = granted\<rparr>, n2))"

fun conflict_search :: "persistent \<Rightarrow> nat \<Rightarrow> nat \<Rightarrow> nat" where
  "conflict_search p t i =
     (if i > 1 then
        (case get_term p (i - 1) of
           Some t' \<Rightarrow> if t' \<noteq> t then i else conflict_search p t (i - 1)
         | None \<Rightarrow> conflict_search p t (i - 1))
      else i)"

declare conflict_search.simps [simp del]

fun truncate_conflicts :: "raft_entry list \<Rightarrow> persistent \<Rightarrow> persistent" where
  "truncate_conflicts [] p = p"
| "truncate_conflicts (e # es) p =
     (case get_term p (e_index e) of
        Some t \<Rightarrow> if t \<noteq> e_term e then truncate_from p (e_index e) else truncate_conflicts es p
      | None \<Rightarrow> truncate_conflicts es p)"

fun append_new :: "raft_entry list \<Rightarrow> persistent \<Rightarrow> persistent \<times> nat" where
  "append_new [] p = (p, 0)"
| "append_new (e # es) p =
     (if e_index e > last_log_index p
      then (case append_new es (p\<lparr>rlog := rlog p @ [e]\<rparr>) of (p', k) \<Rightarrow> (p', k + 1))
      else append_new es p)"

definition append_reject :: "nat \<Rightarrow> nat option \<Rightarrow> nat option \<Rightarrow> append_response" where
  "append_reject t ci ct = \<lparr>as_term = t, as_success = False, as_conflict_index = ci, as_conflict_term = ct, as_match_index = 0\<rparr>"

definition handle_append_entries :: "'s raft_env \<Rightarrow> append_request \<Rightarrow> 's raft_node \<Rightarrow> append_response \<times> 's raft_node" where
  "handle_append_entries env req n =
     (let n0 = n\<lparr>rn_stats := (rn_stats n)\<lparr>append_entries_received := append_entries_received (rn_stats n) + 1\<rparr>\<rparr>
      in if ar_term req < rn_term n0 then (append_reject (rn_term n0) None None, n0)
      else
        let n1 = become_follower env (ar_term req) (Some (ar_leader req))
                   (n0\<lparr>rn_ps := (rn_ps n0)\<lparr>current_term := ar_term req, voted_for := None\<rparr>\<rparr>);
            n2 = reset_election_timeout env n1;
            p = rn_ps n2;
            prev = ar_prev_log_index req
        in if prev > 0 \<and> get_term p prev = None
           then (append_reject (current_term p) (Some (last_log_index p + 1)) None, n2)
           else if prev > 0 \<and> get_term p prev \<noteq> Some (ar_prev_log_term req)
           then (let t = the (get_term p prev)
                 in (append_reject (current_term p) (Some (conflict_search p t prev)) (Some t), n2))
           else
             let p1 = truncate_conflicts (ar_entries req) p;
                 last_new = (if ar_entries req = [] then prev else e_index (last (ar_entries req)));
                 (p2, k) = append_new (ar_entries req) p1;
                 n3 = n2\<lparr>rn_ps := p2\<rparr>;
                 n4 = (if k > 0 then persist_state_sync env k n3 else n3);
                 n5 = (if ar_leader_commit req > commit_index n4
                       then (let ci = min (ar_leader_commit req) last_new
                             in n4\<lparr>commit_index := ci, commit_notified := commit_notified n4 @ [ci]\<rparr>)
                       else n4)
             in (\<lparr>as_term = current_term p2, as_success = True, as_conflict_index = None, as_conflict_term = None,
                  as_match_index = last_new\<rparr>, n5))"

section \<open>Snapshots\<close>

text \<open>
  The end of both snapshot paths: restore the state machine, replace the log by a placeholder entry, and
  take over index, configuration and snapshot.
\<close>

definition apply_snapshot_data :: "'s raft_env \<Rightarrow> bytes \<Rightarrow> install_request \<Rightarrow> 's raft_node \<Rightarrow> install_response \<times> 's raft_node" where
  "apply_snapshot_data env data req n =
     (case sm_restore (env_sm env) (rn_sm n) data of
        (Inl e, sm) \<Rightarrow> (\<lparr>is_term = rn_term n, is_success = False, is_next_offset = 0\<rparr>, n\<lparr>rn_sm := sm\<rparr>)
      | (Inr _, sm) \<Rightarrow>
          let n1 = n\<lparr>rn_sm := sm,
                rn_ps := (rn_ps n)\<lparr>rlog := [entry_new (ir_last_term req) (ir_last_index req) Noop]\<rparr>\<rparr>;
              n2 = persist_state_sync env 1 n1;
              n3 = n2\<lparr>commit_index := ir_last_index req, last_applied := ir_last_index req, rn_cluster := ir_config req,
                rn_snapshot := Some \<lparr>sn_metadata = \<lparr>sm_last_index = ir_last_index req, sm_last_term = ir_last_term req,
                  sm_config = ir_config req, sm_total_size = length data\<rparr>, sn_data = data\<rparr>,
                rn_stats := (rn_stats n2)\<lparr>snapshots_installed := snapshots_installed (rn_stats n2) + 1\<rparr>\<rparr>
          in (\<lparr>is_term = rn_term n3, is_success = True, is_next_offset = 0\<rparr>, n3))"

definition erasure_magic :: bytes where
  "erasure_magic = as_bytes ''ECSH''"

definition handle_erasure_shard :: "'s raft_env \<Rightarrow> install_request \<Rightarrow> 's raft_node \<Rightarrow> (install_response \<times> 's raft_node) option" where
  "handle_erasure_shard env req n =
     (case env_shard_dec env (drop (length erasure_magic) (ir_data req)) of
        None \<Rightarrow> Some (\<lparr>is_term = rn_term n, is_success = False, is_next_offset = 0\<rparr>, n)
      | Some shard \<Rightarrow>
          let pending = (if length (pending_shards n) \<noteq> sh_total shard then replicate (sh_total shard) None
                         else pending_shards n)
          in if sh_index shard \<ge> length pending then None
             else let pending' = pending[sh_index shard := Some shard];
                      received = length (filter (\<lambda>s. s \<noteq> None) pending')
                  in if received \<ge> sh_data_shards shard
                     then let n1 = n\<lparr>pending_shards := []\<rparr>
                          in (case erasure_decode (env_rs env) pending' of
                                Inr data \<Rightarrow> Some (apply_snapshot_data env data req n1)
                              | Inl e \<Rightarrow> Some (\<lparr>is_term = rn_term n1, is_success = False, is_next_offset = 0\<rparr>, n1))
                     else Some (\<lparr>is_term = rn_term n, is_success = True, is_next_offset = sh_index shard + 1\<rparr>,
                            n\<lparr>pending_shards := pending'\<rparr>))"

text \<open>
  A chunk that is accepted and not the last one is appended, and then the handler waits for ever: it still holds the
  write guard of \<open>snapshot_offset\<close> when it awaits the read guard of the same lock for its response. Its value is then
  \<open>None\<close>, as for a panic.
\<close>

definition handle_install_snapshot :: "'s raft_env \<Rightarrow> install_request \<Rightarrow> 's raft_node \<Rightarrow> (install_response \<times> 's raft_node) option" where
  "handle_install_snapshot env req n =
     (if ir_term req < rn_term n then Some (\<lparr>is_term = rn_term n, is_success = False, is_next_offset = 0\<rparr>, n)
      else
        let n1 = (if ir_term req > rn_term n
                  then become_follower env (ir_term req) (Some (ir_leader req))
                         (n\<lparr>rn_ps := (rn_ps n)\<lparr>current_term := ir_term req, voted_for := None\<rparr>\<rparr>)
                  else n);
            n2 = reset_election_timeout env n1
        in if take (length erasure_magic) (ir_data req) = erasure_magic then handle_erasure_shard env req n2
           else
             let n3 = (if ir_offset req = 0 then n2\<lparr>snapshot_offset := 0, pending_snapshot := []\<rparr> else n2)
             in if ir_offset req \<noteq> snapshot_offset n3
                then Some (\<lparr>is_term = rn_term n3, is_success = False, is_next_offset = snapshot_offset n3\<rparr>, n3)
                else
                  let n4 = n3\<lparr>pending_snapshot := pending_snapshot n3 @ ir_data req,
                              snapshot_offset := snapshot_offset n3 + length (ir_data req)\<rparr>
                  in if ir_done req
                     then Some (apply_snapshot_data env (pending_snapshot n4) req
                            (n4\<lparr>pending_snapshot := [], snapshot_offset := 0\<rparr>))
                     else None)"

definition take_snapshot :: "'s raft_env \<Rightarrow> 's raft_node \<Rightarrow> (raft_error + snapshot) \<times> 's raft_node" where
  "take_snapshot env n =
     (if last_applied n = 0 then (Inl (SnapshotError ''No entries applied yet''), n)
      else case get_term (rn_ps n) (last_applied n) of
        None \<Rightarrow> (Inl (SnapshotError ''No term for last applied''), n)
      | Some t \<Rightarrow>
          let data = sm_snapshot (env_sm env) (rn_sm n);
              snap = \<lparr>sn_metadata = \<lparr>sm_last_index = last_applied n, sm_last_term = t, sm_config = rn_cluster n,
                sm_total_size = length data\<rparr>, sn_data = data\<rparr>;
              n1 = n\<lparr>rn_snapshot := Some snap, rn_ps := compact_until (rn_ps n) (last_applied n)\<rparr>
          in (Inr snap, persist_state_sync env 0 n1))"

section \<open>Membership changes\<close>

definition add_node :: "'s raft_env \<Rightarrow> node \<Rightarrow> 's raft_node \<Rightarrow> (raft_error + nat) \<times> 's raft_node" where
  "add_node env i n =
     (if \<not> is_leader n then (Inl (NotLeader (rn_leader n)), n)
      else if is_joint (rn_cluster n) then (Inl (InvalidConfig ''Already in joint consensus''), n)
      else propose env (ConfigChange \<lparr>members = members (rn_cluster n),
             new_members = Some (finsert i (members (rn_cluster n))),
             config_index = last_log_index (rn_ps n) + 1\<rparr>) n)"

definition remove_node :: "'s raft_env \<Rightarrow> node \<Rightarrow> 's raft_node \<Rightarrow> (raft_error + nat) \<times> 's raft_node" where
  "remove_node env i n =
     (if \<not> is_leader n then (Inl (NotLeader (rn_leader n)), n)
      else if is_joint (rn_cluster n) then (Inl (InvalidConfig ''Already in joint consensus''), n)
      else if i |\<notin>| members (rn_cluster n) then (Inl (NodeNotFound i), n)
      else let new = members (rn_cluster n) |-| {|i|}
           in if new = {||} then (Inl (InvalidConfig ''Cannot remove last node''), n)
              else propose env (ConfigChange \<lparr>members = members (rn_cluster n), new_members = Some new,
                     config_index = last_log_index (rn_ps n) + 1\<rparr>) n)"

section \<open>Main loop\<close>

definition raft_tick :: "'s raft_env \<Rightarrow> (node \<Rightarrow> vote_request \<Rightarrow> raft_error + vote_response) \<Rightarrow>
    (node \<Rightarrow> append_request \<Rightarrow> raft_error + append_response) \<Rightarrow> 's raft_node \<Rightarrow> 's raft_node option" where
  "raft_tick env send_vote send_append n =
     (if \<not> rn_running n then Some n
      else Option.bind
        (case rn_state n of
           Leader \<Rightarrow> send_heartbeats env send_append n
         | _ \<Rightarrow> Some (if election_timeout_elapsed env n then run_election env send_vote n else n))
        (\<lambda>n1. Option.bind (apply_committed_entries env n1)
          (\<lambda>n2. Some (if length (rlog (rn_ps n2)) > snapshot_threshold (rn_config n2) then snd (take_snapshot env n2) else n2))))"

end
