(* ===== verification/Raft_Election.thy ===== *)
theory Raft_Election
  imports Raft_Node
begin

text \<open>
  Elections as a distributed system. Every node runs \<open>start_election\<close>, \<open>handle_request_vote\<close>, the counting
  of \<open>run_election\<close>, and proposals; requests and responses may be lost, duplicated, delayed and
  reordered (they stay in a set and are used any number of times); a node with a data directory may crash and restart
  from its disk between two steps. One election of a node is in progress at a time, as the main
  loop awaits it.

  The relation \<open>raft_step\<close> adds the delivery of a heartbeat.
\<close>

section \<open>The system\<close>

record 's raft_world =
  rw_nodes :: "node \<Rightarrow> 's raft_node"
  rw_requests :: "vote_request set"
  rw_responses :: "(vote_request \<times> node \<times> vote_response) set"
  rw_inflight :: "node \<Rightarrow> nat option"
  rw_won :: "(nat \<times> node) set"

definition fits :: "wal_codec \<Rightarrow> 's raft_node \<Rightarrow> bool" where
  "fits c n \<longleftrightarrow> rn_term n < 2 ^ 64 \<and> list_all (\<lambda>e. record_ok c (WalEntry e)) (rlog (rn_ps n))"

abbreviation set_node :: "'s raft_world \<Rightarrow> node \<Rightarrow> 's raft_node \<Rightarrow> 's raft_world" where
  "set_node w i n \<equiv> w\<lparr>rw_nodes := (rw_nodes w)(i := n)\<rparr>"

text \<open>A result of the call to \<open>p\<close> in the election of \<open>i\<close> for term \<open>t\<close>: a failure, or a response that was sent.\<close>

definition result_ok :: "'s raft_world \<Rightarrow> node \<Rightarrow> nat \<Rightarrow> node \<times> (raft_error + vote_response) \<Rightarrow> bool" where
  "result_ok w i t x \<longleftrightarrow> (\<forall>r. snd x = Inr r \<longrightarrow>
     (\<exists>req. (req, fst x, r) \<in> rw_responses w \<and> vr_candidate req = i \<and> vr_term req = t))"

text \<open>
  The steps. Values must fit their fields on disk: terms are 64 bits wide and the entries of the log can be
  written and read back (\<open>fits\<close>).
\<close>

inductive elect_step :: "wal_codec \<Rightarrow> node fset \<Rightarrow> 's raft_world \<Rightarrow> 's raft_world \<Rightarrow> bool" for c N where
  e_start: "i |\<in>| N \<Longrightarrow> env_codec env = c \<Longrightarrow> rw_inflight w i = None \<Longrightarrow> rn_state (rw_nodes w i) \<noteq> Leader \<Longrightarrow>
    start_election env (rw_nodes w i) = (n, req) \<Longrightarrow> fits c n \<Longrightarrow>
    elect_step c N w ((set_node w i n)\<lparr>rw_requests := insert req (rw_requests w),
      rw_inflight := (rw_inflight w)(i := Some (vr_term req))\<rparr>)"
| e_vote: "j |\<in>| N \<Longrightarrow> env_codec env = c \<Longrightarrow> req \<in> rw_requests w \<Longrightarrow> j \<noteq> vr_candidate req \<Longrightarrow>
    handle_request_vote env req (rw_nodes w j) = (r, n) \<Longrightarrow>
    elect_step c N w ((set_node w j n)\<lparr>rw_responses := insert (req, j, r) (rw_responses w)\<rparr>)"
| e_count: "i |\<in>| N \<Longrightarrow> env_codec env = c \<Longrightarrow> rw_inflight w i = Some t \<Longrightarrow> list_all (result_ok w i t) rs \<Longrightarrow>
    count_votes env t (rn_cluster (rw_nodes w i)) {|i|} rs (rw_nodes w i) = n \<Longrightarrow> fits c n \<Longrightarrow>
    elect_step c N w ((set_node w i n)\<lparr>rw_inflight := (rw_inflight w)(i := None),
      rw_won := (if rn_state n = Leader then insert (t, i) (rw_won w) else rw_won w)\<rparr>)"
| e_propose: "i |\<in>| N \<Longrightarrow> env_codec env = c \<Longrightarrow> propose env cmd (rw_nodes w i) = (res, n) \<Longrightarrow> fits c n \<Longrightarrow>
    elect_step c N w (set_node w i n)"
| e_batch: "i |\<in>| N \<Longrightarrow> env_codec env = c \<Longrightarrow> propose_batch env cmds (rw_nodes w i) = (res', n) \<Longrightarrow> fits c n \<Longrightarrow>
    elect_step c N w (set_node w i n)"
| e_crash: "i |\<in>| N \<Longrightarrow> env_codec env = c \<Longrightarrow> rn_wal (rw_nodes w i) = Some d \<Longrightarrow>
    node_new env (rn_config (rw_nodes w i)) sm (Some d) (rn_cluster (rw_nodes w i)) = n \<Longrightarrow>
    elect_step c N w ((set_node w i n)\<lparr>rw_inflight := (rw_inflight w)(i := None)\<rparr>)"

text \<open>All nodes start fresh, with the same configuration, each with an empty disk or none.\<close>

definition raft_init :: "'s raft_env \<Rightarrow> cluster_config \<Rightarrow> (node \<Rightarrow> 's) \<Rightarrow> (node \<Rightarrow> bool) \<Rightarrow> 's raft_world" where
  "raft_init env cfg sms disk =
     \<lparr>rw_nodes = \<lambda>i. node_new env (raft_config_new i) (sms i) (if disk i then Some (wal_open None []) else None) cfg,
      rw_requests = {}, rw_responses = {}, rw_inflight = \<lambda>i. None, rw_won = {}\<rparr>"

inductive elect_reachable :: "wal_codec \<Rightarrow> node fset \<Rightarrow> 's raft_world \<Rightarrow> 's raft_world \<Rightarrow> bool" for c N w0 where
  el_init: "elect_reachable c N w0 w0"
| el_step: "elect_reachable c N w0 w \<Longrightarrow> elect_step c N w w' \<Longrightarrow> elect_reachable c N w0 w'"

inductive raft_step :: "wal_codec \<Rightarrow> node fset \<Rightarrow> 's raft_world \<Rightarrow> 's raft_world \<Rightarrow> bool" for c N where
  r_elect: "elect_step c N w w' \<Longrightarrow> raft_step c N w w'"
| r_append: "i |\<in>| N \<Longrightarrow> j |\<in>| N \<Longrightarrow> j \<noteq> i \<Longrightarrow> env_codec env = c \<Longrightarrow> is_leader (rw_nodes w i) \<Longrightarrow>
    rn_leader_state (rw_nodes w i) = Some l \<Longrightarrow> heartbeat_request (rw_nodes w i) l j = Some req \<Longrightarrow>
    handle_append_entries env req (rw_nodes w j) = (r, n) \<Longrightarrow> raft_step c N w (set_node w j n)"

inductive raft_reachable :: "wal_codec \<Rightarrow> node fset \<Rightarrow> 's raft_world \<Rightarrow> 's raft_world \<Rightarrow> bool" for c N w0 where
  ra_init: "raft_reachable c N w0 w0"
| ra_step: "raft_reachable c N w0 w \<Longrightarrow> raft_step c N w w' \<Longrightarrow> raft_reachable c N w0 w'"

section \<open>Durability\<close>

text \<open>The disk of a node, replayed, gives the persistent state in memory.\<close>

definition disk_ok :: "wal_codec \<Rightarrow> 's raft_node \<Rightarrow> bool" where
  "disk_ok c n \<longleftrightarrow> (\<forall>w. rn_wal n = Some w \<longrightarrow> (\<exists>rs. list_all (record_ok c) rs \<and>
     wal_file w = concat (map (encode_record c) rs) \<and> fold replay_record rs (load_from_dir (wal_json w)) = rn_ps n))"

lemma disk_ok_recover:
  "\<forall>bs. crc32 c bs < 2 ^ 32 \<Longrightarrow> disk_ok c n \<Longrightarrow> rn_wal n = Some w \<Longrightarrow> wal_recover c w = Inr (rn_ps n)"
  unfolding disk_ok_def wal_recover_def
  using recover_records [of c _ "load_from_dir (wal_json w)" "[]"] recover_loop.simps [of c _ "[]"] by fastforce

text \<open>Appending a metadata record brings the disk up to date with a new term and vote.\<close>

lemma disk_ok_meta:
  assumes "disk_ok c n" "env_codec env = c" "record_ok c (WalMeta t v)"
    and "rn_ps n' = (rn_ps n)\<lparr>current_term := t, voted_for := v\<rparr>" "rn_wal n' = rn_wal n"
  shows "disk_ok c (persist_meta_sync env n')"
  unfolding disk_ok_def
proof (intro allI impI)
  fix w' assume "rn_wal (persist_meta_sync env n') = Some w'"
  then obtain w where w: "rn_wal n = Some w" "w' = wal_append_meta c w t v"
    using assms(2,4,5) by (auto simp: persist_meta_sync_def)
  obtain rs where rs: "list_all (record_ok c) rs" "wal_file w = concat (map (encode_record c) rs)"
      "fold replay_record rs (load_from_dir (wal_json w)) = rn_ps n"
    using assms(1) w(1) unfolding disk_ok_def by blast
  show "\<exists>rs. list_all (record_ok c) rs \<and> wal_file w' = concat (map (encode_record c) rs) \<and>
      fold replay_record rs (load_from_dir (wal_json w')) = rn_ps (persist_meta_sync env n')"
    using rs assms(3,4) by (intro exI [of _ "rs @ [WalMeta t v]"]) (simp add: w(2) wal_append_meta_def persist_meta_sync_def)
qed

lemma fold_wal_append:
  "wal_file (fold (\<lambda>e w. wal_append_entry c w e) es w) = wal_file w @ concat (map (encode_entry c) es)"
  "wal_json (fold (\<lambda>e w. wal_append_entry c w e) es w) = wal_json w"
  by (induction es arbitrary: w) (auto simp: wal_append_entry_def)

text \<open>Entries numbered consecutively from the end of the log are all pushed by replay.\<close>

fun numbered :: "nat \<Rightarrow> raft_entry list \<Rightarrow> bool" where
  "numbered k [] \<longleftrightarrow> True"
| "numbered k (e # es) \<longleftrightarrow> e_index e = k \<and> numbered (Suc k) es"

lemma last_log_index_snoc [simp]: "last_log_index (p\<lparr>rlog := es @ [e]\<rparr>) = e_index e"
  by (simp add: last_log_index_def)

lemma replay_numbered:
  "numbered (Suc (last_log_index p)) es \<Longrightarrow>
    fold replay_record (map WalEntry es) p = p\<lparr>rlog := rlog p @ es\<rparr>"
proof (induction es arbitrary: p)
  case (Cons e es)
  have "push_entry p e = p\<lparr>rlog := rlog p @ [e]\<rparr>" using Cons.prems by (simp add: push_entry_def)
  with Cons.IH [of "p\<lparr>rlog := rlog p @ [e]\<rparr>"] Cons.prems show ?case by simp
qed simp

lemma disk_ok_entries:
  assumes "disk_ok c n" "env_codec env = c" "numbered (Suc (last_log_index (rn_ps n))) es"
    and "list_all (\<lambda>e. record_ok c (WalEntry e)) es"
    and "rn_ps n' = (rn_ps n)\<lparr>rlog := rlog (rn_ps n) @ es\<rparr>" "rn_wal n' = rn_wal n"
  shows "disk_ok c (persist_state_sync env (length es) n')"
proof (cases "rn_wal n")
  case None
  then show ?thesis using assms(6) by (simp add: disk_ok_def persist_state_sync_def)
next
  case (Some w)
  obtain rs where rs: "list_all (record_ok c) rs" "wal_file w = concat (map (encode_record c) rs)"
      "fold replay_record rs (load_from_dir (wal_json w)) = rn_ps n"
    using assms(1) Some unfolding disk_ok_def by blast
  let ?w = "fold (\<lambda>e w. wal_append_entry c w e) es w"
  have p: "persist_state_sync env (length es) n' =
      n'\<lparr>rn_wal := Some (if needs_checkpoint ?w then wal_checkpoint ?w (rn_ps n') else ?w)\<rparr>"
    using assms(2,5,6) Some by (simp add: persist_state_sync_def Let_def)
  have "concat (map (encode_record c) (map WalEntry es)) = concat (map (encode_entry c) es)"
    by (simp add: comp_def)
  then have "list_all (record_ok c) (rs @ map WalEntry es) \<and> wal_file ?w = concat (map (encode_record c) (rs @ map WalEntry es)) \<and>
      fold replay_record (rs @ map WalEntry es) (load_from_dir (wal_json ?w)) = rn_ps n'"
    using rs assms(4) replay_numbered [OF assms(3)] assms(5)
    by (simp add: fold_wal_append list.pred_map comp_def del: map_map)
  then have "disk_ok c (n'\<lparr>rn_wal := Some ?w\<rparr>)"
    unfolding disk_ok_def by (intro allI impI exI [of _ "rs @ map WalEntry es"]) simp
  moreover have "disk_ok c (n'\<lparr>rn_wal := Some (wal_checkpoint ?w (rn_ps n'))\<rparr>)"
    unfolding disk_ok_def by (auto simp: wal_checkpoint_def load_from_dir_def intro!: exI [of _ "[]"])
  ultimately show ?thesis unfolding p by simp
qed

section \<open>What the operations keep\<close>

text \<open>The term never goes back, and within a term a vote that was cast stays.\<close>

definition vote_keeps :: "'s raft_node \<Rightarrow> 's raft_node \<Rightarrow> bool" where
  "vote_keeps n n' \<longleftrightarrow> rn_config n' = rn_config n \<and> rn_cluster n' = rn_cluster n \<and> rn_term n \<le> rn_term n' \<and>
     (rn_term n' = rn_term n \<and> voted_for (rn_ps n) \<noteq> None \<longrightarrow> voted_for (rn_ps n') = voted_for (rn_ps n))"

lemma vote_keeps_refl [simp]: "vote_keeps n n"
  by (simp add: vote_keeps_def)

lemma persist_frame [simp]:
  "rn_ps (persist_meta_sync env n) = rn_ps n" "rn_config (persist_meta_sync env n) = rn_config n"
  "rn_cluster (persist_meta_sync env n) = rn_cluster n" "rn_state (persist_meta_sync env n) = rn_state n"
  "rn_ps (persist_state_sync env k n) = rn_ps n" "rn_config (persist_state_sync env k n) = rn_config n"
  "rn_cluster (persist_state_sync env k n) = rn_cluster n" "rn_state (persist_state_sync env k n) = rn_state n"
  by (auto simp: persist_meta_sync_def persist_state_sync_def Let_def split: option.splits)

lemma reset_frame [simp]:
  "rn_ps (reset_election_timeout env n) = rn_ps n" "rn_config (reset_election_timeout env n) = rn_config n"
  "rn_cluster (reset_election_timeout env n) = rn_cluster n" "rn_state (reset_election_timeout env n) = rn_state n"
  "rn_wal (reset_election_timeout env n) = rn_wal n"
  by (simp_all add: reset_election_timeout_def)

lemma disk_ok_cong: "rn_ps n' = rn_ps n \<Longrightarrow> rn_wal n' = rn_wal n \<Longrightarrow> disk_ok c n' = disk_ok c n"
  by (simp add: disk_ok_def)

lemma become_follower_facts:
  assumes "n' = become_follower env t l n"
  shows "rn_ps n' = (if t > rn_term n then (rn_ps n)\<lparr>current_term := t, voted_for := None\<rparr> else rn_ps n)"
    "rn_config n' = rn_config n" "rn_cluster n' = rn_cluster n" "rn_state n' = Follower"
  using assms by (simp_all add: become_follower_def Let_def)

lemma become_follower_disk:
  assumes "disk_ok c m" "env_codec env = c" "rn_wal n = rn_wal m"
    and "record_ok c (WalMeta (max t (rn_term n)) (if t > rn_term n then None else voted_for (rn_ps n)))"
    and "rn_ps n = (rn_ps m)\<lparr>current_term := rn_term n, voted_for := voted_for (rn_ps n)\<rparr>"
  shows "disk_ok c (become_follower env t l n)"
proof -
  let ?n = "if t > rn_term n then n\<lparr>rn_ps := (rn_ps n)\<lparr>current_term := t, voted_for := None\<rparr>\<rparr> else n"
  have "rn_ps ?n = (rn_ps m)\<lparr>current_term := max t (rn_term n), voted_for := if t > rn_term n then None else voted_for (rn_ps n)\<rparr>"
  proof (cases "t > rn_term n")
    case True
    have "rn_ps ?n = (rn_ps n)\<lparr>current_term := t, voted_for := None\<rparr>" using True by simp
    also have "\<dots> = (rn_ps m)\<lparr>current_term := t, voted_for := None\<rparr>" by (subst assms(5)) simp
    finally show ?thesis using True by simp
  next
    case False
    then show ?thesis using assms(5) by simp
  qed
  from disk_ok_meta [OF assms(1,2,4) this] assms(3) have "disk_ok c (persist_meta_sync env ?n)" by simp
  then show ?thesis unfolding become_follower_def Let_def by (simp add: disk_ok_def reset_election_timeout_def)
qed

lemma request_vote_facts:
  assumes h: "handle_request_vote env req n = (r, n')"
  shows "vote_keeps n n'" "rlog (rn_ps n') = rlog (rn_ps n)" "rn_term n' = max (rn_term n) (vr_term req)"
    "vs_granted r \<Longrightarrow> rn_term n' = vr_term req \<and> voted_for (rn_ps n') = Some (vr_candidate req)"
    "voted_for (rn_ps n') = None \<or> voted_for (rn_ps n') = voted_for (rn_ps n) \<or> voted_for (rn_ps n') = Some (vr_candidate req)"
    "rn_state n' = (if vr_term req > rn_term n then Follower else rn_state n)"
  using h by (auto simp: handle_request_vote_def Let_def vote_keeps_def become_follower_facts [OF refl] split: if_splits)

lemma request_vote_disk:
  assumes h: "handle_request_vote env req n = (r, n')" and ok: "disk_ok c n" "env_codec env = c"
    and rec: "vr_term req < 2 ^ 64" "record_ok c (WalMeta 0 (Some (vr_candidate req)))"
  shows "disk_ok c n'"
proof -
  let ?m = "n\<lparr>rn_ps := (rn_ps n)\<lparr>current_term := vr_term req, voted_for := None\<rparr>\<rparr>"
  let ?n1 = "if vr_term req > rn_term n then become_follower env (vr_term req) None ?m else n"
  have n1: "disk_ok c ?n1"
    using become_follower_disk [OF ok, of ?m "vr_term req" None] ok(1) rec(1) by simp
  consider "n' = n" | "n' = ?n1"
    | "\<not> vr_term req < rn_term n" "n' = reset_election_timeout env (persist_meta_sync env
        (?n1\<lparr>rn_ps := (rn_ps ?n1)\<lparr>voted_for := Some (vr_candidate req)\<rparr>\<rparr>))"
    using h unfolding handle_request_vote_def Let_def by (simp split: if_splits)
  then show ?thesis
  proof cases
    case 3
    have "rn_term ?n1 = vr_term req" using 3(1) by (auto simp: become_follower_facts [OF refl])
    then have "record_ok c (WalMeta (rn_term ?n1) (Some (vr_candidate req)))" using rec by simp
    from disk_ok_meta [OF n1 ok(2) this, of "?n1\<lparr>rn_ps := (rn_ps ?n1)\<lparr>voted_for := Some (vr_candidate req)\<rparr>\<rparr>"]
    have "disk_ok c (persist_meta_sync env (?n1\<lparr>rn_ps := (rn_ps ?n1)\<lparr>voted_for := Some (vr_candidate req)\<rparr>\<rparr>))" by simp
    then show ?thesis unfolding 3(2) by (simp add: disk_ok_def)
  qed (use ok n1 in simp_all)
qed

lemma candidate_facts:
  assumes "n' = become_candidate env n"
  shows "rn_ps n' = (rn_ps n)\<lparr>current_term := rn_term n + 1, voted_for := Some (rn_id n)\<rparr>"
    "rn_config n' = rn_config n" "rn_cluster n' = rn_cluster n" "rn_state n' = Candidate"
  using assms by (simp_all add: become_candidate_def Let_def)

lemma candidate_disk:
  assumes "disk_ok c n" "env_codec env = c" "rn_term n + 1 < 2 ^ 64" "record_ok c (WalMeta 0 (Some (rn_id n)))"
  shows "disk_ok c (become_candidate env n)"
proof -
  let ?n = "n\<lparr>rn_ps := (rn_ps n)\<lparr>current_term := rn_term n + 1, voted_for := Some (rn_id n)\<rparr>\<rparr>"
  have "disk_ok c (persist_meta_sync env ?n)"
    using assms by (intro disk_ok_meta [where n = n]) simp_all
  then show ?thesis unfolding become_candidate_def Let_def by (simp add: disk_ok_def)
qed

lemma propose_internal_facts:
  assumes "propose_internal env cmd n = (i, n')"
  shows "rn_ps n' = (rn_ps n)\<lparr>rlog := rlog (rn_ps n) @ [entry_new (rn_term n) i cmd]\<rparr>"
    "i = last_log_index (rn_ps n) + 1"
    "rn_config n' = rn_config n" "rn_cluster n' = rn_cluster n" "rn_state n' = rn_state n"
  using assms by (auto simp: propose_internal_def Let_def)

lemma propose_internal_disk:
  assumes "propose_internal env cmd n = (i, n')" "disk_ok c n" "env_codec env = c" "fits c n'"
  shows "disk_ok c n'"
proof -
  let ?e = "entry_new (rn_term n) i cmd"
  have i: "i = last_log_index (rn_ps n) + 1" by (rule propose_internal_facts(2) [OF assms(1)])
  have "n' = persist_state_sync env (length [?e]) (n\<lparr>rn_ps := (rn_ps n)\<lparr>rlog := rlog (rn_ps n) @ [?e]\<rparr>\<rparr>)"
    using assms(1) by (auto simp: propose_internal_def Let_def)
  moreover have "record_ok c (WalEntry ?e)" using assms(4) by (simp add: fits_def propose_internal_facts(1) [OF assms(1)])
  ultimately show ?thesis
    using disk_ok_entries [OF assms(2,3), of "[?e]"] by (simp add: i entry_new_def)
qed

lemma push_commands_facts:
  "push_commands cs p = (is, p') \<Longrightarrow>
    \<exists>es. p' = p\<lparr>rlog := rlog p @ es\<rparr> \<and> numbered (Suc (last_log_index p)) es \<and> length es = length cs \<and>
      is = map e_index es \<and> map e_command es = cs \<and> (\<forall>e\<in>set es. e_term e = current_term p)"
proof (induction cs arbitrary: p "is" p')
  case Nil
  then show ?case by (intro exI [of _ "[]"]) simp
next
  case (Cons cmd cs)
  let ?e = "entry_new (current_term p) (last_log_index p + 1) cmd"
  obtain js where r: "push_commands cs (p\<lparr>rlog := rlog p @ [?e]\<rparr>) = (js, p')" "is = (last_log_index p + 1) # js"
    using Cons.prems by (auto simp: Let_def split: prod.splits)
  from Cons.IH [OF r(1)] obtain es where "p' = p\<lparr>rlog := rlog p @ ?e # es\<rparr>" "numbered (Suc (e_index ?e)) es"
      "length es = length cs" "js = map e_index es" "map e_command es = cs" "\<forall>e\<in>set es. e_term e = current_term p" by auto
  then show ?case using r(2) by (intro exI [of _ "?e # es"]) (simp add: entry_new_def)
qed

lemma propose_facts:
  assumes "propose env cmd n = (res, n')"
  shows "rn_config n' = rn_config n \<and> rn_cluster n' = rn_cluster n \<and> rn_state n' = rn_state n \<and>
    rn_term n' = rn_term n \<and> voted_for (rn_ps n') = voted_for (rn_ps n)" (is ?frame)
    "disk_ok c n \<Longrightarrow> env_codec env = c \<Longrightarrow> fits c n' \<Longrightarrow> disk_ok c n'"
proof -
  consider "n' = n" | i where "propose_internal env cmd n = (i, n')"
    using assms unfolding propose_def by (cases "is_leader n"; cases "propose_internal env cmd n") auto
  then have "?frame \<and> (disk_ok c n \<longrightarrow> env_codec env = c \<longrightarrow> fits c n' \<longrightarrow> disk_ok c n')"
  proof cases
    case (2 i)
    from propose_internal_facts [OF 2] propose_internal_disk [OF 2] show ?thesis by simp
  qed simp
  then show ?frame "disk_ok c n \<Longrightarrow> env_codec env = c \<Longrightarrow> fits c n' \<Longrightarrow> disk_ok c n'" by blast+
qed

lemma propose_batch_facts:
  assumes "propose_batch env cmds n = (res, n')"
  shows "rn_config n' = rn_config n \<and> rn_cluster n' = rn_cluster n \<and> rn_state n' = rn_state n \<and>
    rn_term n' = rn_term n \<and> voted_for (rn_ps n') = voted_for (rn_ps n)" (is ?frame)
    "disk_ok c n \<Longrightarrow> env_codec env = c \<Longrightarrow> fits c n' \<Longrightarrow> disk_ok c n'"
proof -
  have "?frame \<and> (disk_ok c n \<longrightarrow> env_codec env = c \<longrightarrow> fits c n' \<longrightarrow> disk_ok c n')"
  proof (cases "is_leader n \<and> cmds \<noteq> []")
    case True
    obtain "is" p' where p: "push_commands cmds (rn_ps n) = (is, p')" by fastforce
    from push_commands_facts [OF p] obtain es where
      es: "p' = (rn_ps n)\<lparr>rlog := rlog (rn_ps n) @ es\<rparr>" "numbered (Suc (last_log_index (rn_ps n))) es" "length es = length cmds"
      by blast
    have n': "n' = persist_state_sync env (length es) (n\<lparr>rn_ps := p'\<rparr>)"
      using assms True p es(3) by (auto simp: propose_batch_def)
    have "list_all (\<lambda>e. record_ok c (WalEntry e)) es" if "fits c n'" using that by (simp add: fits_def n' es(1))
    then have "disk_ok c n \<longrightarrow> env_codec env = c \<longrightarrow> fits c n' \<longrightarrow> disk_ok c n'"
      using disk_ok_entries [OF _ _ es(2), of c env "n\<lparr>rn_ps := p'\<rparr>"] by (simp add: n' es(1))
    then show ?thesis by (simp add: n' es(1))
  next
    case False
    with assms show ?thesis by (auto simp: propose_batch_def split: if_splits)
  qed
  then show ?frame "disk_ok c n \<Longrightarrow> env_codec env = c \<Longrightarrow> fits c n' \<Longrightarrow> disk_ok c n'" by blast+
qed

lemma become_leader_facts:
  assumes "n' = become_leader env n"
  shows "\<exists>i. rn_ps n' = (rn_ps n)\<lparr>rlog := rlog (rn_ps n) @ [entry_new (rn_term n) i Noop]\<rparr>"
    "rn_config n' = rn_config n" "rn_cluster n' = rn_cluster n" "rn_state n' = Leader"
    "disk_ok c n \<Longrightarrow> env_codec env = c \<Longrightarrow> fits c n' \<Longrightarrow> disk_ok c n'"
proof -
  let ?n = "n\<lparr>rn_state := Leader, rn_leader := Some (rn_id n),
      rn_leader_state := Some (ls_new (voting_members (rn_cluster n) |-| {|rn_id n|}) (last_log_index (rn_ps n))),
      rn_stats := (rn_stats n)\<lparr>elections_won := elections_won (rn_stats n) + 1\<rparr>\<rparr>"
  obtain i where p: "propose_internal env Noop ?n = (i, n')"
    using assms unfolding become_leader_def Let_def by (cases "propose_internal env Noop ?n") auto
  from propose_internal_facts [OF p] show "\<exists>i. rn_ps n' = (rn_ps n)\<lparr>rlog := rlog (rn_ps n) @ [entry_new (rn_term n) i Noop]\<rparr>"
    "rn_config n' = rn_config n" "rn_cluster n' = rn_cluster n" "rn_state n' = Leader" by auto
  have "disk_ok c ?n = disk_ok c n" by (simp add: disk_ok_def)
  with propose_internal_disk [OF p, of c]
  show "disk_ok c n \<Longrightarrow> env_codec env = c \<Longrightarrow> fits c n' \<Longrightarrow> disk_ok c n'" by blast
qed

text \<open>How an election ends: in the state it had, as a follower of a higher term, or as leader with a quorum of votes.\<close>

definition election_end :: "'s raft_env \<Rightarrow> cluster_config \<Rightarrow> node set \<Rightarrow> 's raft_node \<Rightarrow> 's raft_node \<Rightarrow> bool" where
  "election_end env cfg V n n' \<longleftrightarrow>
     (\<exists>st. n' = n\<lparr>rn_stats := st\<rparr>) \<or>
     (\<exists>t st. n' = become_follower env t None (n\<lparr>rn_stats := st\<rparr>)) \<or>
     (\<exists>Q st. n' = become_leader env (n\<lparr>rn_stats := st\<rparr>) \<and> rn_state n = Candidate \<and> has_quorum cfg Q \<and> fset Q \<subseteq> V)"

lemma election_end_mono: "election_end env cfg V n n' \<Longrightarrow> V \<subseteq> V' \<Longrightarrow> election_end env cfg V' n n'"
  unfolding election_end_def by blast

lemma election_end_stats: "election_end env cfg V (n\<lparr>rn_stats := st\<rparr>) n' \<Longrightarrow> election_end env cfg V n n'"
  unfolding election_end_def by auto

lemma election_endI:
  "election_end env cfg V n n"
  "election_end env cfg V n (become_follower env t None n)"
  "rn_state n = Candidate \<Longrightarrow> has_quorum cfg Q \<Longrightarrow> fset Q \<subseteq> V \<Longrightarrow> election_end env cfg V n (become_leader env (n\<lparr>rn_stats := st\<rparr>))"
proof -
  have self: "n = n\<lparr>rn_stats := rn_stats n\<rparr>" by simp
  show "election_end env cfg V n n" "election_end env cfg V n (become_follower env t None n)"
    unfolding election_end_def using self by metis+
qed (unfold election_end_def, blast)

definition granting :: "(node \<times> (raft_error + vote_response)) list \<Rightarrow> node set" where
  "granting rs = {p. \<exists>r. (p, Inr r) \<in> set rs \<and> vs_granted r}"

lemma count_votes_end: "election_end env cfg (fset votes \<union> granting rs) n (count_votes env t cfg votes rs n)"
proof (induction env t cfg votes rs n rule: count_votes.induct)
  case (1 env t cfg votes n)
  then show ?case by (simp add: election_endI)
next
  case (2 env t cfg votes peer e rs n)
  have "granting rs \<subseteq> granting ((peer, Inl e) # rs)" by (auto simp: granting_def)
  with election_end_mono [OF 2] show ?case by auto
next
  case (3 env t cfg votes peer r rs n)
  let ?n1 = "n\<lparr>rn_stats := (rn_stats n)\<lparr>votes_granted := votes_granted (rn_stats n) + 1\<rparr>\<rparr>"
  let ?v = "finsert peer votes" and ?V = "fset votes \<union> granting ((peer, Inr r) # rs)"
  have sub: "granting rs \<subseteq> ?V" "vs_granted r \<Longrightarrow> peer \<in> ?V" by (auto simp: granting_def)
  show ?case
  proof (cases "rn_state n = Candidate \<and> \<not> vs_term r > t")
    case False
    then show ?thesis by (auto intro: election_endI)
  next
    case c: True
    show ?thesis
    proof (cases "vs_granted r")
      case False
      from election_end_mono [OF 3(2)] c False sub(1) show ?thesis by auto
    next
      case g: True
      then have v: "fset ?v \<subseteq> ?V" using sub(2) by auto
      show ?thesis
      proof (cases "has_quorum cfg ?v")
        case True
        with c g election_endI(3) [of n cfg ?v ?V env] v show ?thesis by (simp add: Let_def)
      next
        case False
        have "election_end env cfg (fset ?v \<union> granting rs) ?n1 (count_votes env t cfg ?v rs ?n1)"
          using 3(1) c g False by blast
        from election_end_stats [OF election_end_mono [OF this]] v sub(1) have
          "election_end env cfg ?V n (count_votes env t cfg ?v rs ?n1)" by blast
        with c g False show ?thesis by (simp add: Let_def)
      qed
    qed
  qed
qed

section \<open>The invariant\<close>

text \<open>Node \<open>j\<close> gave its vote in term \<open>t\<close> to \<open>x\<close>: in a response, or by standing as a candidate itself.\<close>

definition granted_to :: "'s raft_world \<Rightarrow> node \<Rightarrow> nat \<Rightarrow> node \<Rightarrow> bool" where
  "granted_to w j t x \<longleftrightarrow>
     (\<exists>req r. (req, j, r) \<in> rw_responses w \<and> vs_granted r \<and> vr_term req = t \<and> vr_candidate req = x) \<or>
     (j = x \<and> (\<exists>req\<in>rw_requests w. vr_candidate req = x \<and> vr_term req = t))"

definition node_ok :: "wal_codec \<Rightarrow> node fset \<Rightarrow> cluster_config \<Rightarrow> node \<Rightarrow> 's raft_node \<Rightarrow> bool" where
  "node_ok c N cfg i n \<longleftrightarrow> rn_id n = i \<and> rn_cluster n = cfg \<and> disk_ok c n \<and> fits c n \<and>
     (\<forall>x. voted_for (rn_ps n) = Some x \<longrightarrow> x |\<in>| N)"

definition elect_ok :: "wal_codec \<Rightarrow> node fset \<Rightarrow> cluster_config \<Rightarrow> 's raft_world \<Rightarrow> bool" where
  "elect_ok c N cfg w \<longleftrightarrow>
     (\<forall>i. i |\<in>| N \<longrightarrow> node_ok c N cfg i (rw_nodes w i)) \<and>
     (\<forall>req\<in>rw_requests w. vr_candidate req |\<in>| N \<and> vr_term req < 2 ^ 64) \<and>
     (\<forall>j t x. granted_to w j t x \<longrightarrow> j |\<in>| N \<and> t \<le> rn_term (rw_nodes w j) \<and>
        (rn_term (rw_nodes w j) = t \<longrightarrow> voted_for (rn_ps (rw_nodes w j)) = Some x)) \<and>
     (\<forall>j t x y. granted_to w j t x \<longrightarrow> granted_to w j t y \<longrightarrow> x = y) \<and>
     (\<forall>i t. rw_inflight w i = Some t \<longrightarrow> granted_to w i t i \<and> rn_state (rw_nodes w i) \<noteq> Leader \<and>
        (rn_state (rw_nodes w i) = Candidate \<longrightarrow> rn_term (rw_nodes w i) = t)) \<and>
     (\<forall>t i. (t, i) \<in> rw_won w \<longrightarrow> (\<exists>Q. has_quorum cfg Q \<and> (\<forall>j. j |\<in>| Q \<longrightarrow> granted_to w j t i))) \<and>
     (\<forall>i. i |\<in>| N \<longrightarrow> is_leader (rw_nodes w i) \<longrightarrow> (rn_term (rw_nodes w i), i) \<in> rw_won w)"

lemma elect_okD:
  assumes "elect_ok c N cfg w"
  shows "i |\<in>| N \<Longrightarrow> node_ok c N cfg i (rw_nodes w i)"
    "req \<in> rw_requests w \<Longrightarrow> vr_candidate req |\<in>| N \<and> vr_term req < 2 ^ 64"
    "granted_to w j t x \<Longrightarrow> j |\<in>| N \<and> t \<le> rn_term (rw_nodes w j)"
    "granted_to w j t x \<Longrightarrow> rn_term (rw_nodes w j) = t \<Longrightarrow> voted_for (rn_ps (rw_nodes w j)) = Some x"
    "granted_to w j t x \<Longrightarrow> granted_to w j t y \<Longrightarrow> x = y"
    "rw_inflight w i = Some t \<Longrightarrow> granted_to w i t i \<and> rn_state (rw_nodes w i) \<noteq> Leader \<and>
        (rn_state (rw_nodes w i) = Candidate \<longrightarrow> rn_term (rw_nodes w i) = t)"
    "(t, i) \<in> rw_won w \<Longrightarrow> \<exists>Q. has_quorum cfg Q \<and> (\<forall>j. j |\<in>| Q \<longrightarrow> granted_to w j t i)"
    "i |\<in>| N \<Longrightarrow> is_leader (rw_nodes w i) \<Longrightarrow> (rn_term (rw_nodes w i), i) \<in> rw_won w"
  using assms unfolding elect_ok_def by blast+

lemma node_okD:
  assumes "node_ok c N cfg i n"
  shows "rn_id n = i" "rn_cluster n = cfg" "disk_ok c n" "fits c n" "voted_for (rn_ps n) = Some x \<Longrightarrow> x |\<in>| N"
  using assms unfolding node_ok_def by blast+

text \<open>
  One node changes from \<open>n\<close> to \<open>n'\<close>, keeping its votes, and possibly gives one vote \<open>(t, x)\<close> of its current term.
  The two conditions on leadership and on the election in progress are left to the step.
\<close>

lemma elect_ok_change:
  assumes ok: "elect_ok c N cfg w" and j: "j |\<in>| N" and n': "node_ok c N cfg j n'" and keeps: "vote_keeps (rw_nodes w j) n'"
    and w': "rw_nodes w' = (rw_nodes w)(j := n')" "rw_won w \<subseteq> rw_won w'" "\<And>i. i \<noteq> j \<Longrightarrow> rw_inflight w' i = rw_inflight w i"
    and new: "\<And>i t x. granted_to w' i t x \<Longrightarrow> granted_to w i t x \<or>
      (i = j \<and> rn_term n' = t \<and> voted_for (rn_ps n') = Some x)"
    and mono: "\<And>i t x. granted_to w i t x \<Longrightarrow> granted_to w' i t x"
    and reqs: "\<forall>req\<in>rw_requests w'. vr_candidate req |\<in>| N \<and> vr_term req < 2 ^ 64"
    and inflight: "\<And>t. rw_inflight w' j = Some t \<Longrightarrow> granted_to w' j t j \<and> rn_state n' \<noteq> Leader \<and> (rn_state n' = Candidate \<longrightarrow> rn_term n' = t)"
    and leader: "is_leader n' \<Longrightarrow> (rn_term n', j) \<in> rw_won w'"
    and won: "\<And>t i. (t, i) \<in> rw_won w' \<Longrightarrow> (t, i) \<notin> rw_won w \<Longrightarrow> \<exists>Q. has_quorum cfg Q \<and> (\<forall>p. p |\<in>| Q \<longrightarrow> granted_to w' p t i)"
  shows "elect_ok c N cfg w'"
proof -
  note D = elect_okD [OF ok]
  have cur: "t \<le> rn_term (rw_nodes w' i) \<and> (rn_term (rw_nodes w' i) = t \<longrightarrow> voted_for (rn_ps (rw_nodes w' i)) = Some x)"
    if "granted_to w' i t x" for i t x
  proof (cases "i = j")
    case True
    have *: "t \<le> rn_term n' \<and> (rn_term n' = t \<longrightarrow> voted_for (rn_ps n') = Some x)" if g: "granted_to w j t x"
    proof -
      have "t \<le> rn_term (rw_nodes w j)" using D(3) [OF g] by simp
      moreover have "rn_term (rw_nodes w j) \<le> rn_term n'" using keeps by (simp add: vote_keeps_def)
      moreover have "voted_for (rn_ps n') = Some x" if "rn_term n' = t"
      proof -
        have "rn_term (rw_nodes w j) = t" using that calculation by simp
        with D(4) [OF g] keeps that show ?thesis by (simp add: vote_keeps_def)
      qed
      ultimately show ?thesis by auto
    qed
    from new [OF that] True * show ?thesis by (auto simp: w'(1))
  next
    case False
    with new [OF that] have "granted_to w i t x" by blast
    with D(3,4) False show ?thesis by (auto simp: w'(1))
  qed
  have inN: "i |\<in>| N" if "granted_to w' i t x" for i t x using new [OF that] D(3) j by blast
  have uniq: "x = y" if g: "granted_to w' i t x" "granted_to w' i t y" for i t x y
  proof (cases "i = j \<and> rn_term n' = t")
    case True
    then show ?thesis using cur [OF g(1)] cur [OF g(2)] by (simp add: w'(1))
  next
    case False
    with new [OF g(1)] new [OF g(2)] D(5) show ?thesis by blast
  qed
  have fl: "granted_to w' i t i \<and> rn_state (rw_nodes w' i) \<noteq> Leader \<and>
      (rn_state (rw_nodes w' i) = Candidate \<longrightarrow> rn_term (rw_nodes w' i) = t)" if "rw_inflight w' i = Some t" for i t
    using that inflight D(6) [of i t] mono w'(1,3) by (cases "i = j") auto
  have "(rn_term (rw_nodes w' i), i) \<in> rw_won w'" if "i |\<in>| N" "is_leader (rw_nodes w' i)" for i
    using that leader D(8) [of i] w'(1,2) by (cases "i = j") auto
  moreover have "\<exists>Q. has_quorum cfg Q \<and> (\<forall>j. j |\<in>| Q \<longrightarrow> granted_to w' j t i)" if "(t, i) \<in> rw_won w'" for t i
    using that won [of t i] D(7) [of t i] mono by (cases "(t, i) \<in> rw_won w") blast+
  moreover have "node_ok c N cfg i (rw_nodes w' i)" if "i |\<in>| N" for i using that D(1) n' by (simp add: w'(1))
  ultimately show ?thesis using reqs cur inN uniq fl unfolding elect_ok_def by blast
qed

section \<open>Every step keeps the invariant\<close>

lemma granted_frame [simp]:
  "granted_to (w\<lparr>rw_nodes := f\<rparr>) = granted_to w" "granted_to (w\<lparr>rw_inflight := g\<rparr>) = granted_to w"
  "granted_to (w\<lparr>rw_won := S\<rparr>) = granted_to w"
  by (simp_all add: fun_eq_iff granted_to_def)

abbreviation ids_ok :: "wal_codec \<Rightarrow> node fset \<Rightarrow> bool" where
  "ids_ok c N \<equiv> \<forall>i. i |\<in>| N \<longrightarrow> record_ok c (WalMeta 0 (Some i))"

lemma node_ok_cong:
  assumes "node_ok c N cfg i n" "rn_config n' = rn_config n" "rn_cluster n' = rn_cluster n"
    "voted_for (rn_ps n') = voted_for (rn_ps n)" "disk_ok c n'" "fits c n'"
  shows "node_ok c N cfg i n'"
  using assms unfolding node_ok_def by simp

lemma elect_ok_start:
  assumes ok: "elect_ok c N cfg w" and ids: "ids_ok c N"
    and st: "i |\<in>| N" "env_codec env = c" "start_election env (rw_nodes w i) = (n, req)" "fits c n"
  shows "elect_ok c N cfg ((set_node w i n)\<lparr>rw_requests := insert req (rw_requests w),
      rw_inflight := (rw_inflight w)(i := Some (vr_term req))\<rparr>)"
proof -
  note M = node_okD [OF elect_okD(1) [OF ok st(1)]]
  have n: "n = become_candidate env (rw_nodes w i)" using st(3) by (auto simp: start_election_def Let_def)
  note F = candidate_facts [OF n]
  have req: "vr_term req = rn_term n" "vr_candidate req = i" using st(3) M(1) F by (auto simp: start_election_def Let_def n [symmetric])
  let ?w = "(set_node w i n)\<lparr>rw_requests := insert req (rw_requests w), rw_inflight := (rw_inflight w)(i := Some (vr_term req))\<rparr>"
  have g: "granted_to ?w j t x \<longleftrightarrow> granted_to w j t x \<or> (j = i \<and> x = i \<and> t = rn_term n)" for j t x
    using req by (auto simp: granted_to_def)
  have "disk_ok c n" using candidate_disk [OF M(3) st(2)] st(4) ids st(1) M(1) F by (simp add: fits_def n)
  then have nok: "node_ok c N cfg i n" using M F st(1,4) by (simp add: node_ok_def)
  have "vote_keeps (rw_nodes w i) n" using F by (simp add: vote_keeps_def)
  with ok st(1) nok show ?thesis
  proof (rule elect_ok_change)
    show "\<forall>r\<in>rw_requests ?w. vr_candidate r |\<in>| N \<and> vr_term r < 2 ^ 64"
      using elect_okD(2) [OF ok] st(1,4) req by (auto simp: fits_def)
    show "rw_inflight ?w i = Some t \<Longrightarrow> granted_to ?w i t i \<and> rn_state n \<noteq> Leader \<and> (rn_state n = Candidate \<longrightarrow> rn_term n = t)" for t
      using g req F by simp
    show "granted_to ?w j t x \<Longrightarrow> granted_to w j t x \<or> (j = i \<and> rn_term n = t \<and> voted_for (rn_ps n) = Some x)" for j t x
      using g F M(1) by auto
    show "granted_to w j t x \<Longrightarrow> granted_to ?w j t x" for j t x using g by blast
  qed (use F in auto)
qed

lemma elect_ok_vote:
  assumes ok: "elect_ok c N cfg w" and ids: "ids_ok c N"
    and st: "j |\<in>| N" "env_codec env = c" "req \<in> rw_requests w" "handle_request_vote env req (rw_nodes w j) = (r, n)"
  shows "elect_ok c N cfg ((set_node w j n)\<lparr>rw_responses := insert (req, j, r) (rw_responses w)\<rparr>)"
proof -
  note M = node_okD [OF elect_okD(1) [OF ok st(1)]] and F = request_vote_facts [OF st(4)]
  note R = elect_okD(2) [OF ok st(3)]
  let ?w = "(set_node w j n)\<lparr>rw_responses := insert (req, j, r) (rw_responses w)\<rparr>"
  have g: "granted_to ?w i t x \<longleftrightarrow> granted_to w i t x \<or>
      (i = j \<and> vs_granted r \<and> t = vr_term req \<and> x = vr_candidate req)" for i t x
    by (auto simp: granted_to_def)
  have "disk_ok c n" using request_vote_disk [OF st(4) M(3) st(2)] R ids by blast
  moreover have "fits c n" using M(4) R by (simp add: fits_def F)
  moreover have "rn_id n = j" "rn_cluster n = cfg" using F(1) M(1,2) by (simp_all add: vote_keeps_def)
  moreover have "x |\<in>| N" if "voted_for (rn_ps n) = Some x" for x using F(5) that M(5) R by auto
  ultimately have nok: "node_ok c N cfg j n" by (simp add: node_ok_def)
  have same: "rn_state n = rn_state (rw_nodes w j) \<and> rn_term n = rn_term (rw_nodes w j)" if "rn_state n \<noteq> Follower"
    using that F(3,6) by (auto split: if_splits)
  from ok st(1) nok F(1) show ?thesis
  proof (rule elect_ok_change)
    show "rw_inflight ?w j = Some t \<Longrightarrow> granted_to ?w j t j \<and> rn_state n \<noteq> Leader \<and> (rn_state n = Candidate \<longrightarrow> rn_term n = t)" for t
      using elect_okD(6) [OF ok, of j t] same g by fastforce
    show "is_leader n \<Longrightarrow> (rn_term n, j) \<in> rw_won ?w" using elect_okD(8) [OF ok st(1)] same by auto
    show "granted_to ?w i t x \<Longrightarrow> granted_to w i t x \<or> (i = j \<and> rn_term n = t \<and> voted_for (rn_ps n) = Some x)" for i t x
      using g F(4) by blast
    show "granted_to w i t x \<Longrightarrow> granted_to ?w i t x" for i t x using g by blast
  qed (use elect_okD(2) [OF ok] in auto)
qed

lemma record_ok_meta:
  "ids_ok c N \<Longrightarrow> t < 2 ^ 64 \<Longrightarrow> (\<And>x. v = Some x \<Longrightarrow> x |\<in>| N) \<Longrightarrow> record_ok c (WalMeta t v)"
  by (cases v) auto

lemma disk_ok_stats [simp]: "disk_ok c (n\<lparr>rn_stats := st\<rparr>) = disk_ok c n"
  by (simp add: disk_ok_def)

text \<open>What an election leaves of a node, whichever way it ends.\<close>

lemma election_end_node:
  assumes e: "election_end env cfg V n n'" and M: "node_ok c N cfg i n" and ids: "ids_ok c N" "env_codec env = c" "fits c n'"
  shows "vote_keeps n n'" "node_ok c N cfg i n'"
proof -
  note D = node_okD [OF M]
  have "vote_keeps n n' \<and> node_ok c N cfg i n'"
    using e unfolding election_end_def
  proof (elim disjE exE conjE)
    fix st assume "n' = n\<lparr>rn_stats := st\<rparr>"
    with M ids(3) show ?thesis by (simp add: vote_keeps_def node_ok_def)
  next
    fix t st assume n': "n' = become_follower env t None (n\<lparr>rn_stats := st\<rparr>)"
    note F = become_follower_facts [OF n']
    have "max t (rn_term n) < 2 ^ 64" using ids(3) D(4) F(1) by (auto simp: fits_def max_def split: if_splits)
    then have "record_ok c (WalMeta (max t (rn_term n)) (if t > rn_term n then None else voted_for (rn_ps n)))"
      using ids(1) D(5) by (intro record_ok_meta) (auto split: if_splits)
    then have "disk_ok c n'"
      unfolding n' using D(3) ids(2) by (intro become_follower_disk [where m = n]) auto
    with F M ids(3) show ?thesis by (auto simp: vote_keeps_def node_ok_def)
  next
    fix Q st assume n': "n' = become_leader env (n\<lparr>rn_stats := st\<rparr>)"
    note F = become_leader_facts [OF n']
    have "disk_ok c n'" using F(5) [of c] D(3) ids by simp
    moreover from F(1) have "rn_term n' = rn_term n" "voted_for (rn_ps n') = voted_for (rn_ps n)" by auto
    ultimately show ?thesis using F(2,3) M ids(3) by (simp add: vote_keeps_def node_ok_def)
  qed
  then show "vote_keeps n n'" "node_ok c N cfg i n'" by blast+
qed

lemma elect_ok_count:
  assumes ok: "elect_ok c N cfg w" and ids: "ids_ok c N"
    and st: "i |\<in>| N" "env_codec env = c" "rw_inflight w i = Some t" "list_all (result_ok w i t) rs"
      "count_votes env t (rn_cluster (rw_nodes w i)) {|i|} rs (rw_nodes w i) = n" "fits c n"
  shows "elect_ok c N cfg ((set_node w i n)\<lparr>rw_inflight := (rw_inflight w)(i := None),
      rw_won := (if rn_state n = Leader then insert (t, i) (rw_won w) else rw_won w)\<rparr>)"
proof -
  note M = elect_okD(1) [OF ok st(1)] and I = elect_okD(6) [OF ok st(3)]
  have e: "election_end env cfg ({i} \<union> granting rs) (rw_nodes w i) n"
    using count_votes_end [of env cfg "{|i|}" rs "rw_nodes w i" t] st(5) node_okD(2) [OF M] by simp
  note K = election_end_node [OF e M ids st(2,6)]
  have voters: "granted_to w p t i" if V: "p \<in> {i} \<union> granting rs" for p
  proof (cases "p = i")
    case False
    then obtain r where "(p, Inr r) \<in> set rs" "vs_granted r" using V by (auto simp: granting_def)
    moreover from this st(4) have "result_ok w i t (p, Inr r)" by (simp add: list_all_iff)
    ultimately show ?thesis unfolding result_ok_def granted_to_def by auto
  qed (use I in blast)
  have won: "rn_term n = t \<and> (\<exists>Q. has_quorum cfg Q \<and> (\<forall>p. p |\<in>| Q \<longrightarrow> granted_to w p t i))" if l: "is_leader n"
    using e unfolding election_end_def
  proof (elim disjE exE conjE)
    fix Q sta assume "n = become_leader env (rw_nodes w i\<lparr>rn_stats := sta\<rparr>)" "rn_state (rw_nodes w i) = Candidate"
      "has_quorum cfg Q" "fset Q \<subseteq> {i} \<union> granting rs"
    with I voters become_leader_facts(1) [of n env] show ?thesis by fastforce
  qed (use l I in \<open>auto simp: become_follower_facts(4) [OF refl]\<close>)
  let ?w = "(set_node w i n)\<lparr>rw_inflight := (rw_inflight w)(i := None),
      rw_won := (if rn_state n = Leader then insert (t, i) (rw_won w) else rw_won w)\<rparr>"
  from ok st(1) K(2,1) show ?thesis
  proof (rule elect_ok_change)
    show "is_leader n \<Longrightarrow> (rn_term n, i) \<in> rw_won ?w" using won by simp
    show "(t', i') \<in> rw_won ?w \<Longrightarrow> (t', i') \<notin> rw_won w \<Longrightarrow>
        \<exists>Q. has_quorum cfg Q \<and> (\<forall>p. p |\<in>| Q \<longrightarrow> granted_to ?w p t' i')" for t' i'
      using won by (auto split: if_splits)
  qed (use elect_okD(2) [OF ok] in auto)
qed

text \<open>A step that leaves term, vote and role alone.\<close>

lemma elect_ok_quiet:
  assumes ok: "elect_ok c N cfg w" and st: "i |\<in>| N" "disk_ok c n" "fits c n"
    and n: "rn_config n = rn_config (rw_nodes w i) \<and> rn_cluster n = rn_cluster (rw_nodes w i) \<and>
      rn_state n = rn_state (rw_nodes w i) \<and> rn_term n = rn_term (rw_nodes w i) \<and>
      voted_for (rn_ps n) = voted_for (rn_ps (rw_nodes w i))"
  shows "elect_ok c N cfg (set_node w i n)"
proof -
  have "node_ok c N cfg i n" using node_ok_cong [OF elect_okD(1) [OF ok st(1)]] n st by blast
  moreover have "vote_keeps (rw_nodes w i) n" using n by (simp add: vote_keeps_def)
  ultimately show ?thesis
    by (rule elect_ok_change [OF ok st(1)]) (use elect_okD(2,6,8) [OF ok] st(1) n in auto)
qed

lemma elect_ok_crash:
  assumes ok: "elect_ok c N cfg w" and crc: "\<forall>bs. crc32 c bs < 2 ^ 32"
    and st: "i |\<in>| N" "env_codec env = c" "rn_wal (rw_nodes w i) = Some d"
      "node_new env (rn_config (rw_nodes w i)) sm (Some d) (rn_cluster (rw_nodes w i)) = n"
  shows "elect_ok c N cfg ((set_node w i n)\<lparr>rw_inflight := (rw_inflight w)(i := None)\<rparr>)"
proof -
  note M = node_okD [OF elect_okD(1) [OF ok st(1)]]
  have "wal_recover c d = Inr (rn_ps (rw_nodes w i))" by (rule disk_ok_recover [OF crc M(3) st(3)])
  then have n: "rn_ps n = rn_ps (rw_nodes w i)" "rn_config n = rn_config (rw_nodes w i)"
      "rn_cluster n = rn_cluster (rw_nodes w i)" "rn_state n = Follower" "rn_wal n = Some (wal_open (wal_json d) (wal_file d))"
    using st(2,4) by (auto simp: node_new_def Let_def)
  have "disk_ok c n" using M(3) st(3) n(1) by (auto simp: disk_ok_def n(5) wal_open_def)
  then have "node_ok c N cfg i n" using M n by (auto simp: node_ok_def fits_def)
  moreover have "vote_keeps (rw_nodes w i) n" using n by (simp add: vote_keeps_def)
  ultimately show ?thesis
    by (rule elect_ok_change [OF ok st(1)]) (use elect_okD(2) [OF ok] n(4) in auto)
qed

lemma elect_ok_step:
  assumes "elect_step c N w w'" "elect_ok c N cfg w" "ids_ok c N" "\<forall>bs. crc32 c bs < 2 ^ 32"
  shows "elect_ok c N cfg w'"
  using assms(1)
proof cases
  case (e_start i env n req)
  then show ?thesis using elect_ok_start [OF assms(2,3)] by simp
next
  case (e_vote j env req r n)
  then show ?thesis using elect_ok_vote [OF assms(2,3)] by simp
next
  case (e_count i env t rs n)
  from elect_ok_count [OF assms(2,3) e_count(2-5) e_count(6-7)] e_count(1) show ?thesis by simp
next
  case (e_propose i env cmd res n)
  note D = node_okD(3) [OF elect_okD(1) [OF assms(2) e_propose(2)]]
  from elect_ok_quiet [OF assms(2) e_propose(2) propose_facts(2) [OF e_propose(4) D e_propose(3,5)] e_propose(5)
      propose_facts(1) [OF e_propose(4)]] e_propose(1) show ?thesis by simp
next
  case (e_batch i env cmds res' n)
  note D = node_okD(3) [OF elect_okD(1) [OF assms(2) e_batch(2)]]
  from elect_ok_quiet [OF assms(2) e_batch(2) propose_batch_facts(2) [OF e_batch(4) D e_batch(3,5)] e_batch(5)
      propose_batch_facts(1) [OF e_batch(4)]] e_batch(1) show ?thesis by simp
next
  case (e_crash i env d sm n)
  from elect_ok_crash [OF assms(2,4) e_crash(2-5)] e_crash(1) show ?thesis by simp
qed

lemma elect_ok_init: "env_codec env = c \<Longrightarrow> elect_ok c N cfg (raft_init env cfg sms disk)"
proof -
  assume c: "env_codec env = c"
  have g: "\<not> granted_to (raft_init env cfg sms disk) j t x" for j t x
    by (simp add: granted_to_def raft_init_def)
  have "wal_recover c (wal_open None []) = Inr ps_new"
    by (simp add: wal_recover_def wal_open_def load_from_dir_def recover_loop.simps)
  then have ps: "rn_ps (rw_nodes (raft_init env cfg sms disk) i) = ps_new" for i
    using c by (simp add: raft_init_def node_new_def Let_def)
  have "disk_ok c (rw_nodes (raft_init env cfg sms disk) i)" for i
    unfolding disk_ok_def ps by (auto simp: raft_init_def node_new_def Let_def wal_open_def load_from_dir_def intro!: exI [of _ "[]"])
  then have "node_ok c N cfg i (rw_nodes (raft_init env cfg sms disk) i)" for i
    by (simp add: node_ok_def fits_def ps ps_new_def) (simp add: raft_init_def node_new_def Let_def raft_config_new_def)
  then show ?thesis by (simp add: elect_ok_def g) (simp add: raft_init_def node_new_def Let_def)
qed

lemma elect_reachable_ok:
  assumes "elect_reachable (env_codec env) N (raft_init env cfg sms disk) w" "ids_ok (env_codec env) N"
    "\<forall>bs. crc32 (env_codec env) bs < 2 ^ 32"
  shows "elect_ok (env_codec env) N cfg w"
  using assms(1)
proof induction
  case (el_step w w')
  from elect_ok_step [OF el_step(2,3) assms(2,3)] show ?case .
qed (simp add: elect_ok_init)

end
