(* ===== verification/Raft_Log.thy ===== *)
theory Raft_Log
  imports Raft_Election
begin

text \<open>
  Log replication: what \<open>handle_append_entries\<close> does to a follower's log, stated against the merge of
  the protocol's description, the agreement with the leader's log that a success guarantees, and the rule by
  which the leader advances its commit index.
\<close>

section \<open>Numbered logs\<close>

lemma numbered_nth: "numbered k es \<Longrightarrow> i < length es \<Longrightarrow> e_index (es ! i) = k + i"
  by (induction k es arbitrary: i rule: numbered.induct) (auto simp: nth_Cons split: nat.splits)

lemma numbered_append [simp]: "numbered k (xs @ ys) \<longleftrightarrow> numbered k xs \<and> numbered (k + length xs) ys"
  by (induction k xs rule: numbered.induct) auto

lemma numbered_take: "numbered k es \<Longrightarrow> numbered k (take n es)"
  by (metis append_take_drop_id numbered_append)

lemma numbered_drop: "numbered k es \<Longrightarrow> n \<le> length es \<Longrightarrow> numbered (k + n) (drop n es)"
  by (metis append_take_drop_id length_take min.absorb2 numbered_append)

lemma last_log_index_numbered: "numbered 1 (rlog p) \<Longrightarrow> last_log_index p = length (rlog p)"
  using numbered_nth [of 1 "rlog p" "length (rlog p) - 1"] by (cases "rlog p") (auto simp: last_log_index_def last_conv_nth)

lemma get_term_nth: "get_term p (Suc i) = (if i < length (rlog p) then Some (e_term (rlog p ! i)) else None)"
  by (auto simp: get_term_def get_entry_def)

section \<open>Merging entries into a log\<close>

fun merge_log :: "raft_entry list \<Rightarrow> raft_entry list \<Rightarrow> raft_entry list" where
  "merge_log [] ns = ns"
| "merge_log os [] = os"
| "merge_log (x # os) (n # ns) = (if e_term x = e_term n then x # merge_log os ns else n # ns)"

lemma truncate_conflicts_beyond:
  "numbered (Suc (length (rlog p))) es \<Longrightarrow> truncate_conflicts es p = p"
proof -
  have "truncate_conflicts es p = p" if "numbered k es" "k > length (rlog p)" for k
    using that by (induction k es rule: numbered.induct) (auto simp: get_term_def get_entry_def)
  then show "numbered (Suc (length (rlog p))) es \<Longrightarrow> truncate_conflicts es p = p" by blast
qed

lemma append_new_all:
  "numbered 1 (rlog p) \<Longrightarrow> numbered (Suc (length (rlog p))) es \<Longrightarrow> append_new es p = (p\<lparr>rlog := rlog p @ es\<rparr>, length es)"
proof (induction es arbitrary: p)
  case (Cons e es)
  let ?p = "p\<lparr>rlog := rlog p @ [e]\<rparr>"
  have "append_new es ?p = (?p\<lparr>rlog := rlog ?p @ es\<rparr>, length es)" using Cons by (intro Cons.IH) auto
  with Cons.prems last_log_index_numbered [of p] show ?case by simp
qed simp

lemma truncate_conflicts_length: "numbered (Suc k) es \<Longrightarrow> k \<le> length (rlog p) \<Longrightarrow>
    take k (rlog (truncate_conflicts es p)) = take k (rlog p) \<and> k \<le> length (rlog (truncate_conflicts es p)) \<and>
    (numbered 1 (rlog p) \<longrightarrow> numbered 1 (rlog (truncate_conflicts es p)))"
proof (induction es arbitrary: k)
  case (Cons e es)
  show ?case
  proof (cases "k < length (rlog p)")
    case True
    show ?thesis
    proof (cases "e_term (rlog p ! k) = e_term e")
      case eq: True
      have IH: "take (Suc k) (rlog (truncate_conflicts es p)) = take (Suc k) (rlog p)"
        "Suc k \<le> length (rlog (truncate_conflicts es p))"
        "numbered 1 (rlog p) \<longrightarrow> numbered 1 (rlog (truncate_conflicts es p))"
        using Cons.IH [of "Suc k"] Cons.prems True by auto
      from arg_cong [OF IH(1), of "take k"] IH(2,3) show ?thesis using True eq Cons.prems by (simp add: get_term_nth)
    next
      case False
      with True Cons.prems show ?thesis by (simp add: get_term_nth truncate_from_def numbered_take)
    qed
  next
    case False
    then have "truncate_conflicts (e # es) p = p" using Cons.prems by (intro truncate_conflicts_beyond) auto
    with Cons.prems show ?thesis by auto
  qed
qed simp

text \<open>The two loops of \<open>handle_append_entries\<close> compute the merge.\<close>

lemma append_loops_merge:
  "numbered 1 (pre @ old) \<Longrightarrow> numbered (Suc (length pre)) es \<Longrightarrow> rlog p = pre @ old \<Longrightarrow>
    fst (append_new es (truncate_conflicts es p)) = p\<lparr>rlog := pre @ merge_log old es\<rparr>"
proof (induction old es arbitrary: pre rule: merge_log.induct)
  case (1 ns)
  then have "truncate_conflicts ns p = p" by (intro truncate_conflicts_beyond) simp
  with 1 show ?case using append_new_all [of p ns] by simp
next
  case (2 v va)
  then show ?case by simp
next
  case (3 x os n ns)
  have len: "length pre < length (rlog p)" "rlog p ! length pre = x" using 3(4) by auto
  have idx: "e_index n = Suc (length pre)" using 3(3) by simp
  show ?case
  proof (cases "e_term x = e_term n")
    case True
    let ?p1 = "truncate_conflicts ns p"
    have t: "truncate_conflicts (n # ns) p = ?p1" using len True idx by (simp add: get_term_nth)
    have "Suc (length pre) \<le> length (rlog ?p1)" "numbered 1 (rlog ?p1)"
      using truncate_conflicts_length [of "Suc (length pre)" ns p] 3(2,3,4) by auto
    then have "append_new (n # ns) ?p1 = append_new ns ?p1" using last_log_index_numbered [of ?p1] idx by simp
    then show ?thesis using 3(1) [OF True, of "pre @ [x]"] 3(2,3,4) True t by simp
  next
    case False
    have t: "truncate_conflicts (n # ns) p = p\<lparr>rlog := pre\<rparr>"
      using len False idx 3(4) by (simp add: get_term_nth truncate_from_def)
    have "append_new (n # ns) (p\<lparr>rlog := pre\<rparr>) = (p\<lparr>rlog := pre @ n # ns\<rparr>, length (n # ns))"
      using append_new_all [of "p\<lparr>rlog := pre\<rparr>" "n # ns"] 3(2,3) by (simp del: append_new.simps)
    then show ?thesis using False t by (simp del: append_new.simps truncate_conflicts.simps)
  qed
qed

section \<open>Agreement of two logs\<close>

text \<open>The log matching property: entries of the same index and term come with equal logs up to them.\<close>

definition log_match :: "raft_entry list \<Rightarrow> raft_entry list \<Rightarrow> bool" where
  "log_match A B \<longleftrightarrow> (\<forall>i < min (length A) (length B). e_term (A ! i) = e_term (B ! i) \<longrightarrow> take (Suc i) A = take (Suc i) B)"

lemma log_match_take: "log_match A B \<Longrightarrow> 0 < k \<Longrightarrow> k \<le> length A \<Longrightarrow> k \<le> length B \<Longrightarrow>
    e_term (A ! (k - 1)) = e_term (B ! (k - 1)) \<Longrightarrow> take k A = take k B"
  unfolding log_match_def by (cases k) auto

lemma log_match_prefix: "log_match (take k B) B"
  unfolding log_match_def by auto

lemma log_match_tl: "log_match (a # A) (b # B) \<Longrightarrow> log_match A B"
  unfolding log_match_def by force

lemma log_match_drop:
  assumes "log_match A B" "take k A = take k B"
  shows "log_match (drop k A) (take m (drop k B))"
  unfolding log_match_def
proof (intro allI impI)
  fix i assume i: "i < min (length (drop k A)) (length (take m (drop k B)))"
    and t: "e_term (drop k A ! i) = e_term (take m (drop k B) ! i)"
  then have "k + i < length A" "k + i < length B" "e_term (A ! (k + i)) = e_term (B ! (k + i))" by auto
  with assms(1) have "take (Suc (k + i)) A = take (Suc (k + i)) B" unfolding log_match_def by simp
  then have "drop k (take (Suc (k + i)) A) = drop k (take (Suc (k + i)) B)" by simp
  then show "take (Suc i) (drop k A) = take (Suc i) (take m (drop k B))" using i by (simp add: drop_take)
qed

lemma merge_cases:
  "log_match old es \<Longrightarrow> (merge_log old es = old \<and> take (length es) old = es) \<or> merge_log old es = es"
proof (induction old es rule: merge_log.induct)
  case (3 x os n ns)
  show ?case
  proof (cases "e_term x = e_term n")
    case True
    then have "x = n" using 3(2) unfolding log_match_def by force
    with 3(1) [OF True log_match_tl [OF 3(2)]] True show ?thesis by auto
  qed simp
qed auto

section \<open>The handler\<close>

text \<open>When a request is accepted, and what is left of the node then.\<close>

lemma append_success:
  assumes h: "handle_append_entries env req n = (r, n')" and ok: "as_success r"
  shows "rn_term n \<le> ar_term req" "ar_prev_log_index req = 0 \<or>
      get_term (rn_ps n) (ar_prev_log_index req) = Some (ar_prev_log_term req)"
    "rn_ps n' = (fst (append_new (ar_entries req) (truncate_conflicts (ar_entries req)
        ((rn_ps n)\<lparr>current_term := ar_term req, voted_for := None\<rparr>))))"
    "as_match_index r = (if ar_entries req = [] then ar_prev_log_index req else e_index (last (ar_entries req)))"
proof -
  have t: "get_term (p\<lparr>current_term := t, voted_for := v\<rparr>) = get_term p" for p t v
    by (simp add: fun_eq_iff get_term_def get_entry_def)
  show "rn_term n \<le> ar_term req" "ar_prev_log_index req = 0 \<or>
      get_term (rn_ps n) (ar_prev_log_index req) = Some (ar_prev_log_term req)"
    "rn_ps n' = (fst (append_new (ar_entries req) (truncate_conflicts (ar_entries req)
        ((rn_ps n)\<lparr>current_term := ar_term req, voted_for := None\<rparr>))))"
    "as_match_index r = (if ar_entries req = [] then ar_prev_log_index req else e_index (last (ar_entries req)))"
    using h ok
    by (auto simp: handle_append_entries_def Let_def append_reject_def become_follower_facts [OF refl] t
        split: if_splits prod.splits)
qed

lemma append_reject_facts:
  assumes "handle_append_entries env req n = (r, n')" "\<not> as_success r"
  shows "rlog (rn_ps n') = rlog (rn_ps n)"
  using assms by (auto simp: handle_append_entries_def Let_def append_reject_def become_follower_facts [OF refl]
      split: if_splits prod.splits)

lemma accepted_prev_le: "get_term p k = Some t \<Longrightarrow> 0 < k \<and> k \<le> length (rlog p) \<and> e_term (rlog p ! (k - 1)) = t"
  by (auto simp: get_term_def get_entry_def split: if_splits)

lemma append_merges:
  assumes "handle_append_entries env req n = (r, n')" "as_success r"
    and "numbered 1 (rlog (rn_ps n))" "numbered (Suc (ar_prev_log_index req)) (ar_entries req)"
  shows "rlog (rn_ps n') = take (ar_prev_log_index req) (rlog (rn_ps n)) @
      merge_log (drop (ar_prev_log_index req) (rlog (rn_ps n))) (ar_entries req)"
    "ar_prev_log_index req \<le> length (rlog (rn_ps n))"
proof -
  note A = append_success [OF assms(1,2)]
  let ?k = "ar_prev_log_index req" and ?log = "rlog (rn_ps n)"
  show k: "?k \<le> length ?log" using A(2) accepted_prev_le by (cases "?k = 0") auto
  have "fst (append_new (ar_entries req) (truncate_conflicts (ar_entries req)
      ((rn_ps n)\<lparr>current_term := ar_term req, voted_for := None\<rparr>))) =
      ((rn_ps n)\<lparr>current_term := ar_term req, voted_for := None\<rparr>)\<lparr>rlog := take ?k ?log @ merge_log (drop ?k ?log) (ar_entries req)\<rparr>"
    using assms(3,4) k by (intro append_loops_merge) (simp_all add: min_absorb2)
  then show "rlog (rn_ps n') = take ?k ?log @ merge_log (drop ?k ?log) (ar_entries req)" by (simp add: A(3))
qed

lemma numbered_merge:
  "numbered k old \<Longrightarrow> numbered k es \<Longrightarrow> numbered k (merge_log old es)"
  by (induction old es arbitrary: k rule: merge_log.induct) auto

text \<open>The heartbeat of a leader carries a slice of its log.\<close>

lemma heartbeat_slice:
  assumes "heartbeat_request ld l j = Some req" "numbered 1 (rlog (rn_ps ld))"
    and nxt: "1 \<le> fm_get 1 (next_index l) j" "fm_get 1 (next_index l) j \<le> length (rlog (rn_ps ld)) + 1"
  shows "ar_prev_log_index req = fm_get 1 (next_index l) j - 1"
    "\<exists>m. ar_entries req = take m (drop (ar_prev_log_index req) (rlog (rn_ps ld)))"
    "ar_prev_log_index req > 0 \<Longrightarrow> ar_prev_log_term req = e_term (rlog (rn_ps ld) ! (ar_prev_log_index req - 1))"
    "numbered (Suc (ar_prev_log_index req)) (ar_entries req)"
    "ar_term req = rn_term ld"
proof -
  let ?next = "fm_get 1 (next_index l) j" and ?log = "rlog (rn_ps ld)"
  have li: "last_log_index (rn_ps ld) = length ?log" by (rule last_log_index_numbered [OF assms(2)])
  show prev: "ar_prev_log_index req = ?next - 1" and "ar_term req = rn_term ld"
    using assms(1) by (auto simp: heartbeat_request_def Let_def)
  show "\<exists>m. ar_entries req = take m (drop (ar_prev_log_index req) ?log)"
    using assms(1) li by (auto simp: heartbeat_request_def Let_def get_entries_def split: if_splits intro: exI [of _ 0])
  then obtain m where m: "ar_entries req = take m (drop (?next - 1) ?log)" by (auto simp: prev)
  have "numbered (1 + (?next - 1)) (drop (?next - 1) ?log)" using nxt assms(2) by (intro numbered_drop) auto
  from numbered_take [OF this] show "numbered (Suc (ar_prev_log_index req)) (ar_entries req)" by (simp add: prev m)
  show "ar_prev_log_term req = e_term (?log ! (ar_prev_log_index req - 1))" if pos: "ar_prev_log_index req > 0"
  proof -
    obtain k where k: "?next - 1 = Suc k" using pos prev by (cases "?next - 1") auto
    then have "get_term (rn_ps ld) (?next - 1) = Some (e_term (?log ! (?next - 1 - 1)))"
      using nxt(2) by (simp add: get_term_nth)
    then show ?thesis using assms(1) by (auto simp: heartbeat_request_def Let_def)
  qed
qed

section \<open>The commit index\<close>

text \<open>The nodes that hold the entry at \<open>index\<close> as far as the leader knows.\<close>

definition replicated_on :: "'s raft_node \<Rightarrow> leader_state \<Rightarrow> nat \<Rightarrow> node fset" where
  "replicated_on n l index = finsert (rn_id n) (fmdom (fmfilter (\<lambda>i. fm_get 0 (match_index l) i \<ge> index) (match_index l)))"

definition committable :: "'s raft_node \<Rightarrow> leader_state \<Rightarrow> nat \<Rightarrow> bool" where
  "committable n l index \<longleftrightarrow> get_term (rn_ps n) index = Some (rn_term n) \<and> has_quorum (rn_cluster n) (replicated_on n l index)"

lemma maybe_advance_one_if:
  "maybe_advance_one n l index m = (if committable n l index
     then m\<lparr>commit_index := index, commit_notified := commit_notified m @ [index]\<rparr> else m)"
  by (simp add: maybe_advance_one_def committable_def replicated_on_def Let_def)

lemma advance_fold:
  "commit_index (fold (maybe_advance_one n l) xs m) = (if \<exists>x\<in>set xs. committable n l x
     then last (filter (committable n l) xs) else commit_index m)"
proof (induction xs arbitrary: m)
  case (Cons x xs)
  then show ?case by (cases "\<exists>y\<in>set xs. committable n l y") (auto simp: maybe_advance_one_if filter_empty_conv)
qed simp

lemma sorted_last: "sorted xs \<Longrightarrow> \<forall>i\<in>set xs. i \<le> last xs"
  by (induction xs) auto

lemma advance_rule:
  assumes "rn_leader_state n = Some l"
  shows "commit_index (maybe_advance_commit_index n) =
    Max (insert (commit_index n) {i \<in> {commit_index n + 1 .. last_log_index (rn_ps n)}. committable n l i})"
proof -
  define xs where "xs = [commit_index n + 1 ..< last_log_index (rn_ps n) + 1]"
  define S where "S = {i \<in> {commit_index n + 1 .. last_log_index (rn_ps n)}. committable n l i}"
  have S: "set (filter (committable n l) xs) = S" by (auto simp: xs_def S_def)
  have ci: "commit_index (maybe_advance_commit_index n) = (if S \<noteq> {} then last (filter (committable n l) xs) else commit_index n)"
    unfolding maybe_advance_commit_index_def assms option.case xs_def [symmetric] advance_fold S [symmetric]
    by (auto simp: filter_empty_conv)
  show ?thesis
  proof (cases "S = {}")
    case True
    with ci show ?thesis unfolding S_def [symmetric] by simp
  next
    case False
    then have ne: "filter (committable n l) xs \<noteq> []" using S by (metis set_empty)
    have "sorted (filter (committable n l) xs)" unfolding xs_def by (intro sorted_wrt_filter sorted_upt)
    then have "\<forall>i\<in>set (filter (committable n l) xs). i \<le> last (filter (committable n l) xs)" by (rule sorted_last)
    then have "Max S = last (filter (committable n l) xs)"
      unfolding S [symmetric] using last_in_set [OF ne] by (intro Max_eqI) blast+
    moreover have "finite S" "\<forall>i\<in>S. commit_index n < i" by (auto simp: S_def)
    ultimately show ?thesis
      using False ci Max_in [of S] unfolding S_def [symmetric] by (simp add: max_def less_imp_le)
  qed
qed

end
