(* ===== verification/Raft_Props.thy ===== *)
theory Raft_Props
  imports Raft_Log
begin

text \<open>
  The properties of the consensus layer: one leader per term as long as no heartbeat resets a vote, the
  run in which one does, durability across restarts, replication of the log, the commit rule,
  membership changes, and the ways in which snapshots and the write-ahead log lose what was agreed.
\<close>

section \<open>A cluster of three to evaluate\<close>

definition ex_env :: "unit raft_env" where
  "ex_env = \<lparr>env_now = 0, env_timeout = 150, env_codec = toy_codec,
     env_sm = \<lparr>sm_apply = \<lambda>s c. ([], s), sm_snapshot = \<lambda>s. [], sm_restore = \<lambda>s d. (Inr (), s)\<rparr>,
     env_rs = rs_copy, env_shard_dec = \<lambda>d. None\<rparr>"

abbreviation ex_nodes :: "node fset" where "ex_nodes \<equiv> {|''a'', ''b'', ''c''|}"

definition ex_cfg :: cluster_config where "ex_cfg = cc_new ex_nodes"

definition ex_init :: "unit raft_world" where
  "ex_init = raft_init ex_env ex_cfg (\<lambda>i. ()) (\<lambda>i. False)"

definition n_a :: "unit raft_node" where "n_a = rw_nodes ex_init ''a''"
definition n_b :: "unit raft_node" where "n_b = rw_nodes ex_init ''b''"
definition n_c :: "unit raft_node" where "n_c = rw_nodes ex_init ''c''"

text \<open>The quantities of a node that an election looks at.\<close>

definition view :: "'s raft_node \<Rightarrow> node \<times> cluster_config \<times> nat \<times> node option \<times> raft_entry list \<times> raft_state \<times> raft_wal option" where
  "view n = (rn_id n, rn_cluster n, rn_term n, voted_for (rn_ps n), rlog (rn_ps n), rn_state n, rn_wal n)"

lemma view_start:
  "view n = (i, cfg, t, v, log, st, None) \<Longrightarrow> start_election env n = (n', req) \<Longrightarrow>
    view n' = (i, cfg, t + 1, Some i, log, Candidate, None) \<and>
    req = \<lparr>vr_term = t + 1, vr_candidate = i, vr_last_log_index = (if log = [] then 0 else e_index (last log)),
      vr_last_log_term = (if log = [] then 0 else e_term (last log))\<rparr>"
  by (auto simp: view_def start_election_def Let_def candidate_facts [OF refl] last_log_index_def last_log_term_def)
    (auto simp: become_candidate_def persist_meta_sync_def Let_def)

lemma view_vote_new_term:
  "view n = (i, cfg, t, v, log, st, None) \<Longrightarrow> handle_request_vote env req n = (r, n') \<Longrightarrow> t < vr_term req \<Longrightarrow>
    (let ok = (vr_last_log_term req > (if log = [] then 0 else e_term (last log)) \<or>
       (vr_last_log_term req = (if log = [] then 0 else e_term (last log)) \<and>
        vr_last_log_index req \<ge> (if log = [] then 0 else e_index (last log))))
     in view n' = (i, cfg, vr_term req, if ok then Some (vr_candidate req) else None, log, Follower, None) \<and>
        r = \<lparr>vs_term = vr_term req, vs_granted = ok\<rparr>)"
  by (auto simp: view_def handle_request_vote_def Let_def become_follower_facts [OF refl] last_log_index_def last_log_term_def
      persist_meta_sync_def become_follower_def reset_election_timeout_def split: if_splits)

lemma view_vote_same_term:
  "view n = (i, cfg, t, None, [], st, None) \<Longrightarrow> handle_request_vote env req n = (r, n') \<Longrightarrow> vr_term req = t \<Longrightarrow>
    view n' = (i, cfg, t, Some (vr_candidate req), [], st, None) \<and> r = \<lparr>vs_term = t, vs_granted = True\<rparr>"
  by (auto simp: view_def handle_request_vote_def Let_def last_log_index_def last_log_term_def
      persist_meta_sync_def reset_election_timeout_def split: if_splits)

lemma view_win:
  assumes "view n = (i, cfg, t, v, log, Candidate, None)" "has_quorum cfg {|p, i|}"
    and "n' = count_votes env t cfg {|i|} [(p, Inr \<lparr>vs_term = t, vs_granted = True\<rparr>)] n"
  shows "view n' = (i, cfg, t, v, log @ [entry_new t ((if log = [] then 0 else e_index (last log)) + 1) Noop], Leader, None)"
    "rn_leader_state n' = Some (ls_new (voting_members cfg |-| {|i|}) (if log = [] then 0 else e_index (last log)))"
    "rn_config n' = rn_config n" "commit_index n' = commit_index n"
  using assms
  by (auto simp: view_def become_leader_def propose_internal_def persist_state_sync_def Let_def last_log_index_def)

lemma view_append_short:
  assumes "view n = (i, cfg, t, v, [], st, None)" "ar_term req = t" "ar_prev_log_index req > 0"
    and "handle_append_entries env req n = (r, n')"
  shows "view n' = (i, cfg, t, None, [], Follower, None)"
  using assms by (auto simp: view_def handle_append_entries_def Let_def get_term_def get_entry_def persist_meta_sync_def
      become_follower_def reset_election_timeout_def split: if_splits)

lemma ls_new_next: "p |\<in>| peers \<Longrightarrow> fm_get 1 (next_index (ls_new peers k)) p = k + 1"
proof -
  have "map_of (map (\<lambda>p. (p, k + 1)) xs) p = (if p \<in> set xs then Some (k + 1) else None)" for xs
    by (induction xs) auto
  then show "p |\<in>| peers \<Longrightarrow> ?thesis" by (simp add: ls_new_def fm_get_def fmlookup_of_list)
qed

lemma ex_quorums:
  "has_quorum ex_cfg {|''b'', ''a''|}" "has_quorum ex_cfg {|''b'', ''c''|}"
  "voting_members ex_cfg |-| {|''a''|} = {|''b'', ''c''|}"
proof -
  show "has_quorum ex_cfg {|''b'', ''a''|}" "has_quorum ex_cfg {|''b'', ''c''|}" by code_simp+
  show "voting_members ex_cfg |-| {|''a''|} = {|''b'', ''c''|}" by (auto simp: voting_members_def ex_cfg_def cc_new_def)
qed

lemma ex_views:
  "view n_a = (''a'', ex_cfg, 0, None, [], Follower, None)" "view n_b = (''b'', ex_cfg, 0, None, [], Follower, None)"
  "view n_c = (''c'', ex_cfg, 0, None, [], Follower, None)"
  by (simp_all add: view_def n_a_def n_b_def n_c_def ex_init_def raft_init_def node_new_def ps_new_def raft_config_new_def Let_def)

lemma fits_view: "view n = (i, cfg, t, v, log, st, d) \<Longrightarrow> t < 2 ^ 64 \<Longrightarrow> list_all (\<lambda>e. record_ok c (WalEntry e)) log \<Longrightarrow> fits c n"
  by (auto simp: view_def fits_def)

lemma ex_entries_ok: "record_ok toy_codec (WalEntry (entry_new 1 1 Noop))" "record_ok toy_codec (WalEntry (entry_new 3 2 Noop))"
  "record_ok toy_codec (WalEntry (entry_new 3 1 Noop))"
  by (simp_all add: toy_codec_def entry_new_def)

lemma ex_ids_ok: "ids_ok toy_codec ex_nodes"
proof -
  have "utf8_ok (as_bytes ''a'')" "utf8_ok (as_bytes ''b'')" "utf8_ok (as_bytes ''c'')" by code_simp+
  then show ?thesis by auto
qed

text \<open>Rounds of an election, as sequences of steps.\<close>

abbreviation ex_steps :: "unit raft_world \<Rightarrow> unit raft_world \<Rightarrow> bool" where
  "ex_steps \<equiv> (elect_step toy_codec ex_nodes)\<^sup>*\<^sup>*"

lemma env_codec_ex [simp]: "env_codec ex_env = toy_codec"
  by (simp add: ex_env_def)

text \<open>A node stands, one peer answers, and the node counts that answer.\<close>

lemma ex_round:
  assumes v: "view (rw_nodes w i) = (i, ex_cfg, t, v, log, st, None)" "i |\<in>| ex_nodes" "p |\<in>| ex_nodes" "p \<noteq> i"
    and idle: "rw_inflight w i = None" "st \<noteq> Leader" "t + 1 < 2 ^ 64" "list_all (\<lambda>e. record_ok toy_codec (WalEntry e)) log"
    and start: "start_election ex_env (rw_nodes w i) = (n1, req)" and vote: "handle_request_vote ex_env req (rw_nodes w p) = (r, m)"
    and count: "count_votes ex_env (t + 1) ex_cfg {|i|} [(p, Inr r)] n1 = n2" "fits toy_codec n2"
  shows "\<exists>w'. ex_steps w w' \<and> rw_nodes w' = (rw_nodes w)(i := n2, p := m) \<and> rw_inflight w' = (rw_inflight w)(i := None)"
proof -
  note S = view_start [OF v(1) start]
  have vt: "vr_term req = t + 1" "vr_candidate req = i" using S by simp_all
  have c1: "rn_cluster n1 = ex_cfg" using S by (simp add: view_def)
  let ?w1 = "(set_node w i n1)\<lparr>rw_requests := insert req (rw_requests w), rw_inflight := (rw_inflight w)(i := Some (vr_term req))\<rparr>"
  have 1: "elect_step toy_codec ex_nodes w ?w1"
    using v(1,2) idle start S fits_view [of n1] by (intro e_start [of _ _ ex_env]) (auto simp: view_def)
  let ?w2 = "(set_node ?w1 p m)\<lparr>rw_responses := insert (req, p, r) (rw_responses ?w1)\<rparr>"
  have 2: "elect_step toy_codec ex_nodes ?w1 ?w2"
    using v(3,4) vote vt by (intro e_vote [of _ _ ex_env]) simp_all
  let ?w3 = "(set_node ?w2 i n2)\<lparr>rw_inflight := (rw_inflight ?w2)(i := None),
      rw_won := (if rn_state n2 = Leader then insert (t + 1, i) (rw_won ?w2) else rw_won ?w2)\<rparr>"
  have 3: "elect_step toy_codec ex_nodes ?w2 ?w3"
    using v(2,4) vt c1 count by (intro e_count [where env = ex_env and rs = "[(p, Inr r)]"]) (auto simp: result_ok_def)
  have "ex_steps w ?w3" using 1 2 3 by (meson converse_rtranclp_into_rtranclp r_into_rtranclp)
  moreover have "rw_nodes ?w3 = (rw_nodes w)(i := n2, p := m)" using v(4) by (simp add: fun_upd_twist)
  ultimately show ?thesis by (intro exI [of _ ?w3]) simp
qed

text \<open>The peer's log is empty and its vote free: the node becomes leader.\<close>

lemma ex_win:
  assumes v: "view (rw_nodes w i) = (i, ex_cfg, t, v, log, st, None)" "i |\<in>| ex_nodes" "p |\<in>| ex_nodes" "p \<noteq> i"
    and new: "li = (if log = [] then 0 else e_index (last log))" "log' = log @ [entry_new (t + 1) (li + 1) Noop]" "t' = t + 1"
    and idle: "rw_inflight w i = None" "st \<noteq> Leader" "t + 1 < 2 ^ 64" "list_all (\<lambda>e. record_ok toy_codec (WalEntry e)) log'"
    and peer: "view (rw_nodes w p) = (p, ex_cfg, tp, vp, [], stp, None)" "tp < t + 1 \<or> (tp = t + 1 \<and> vp = None)"
    and q: "has_quorum ex_cfg {|p, i|}"
  shows "\<exists>w' n m. ex_steps w w' \<and> rw_nodes w' = (rw_nodes w)(i := n, p := m) \<and> rw_inflight w' = (rw_inflight w)(i := None) \<and>
    view n = (i, ex_cfg, t', Some i, log', Leader, None) \<and>
    rn_leader_state n = Some (ls_new (voting_members ex_cfg |-| {|i|}) li) \<and>
    (\<exists>st'. view m = (p, ex_cfg, t', Some i, [], st', None))"
proof -
  obtain n1 req where start: "start_election ex_env (rw_nodes w i) = (n1, req)" by fastforce
  obtain r m where vote: "handle_request_vote ex_env req (rw_nodes w p) = (r, m)" by fastforce
  note S = view_start [OF v(1) start]
  have rt: "vr_term req = t + 1" "vr_candidate req = i" "vr_last_log_term req > 0 \<or> vr_last_log_term req = 0" using S by auto
  have m: "r = \<lparr>vs_term = t + 1, vs_granted = True\<rparr> \<and> (\<exists>st'. view m = (p, ex_cfg, t + 1, Some i, [], st', None))"
  proof (cases "tp < t + 1")
    case True
    with view_vote_new_term [OF peer(1) vote] rt show ?thesis by (auto simp: Let_def)
  next
    case False
    with peer have "view (rw_nodes w p) = (p, ex_cfg, t + 1, None, [], stp, None)" by auto
    from view_vote_same_term [OF this vote] rt show ?thesis by auto
  qed
  define n where "n = count_votes ex_env (t + 1) ex_cfg {|i|} [(p, Inr r)] n1"
  have "view n1 = (i, ex_cfg, t + 1, Some i, log, Candidate, None)" using S by blast
  note W = view_win [OF this q, of n ex_env]
  have ncount: "n = count_votes ex_env (t + 1) ex_cfg {|i|} [(p, Inr \<lparr>vs_term = t + 1, vs_granted = True\<rparr>)] n1"
    using m by (simp add: n_def)
  have "fits toy_codec n" using fits_view [OF W(1) [OF ncount] idle(3)] idle(4) new by simp
  moreover have "list_all (\<lambda>e. record_ok toy_codec (WalEntry e)) log" using idle(4) new by simp
  ultimately obtain w' where "ex_steps w w'" "rw_nodes w' = (rw_nodes w)(i := n, p := m)" "rw_inflight w' = (rw_inflight w)(i := None)"
    using ex_round [OF v idle(1,2,3) _ start vote n_def [symmetric]] by blast
  with W(1,2) [OF ncount] m show ?thesis unfolding new by blast
qed

text \<open>The node's log is empty and the peer's is not: the node stays a candidate.\<close>

lemma ex_lose:
  assumes v: "view (rw_nodes w i) = (i, ex_cfg, t, v, [], st, None)" "i |\<in>| ex_nodes" "p |\<in>| ex_nodes" "p \<noteq> i"
    and idle: "rw_inflight w i = None" "st \<noteq> Leader" "t + 1 < 2 ^ 64"
    and peer: "view (rw_nodes w p) = (p, ex_cfg, tp, vp, logp, stp, None)" "tp \<le> t + 1" "logp \<noteq> []" "0 < e_term (last logp)"
  shows "\<exists>w' n m. ex_steps w w' \<and> rw_nodes w' = (rw_nodes w)(i := n, p := m) \<and> rw_inflight w' = (rw_inflight w)(i := None) \<and>
    view n = (i, ex_cfg, t + 1, Some i, [], Candidate, None) \<and>
    view m = (if tp < t + 1 then (p, ex_cfg, t + 1, None, logp, Follower, None) else view (rw_nodes w p))"
proof -
  obtain n1 req where start: "start_election ex_env (rw_nodes w i) = (n1, req)" by fastforce
  obtain r m where vote: "handle_request_vote ex_env req (rw_nodes w p) = (r, m)" by fastforce
  note S = view_start [OF v(1) start]
  have rt: "vr_term req = t + 1" "vr_last_log_term req = 0" using S by auto
  have m: "\<not> vs_granted r \<and> vs_term r = t + 1 \<and>
      view m = (if tp < t + 1 then (p, ex_cfg, t + 1, None, logp, Follower, None) else view (rw_nodes w p))"
  proof (cases "tp < t + 1")
    case True
    with view_vote_new_term [OF peer(1) vote] rt peer(3,4) show ?thesis by (simp add: Let_def)
  next
    case False
    with vote rt peer show ?thesis by (auto simp: view_def handle_request_vote_def Let_def last_log_term_def)
  qed
  have v1: "view n1 = (i, ex_cfg, t + 1, Some i, [], Candidate, None)" using S by blast
  then have count: "count_votes ex_env (t + 1) ex_cfg {|i|} [(p, Inr r)] n1 = n1" using m by (simp add: view_def)
  have "fits toy_codec n1" using fits_view [OF v1 idle(3)] by simp
  then obtain w' where "ex_steps w w'" "rw_nodes w' = (rw_nodes w)(i := n1, p := m)" "rw_inflight w' = (rw_inflight w)(i := None)"
    using ex_round [OF v idle _ start vote count] by auto
  with v1 m show ?thesis by blast
qed

lemma elect_reachable_steps: "(elect_step c N)\<^sup>*\<^sup>* w w' \<Longrightarrow> elect_reachable c N w0 w \<Longrightarrow> elect_reachable c N w0 w'"
  by (induction rule: rtranclp_induct) (auto intro: el_step)

lemma raft_reachable_steps: "(elect_step c N)\<^sup>*\<^sup>* w w' \<Longrightarrow> raft_reachable c N w0 w \<Longrightarrow> raft_reachable c N w0 w'"
  by (induction rule: rtranclp_induct) (auto intro: ra_step r_elect)

lemma ex_init_nodes: "rw_nodes ex_init ''a'' = n_a" "rw_nodes ex_init ''b'' = n_b" "rw_nodes ex_init ''c'' = n_c"
  "rw_inflight ex_init i = None"
  by (simp_all add: n_a_def n_b_def n_c_def) (simp add: ex_init_def raft_init_def)

text \<open>In its first election \<open>a\<close> wins with the vote of \<open>b\<close>.\<close>

lemma ex_first_leader:
  "\<exists>w. ex_steps ex_init w \<and> view (rw_nodes w ''a'') = (''a'', ex_cfg, 1, Some ''a'', [entry_new 1 1 Noop], Leader, None) \<and>
    rn_leader_state (rw_nodes w ''a'') = Some (ls_new {|''b'', ''c''|} 0) \<and>
    (\<exists>st. view (rw_nodes w ''b'') = (''b'', ex_cfg, 1, Some ''a'', [], st, None)) \<and>
    rw_nodes w ''c'' = n_c \<and> rw_inflight w = (\<lambda>i. None)"
proof -
  have "\<exists>w' n m. ex_steps ex_init w' \<and> rw_nodes w' = (rw_nodes ex_init)(''a'' := n, ''b'' := m) \<and>
    rw_inflight w' = (rw_inflight ex_init)(''a'' := None) \<and>
    view n = (''a'', ex_cfg, 1, Some ''a'', [entry_new 1 1 Noop], Leader, None) \<and>
    rn_leader_state n = Some (ls_new (voting_members ex_cfg |-| {|''a''|}) 0) \<and>
    (\<exists>st'. view m = (''b'', ex_cfg, 1, Some ''a'', [], st', None))"
    by (rule ex_win [where log = "[]" and t = 0 and st = Follower and stp = Follower and v = None and vp = None and tp = 0])
      (use ex_views ex_init_nodes ex_quorums ex_entries_ok in simp_all)
  then obtain w n m where "ex_steps ex_init w" "rw_nodes w = (rw_nodes ex_init)(''a'' := n, ''b'' := m)"
    "rw_inflight w = (rw_inflight ex_init)(''a'' := None)"
    "view n = (''a'', ex_cfg, 1, Some ''a'', [entry_new 1 1 Noop], Leader, None)"
    "rn_leader_state n = Some (ls_new {|''b'', ''c''|} 0)"
    "\<exists>st'. view m = (''b'', ex_cfg, 1, Some ''a'', [], st', None)" unfolding ex_quorums(3) by blast
  then show ?thesis using ex_init_nodes by (intro exI [of _ w]) (auto simp: fun_eq_iff)
qed

text \<open>Then \<open>c\<close> stands twice without success and deposes \<open>a\<close> by its higher term; \<open>a\<close> wins again, in term 3.\<close>

lemma ex_second_leader:
  "\<exists>w st. ex_steps ex_init w \<and>
    view (rw_nodes w ''a'') = (''a'', ex_cfg, 3, Some ''a'', [entry_new 1 1 Noop, entry_new 3 2 Noop], Leader, None) \<and>
    rn_leader_state (rw_nodes w ''a'') = Some (ls_new {|''b'', ''c''|} 1) \<and>
    view (rw_nodes w ''b'') = (''b'', ex_cfg, 3, Some ''a'', [], st, None) \<and>
    view (rw_nodes w ''c'') = (''c'', ex_cfg, 2, Some ''c'', [], Candidate, None) \<and> rw_inflight w = (\<lambda>i. None)"
proof -
  obtain w1 stb where 1: "ex_steps ex_init w1"
      "view (rw_nodes w1 ''a'') = (''a'', ex_cfg, 1, Some ''a'', [entry_new 1 1 Noop], Leader, None)"
      "view (rw_nodes w1 ''b'') = (''b'', ex_cfg, 1, Some ''a'', [], stb, None)"
      "rw_nodes w1 ''c'' = n_c" "rw_inflight w1 = (\<lambda>i. None)" using ex_first_leader by blast
  have "\<exists>w' n m. ex_steps w1 w' \<and> rw_nodes w' = (rw_nodes w1)(''c'' := n, ''a'' := m) \<and>
      rw_inflight w' = (rw_inflight w1)(''c'' := None) \<and> view n = (''c'', ex_cfg, 0 + 1, Some ''c'', [], Candidate, None) \<and>
      view m = (if (1 :: nat) < 0 + 1 then (''a'', ex_cfg, 0 + 1, None, [entry_new 1 1 Noop], Follower, None) else view (rw_nodes w1 ''a''))"
    by (rule ex_lose [where st = Follower and v = None]) (use 1 ex_views in \<open>simp_all add: entry_new_def\<close>)
  then obtain w2 where 2: "ex_steps w1 w2" "view (rw_nodes w2 ''a'') = (''a'', ex_cfg, 1, Some ''a'', [entry_new 1 1 Noop], Leader, None)"
      "view (rw_nodes w2 ''b'') = (''b'', ex_cfg, 1, Some ''a'', [], stb, None)"
      "view (rw_nodes w2 ''c'') = (''c'', ex_cfg, 1, Some ''c'', [], Candidate, None)" "rw_inflight w2 = (\<lambda>i. None)"
    using 1 by (auto simp: fun_eq_iff)
  have "\<exists>w' n m. ex_steps w2 w' \<and> rw_nodes w' = (rw_nodes w2)(''c'' := n, ''a'' := m) \<and>
      rw_inflight w' = (rw_inflight w2)(''c'' := None) \<and> view n = (''c'', ex_cfg, 1 + 1, Some ''c'', [], Candidate, None) \<and>
      view m = (if (1 :: nat) < 1 + 1 then (''a'', ex_cfg, 1 + 1, None, [entry_new 1 1 Noop], Follower, None) else view (rw_nodes w2 ''a''))"
    by (rule ex_lose [where st = Candidate and v = "Some ''c''"]) (use 2 in \<open>simp_all add: entry_new_def\<close>)
  then obtain w3 where 3: "ex_steps w2 w3" "view (rw_nodes w3 ''a'') = (''a'', ex_cfg, 2, None, [entry_new 1 1 Noop], Follower, None)"
      "view (rw_nodes w3 ''b'') = (''b'', ex_cfg, 1, Some ''a'', [], stb, None)"
      "view (rw_nodes w3 ''c'') = (''c'', ex_cfg, 2, Some ''c'', [], Candidate, None)" "rw_inflight w3 = (\<lambda>i. None)"
    using 2 by (auto simp: fun_eq_iff numeral_2_eq_2)
  have "\<exists>w' n m. ex_steps w3 w' \<and> rw_nodes w' = (rw_nodes w3)(''a'' := n, ''b'' := m) \<and>
      rw_inflight w' = (rw_inflight w3)(''a'' := None) \<and>
      view n = (''a'', ex_cfg, 3, Some ''a'', [entry_new 1 1 Noop, entry_new 3 2 Noop], Leader, None) \<and>
      rn_leader_state n = Some (ls_new (voting_members ex_cfg |-| {|''a''|}) 1) \<and>
      (\<exists>st'. view m = (''b'', ex_cfg, 3, Some ''a'', [], st', None))"
    by (rule ex_win [where log = "[entry_new 1 1 Noop]" and t = 2 and st = Follower and v = None and tp = 1 and vp = "Some ''a''" and stp = stb])
      (use 3 ex_quorums ex_entries_ok in \<open>simp_all add: entry_new_def del: One_nat_def\<close>)
  then obtain w4 st where 4: "ex_steps w3 w4"
      "view (rw_nodes w4 ''a'') = (''a'', ex_cfg, 3, Some ''a'', [entry_new 1 1 Noop, entry_new 3 2 Noop], Leader, None)"
      "rn_leader_state (rw_nodes w4 ''a'') = Some (ls_new {|''b'', ''c''|} 1)"
      "view (rw_nodes w4 ''b'') = (''b'', ex_cfg, 3, Some ''a'', [], st, None)"
      "view (rw_nodes w4 ''c'') = (''c'', ex_cfg, 2, Some ''c'', [], Candidate, None)" "rw_inflight w4 = (\<lambda>i. None)"
    using 3 unfolding ex_quorums(3) by (auto simp: fun_eq_iff)
  have "ex_steps ex_init w4" using 1(1) 2(1) 3(1) 4(1) by (meson rtranclp_trans)
  with 4 show ?thesis by blast
qed

section \<open>Elections\<close>

text \<open>
  C3: Election safety. Whatever messages are lost, delayed, repeated or reordered, and whenever nodes with a
  data directory crash and restart: no two nodes win an election in the same term, every leader has won
  the election of its term, and so no two nodes are leader in the same term. (No heartbeat is delivered
  in these runs; the next property shows why that matters.)
\<close>
theorem raft_election_safety:
  assumes "elect_reachable (env_codec env) N (raft_init env cfg sms disk) w"
    and "\<forall>i. i |\<in>| N \<longrightarrow> record_ok (env_codec env) (WalMeta 0 (Some i))" "\<forall>bs. crc32 (env_codec env) bs < 2 ^ 32"
    and "a |\<in>| N" "b |\<in>| N"
  shows "((t, a) \<in> rw_won w \<longrightarrow> (t, b) \<in> rw_won w \<longrightarrow> a = b)
    \<and> (is_leader (rw_nodes w a) \<longrightarrow> (rn_term (rw_nodes w a), a) \<in> rw_won w)
    \<and> (is_leader (rw_nodes w a) \<longrightarrow> is_leader (rw_nodes w b) \<longrightarrow> rn_term (rw_nodes w a) = rn_term (rw_nodes w b) \<longrightarrow> a = b)"
proof -
  have ok: "elect_ok (env_codec env) N cfg w" by (rule elect_reachable_ok [OF assms(1-3)])
  have once: "x = y" if "(t', x) \<in> rw_won w" "(t', y) \<in> rw_won w" for t' x y
    using elect_okD(7) [OF ok that(1)] elect_okD(7) [OF ok that(2)] elect_okD(5) [OF ok]
      cluster.single_winner [where granted = "\<lambda>j. granted_to w j t'"] by metis
  show ?thesis using once elect_okD(8) [OF ok assms(4)] elect_okD(8) [OF ok assms(5)] by metis
qed

lemma ex_codec: "\<forall>i. i |\<in>| ex_nodes \<longrightarrow> record_ok (env_codec ex_env) (WalMeta 0 (Some i))"
    "\<forall>bs. crc32 (env_codec ex_env) bs < 2 ^ 32"
  using ex_ids_ok toy_codec_facts(1) by simp_all

theorem raft_election_safety_witness:
  "\<exists>w. is_leader (rw_nodes w ''a'') \<and> (1, ''a'') \<in> rw_won (w :: unit raft_world) \<and> (1, ''b'') \<notin> rw_won w"
proof -
  obtain w where w: "ex_steps ex_init w" "view (rw_nodes w ''a'') = (''a'', ex_cfg, 1, Some ''a'', [entry_new 1 1 Noop], Leader, None)"
    using ex_first_leader by blast
  have r: "elect_reachable (env_codec ex_env) ex_nodes (raft_init ex_env ex_cfg (\<lambda>i. ()) (\<lambda>i. False)) w"
    using elect_reachable_steps [OF w(1) el_init] by (simp add: ex_init_def)
  have "is_leader (rw_nodes w ''a'')" "rn_term (rw_nodes w ''a'') = 1" using w(2) by (simp_all add: view_def)
  with raft_election_safety [OF r ex_codec, of "''a''" "''b''" 1] show ?thesis by (intro exI [of _ w]) auto
qed

text \<open>
  C25: Two leaders in one term. As soon as a heartbeat can be delivered the property above fails: in a cluster of three
  there is a run in which \<open>a\<close> and \<open>c\<close> are both leader in term 3. The handler of \<open>AppendEntries\<close> clears
  the vote also when the request is from the current term, so \<open>b\<close> votes for both.
\<close>
theorem raft_two_leaders_in_one_term:
  "\<exists>w. raft_reachable toy_codec ex_nodes ex_init w \<and> is_leader (rw_nodes w ''a'') \<and> is_leader (rw_nodes w ''c'') \<and>
     rn_term (rw_nodes w ''a'') = 3 \<and> rn_term (rw_nodes w ''c'') = 3"
proof -
  obtain w st where w: "ex_steps ex_init w"
      "view (rw_nodes w ''a'') = (''a'', ex_cfg, 3, Some ''a'', [entry_new 1 1 Noop, entry_new 3 2 Noop], Leader, None)"
      "rn_leader_state (rw_nodes w ''a'') = Some (ls_new {|''b'', ''c''|} 1)"
      "view (rw_nodes w ''b'') = (''b'', ex_cfg, 3, Some ''a'', [], st, None)"
      "view (rw_nodes w ''c'') = (''c'', ex_cfg, 2, Some ''c'', [], Candidate, None)" "rw_inflight w = (\<lambda>i. None)"
    using ex_second_leader by blast
  let ?a = "rw_nodes w ''a''" and ?l = "ls_new {|''b'', ''c''|} 1"
  have a: "rn_term ?a = 3" "rlog (rn_ps ?a) = [entry_new 1 1 Noop, entry_new 3 2 Noop]" "is_leader ?a"
    using w(2) by (simp_all add: view_def)
  have next2: "fm_get 1 (next_index ?l) ''b'' = 2" using ls_new_next [of "''b''" "{|''b'', ''c''|}" 1] by simp
  have log: "numbered 1 (rlog (rn_ps ?a))" "length (rlog (rn_ps ?a)) = 2" by (simp_all add: a(2) entry_new_def)
  obtain req where req: "heartbeat_request ?a ?l ''b'' = Some req"
    using next2 last_log_index_numbered [OF log(1)] log(2)
    by (cases "heartbeat_request ?a ?l ''b''") (auto simp: heartbeat_request_def Let_def get_entries_def split: if_splits)
  have rq: "ar_term req = 3" "ar_prev_log_index req = 1"
    using heartbeat_slice(1,5) [OF req log(1)] next2 log(2) a(1) by simp_all
  obtain r m where h: "handle_append_entries ex_env req (rw_nodes w ''b'') = (r, m)" by fastforce
  have m: "view m = (''b'', ex_cfg, 3, None, [], Follower, None)" by (rule view_append_short [OF w(4) rq(1) _ h]) (simp add: rq(2))
  let ?w = "set_node w ''b'' m"
  have step: "raft_step toy_codec ex_nodes w ?w"
    by (rule r_append [where env = ex_env, OF _ _ _ _ a(3) w(3) req h]) simp_all
  have "\<exists>w' n m'. ex_steps ?w w' \<and> rw_nodes w' = (rw_nodes ?w)(''c'' := n, ''b'' := m') \<and>
      rw_inflight w' = (rw_inflight ?w)(''c'' := None) \<and>
      view n = (''c'', ex_cfg, 3, Some ''c'', [entry_new 3 1 Noop], Leader, None) \<and>
      rn_leader_state n = Some (ls_new (voting_members ex_cfg |-| {|''c''|}) 0) \<and>
      (\<exists>st'. view m' = (''b'', ex_cfg, 3, Some ''c'', [], st', None))"
    by (rule ex_win [where log = "[]" and t = 2 and st = Candidate and v = "Some ''c''" and tp = 3 and vp = None and stp = Follower])
      (use w m ex_quorums ex_entries_ok in \<open>simp_all add: entry_new_def del: One_nat_def\<close>)
  then obtain w' n m' where w': "ex_steps ?w w'" "rw_nodes w' = (rw_nodes ?w)(''c'' := n, ''b'' := m')"
    "view n = (''c'', ex_cfg, 3, Some ''c'', [entry_new 3 1 Noop], Leader, None)" by blast
  have "raft_reachable toy_codec ex_nodes ex_init w'"
    using raft_reachable_steps [OF w'(1) ra_step [OF raft_reachable_steps [OF w(1) ra_init] step]] .
  moreover have "rw_nodes w' ''a'' = ?a" "rw_nodes w' ''c'' = n" using w'(2) by simp_all
  ultimately show ?thesis using a w'(3) by (intro exI [of _ w']) (simp add: view_def)
qed

section \<open>Durability\<close>

text \<open>
  C10: What a node acts on is on disk. In every state of an election run, replaying the disk of a node
  that has one gives exactly its current term, its vote and its log, so a restart loses nothing.
\<close>
theorem raft_restart_restores_state:
  assumes "elect_reachable (env_codec env) N (raft_init env cfg sms disk) w"
    and "\<forall>i. i |\<in>| N \<longrightarrow> record_ok (env_codec env) (WalMeta 0 (Some i))" "\<forall>bs. crc32 (env_codec env) bs < 2 ^ 32"
    and "i |\<in>| N" "rn_wal (rw_nodes w i) = Some d"
  shows "wal_recover (env_codec env) d = Inr (rn_ps (rw_nodes w i))"
proof -
  have "node_ok (env_codec env) N cfg i (rw_nodes w i)" by (rule elect_okD(1) [OF elect_reachable_ok [OF assms(1-3)] assms(4)])
  from disk_ok_recover [OF assms(3) node_okD(3) [OF this] assms(5)] show ?thesis .
qed

theorem raft_restart_restores_state_witness:
  "\<exists>w d. rn_wal (rw_nodes w ''a'') = Some d \<and> wal_recover toy_codec d = Inr (rn_ps (rw_nodes (w :: unit raft_world) ''a'')) \<and>
     rn_term (rw_nodes w ''a'') = 1"
proof -
  let ?i = "raft_init ex_env ex_cfg (\<lambda>i. ()) (\<lambda>i. True)"
  let ?n0 = "rw_nodes ?i ''a''"
  obtain n req where st: "start_election ex_env ?n0 = (n, req)" by fastforce
  then have n: "n = become_candidate ex_env ?n0" by (auto simp: start_election_def Let_def)
  have "wal_recover toy_codec (wal_open None []) = Inr ps_new"
    by (simp add: wal_recover_def wal_open_def load_from_dir_def recover_loop.simps)
  then have n0: "rn_ps ?n0 = ps_new" "rn_id ?n0 = ''a''" "rn_state ?n0 = Follower" "rn_wal ?n0 = Some (wal_open None [])"
    by (simp_all add: raft_init_def node_new_def Let_def raft_config_new_def wal_open_def)
  have t: "rn_term n = 1" "rlog (rn_ps n) = []" using n0 by (simp_all add: candidate_facts [OF n] ps_new_def)
  let ?w = "(set_node ?i ''a'' n)\<lparr>rw_requests := insert req (rw_requests ?i), rw_inflight := (rw_inflight ?i)(''a'' := Some (vr_term req))\<rparr>"
  have "elect_step toy_codec ex_nodes ?i ?w"
    using st n0(3) t by (intro e_start [where env = ex_env]) (simp_all add: fits_def, simp add: raft_init_def)
  then have r: "elect_reachable (env_codec ex_env) ex_nodes ?i ?w" using el_step [OF el_init] by simp
  obtain d where "rn_wal n = Some d" using n0(4) by (simp add: n become_candidate_def Let_def persist_meta_sync_def)
  with raft_restart_restores_state [OF r ex_codec, of "''a''" d] t show ?thesis by (intro exI [of _ ?w] exI [of _ d]) simp
qed

section \<open>Replication\<close>

text \<open>
  C7: \<open>AppendEntries\<close> merges. On a node whose log is numbered from 1, a successful request whose entries are
  numbered from the one after \<open>prev_log_index\<close> leaves the log up to there as it was, and merges
  the entries behind it: equal terms keep the existing entry, the first conflict replaces everything
  from it on, and entries beyond the end are appended. The log stays numbered; a refused request changes no entry.
\<close>
theorem raft_append_is_merge:
  assumes "handle_append_entries env req n = (r, n')" "numbered 1 (rlog (rn_ps n))"
    and "numbered (Suc (ar_prev_log_index req)) (ar_entries req)"
  shows "if as_success r
    then rlog (rn_ps n') = take (ar_prev_log_index req) (rlog (rn_ps n)) @
           merge_log (drop (ar_prev_log_index req) (rlog (rn_ps n))) (ar_entries req) \<and> numbered 1 (rlog (rn_ps n'))
    else rlog (rn_ps n') = rlog (rn_ps n)"
proof (cases "as_success r")
  case True
  note M = append_merges [OF assms(1) True assms(2,3)]
  have "numbered (1 + ar_prev_log_index req) (drop (ar_prev_log_index req) (rlog (rn_ps n)))"
    by (rule numbered_drop [OF assms(2) M(2)])
  then have "numbered 1 (rlog (rn_ps n'))"
    using M assms(2,3) by (simp add: numbered_take numbered_merge min_absorb2)
  with M(1) True show ?thesis by simp
qed (simp add: append_reject_facts [OF assms(1)])

definition ex_append :: append_request where
  "ex_append = \<lparr>ar_term = 2, ar_leader = ''a'', ar_prev_log_index = 0, ar_prev_log_term = 0,
     ar_entries = [entry_new 2 1 Noop], ar_leader_commit = 0\<rparr>"

theorem raft_append_is_merge_witness:
  "rlog (rn_ps (snd (handle_append_entries ex_env ex_append n_b))) = [entry_new 2 1 Noop]"
proof -
  obtain r n' where h: "handle_append_entries ex_env ex_append n_b = (r, n')" by fastforce
  have log: "rlog (rn_ps n_b) = []" "rn_term n_b = 0" using ex_views(2) by (simp_all add: view_def)
  have "as_success r" using h log by (auto simp: handle_append_entries_def ex_append_def Let_def split: prod.splits if_splits)
  with raft_append_is_merge [OF h] log have "rlog (rn_ps n') = [entry_new 2 1 Noop]" by (simp add: ex_append_def entry_new_def)
  then show ?thesis by (simp add: h)
qed



text \<open>
  C11: The commit rule. A leader's commit index never goes back; it becomes the largest index of its log that
  is of the current term and that, by the match indices, a quorum of the configuration holds (the leader included),
  or stays where it was if there is none above it.
\<close>
theorem raft_commit_rule:
  assumes "rn_leader_state n = Some l"
  shows "commit_index (maybe_advance_commit_index n) = Max (insert (commit_index n)
    {i. commit_index n < i \<and> i \<le> last_log_index (rn_ps n) \<and> get_term (rn_ps n) i = Some (rn_term n) \<and>
        has_quorum (rn_cluster n) (finsert (rn_id n)
          (ffilter (\<lambda>j. fm_get 0 (match_index l) j \<ge> i) (fmdom (match_index l))))})"
proof -
  have "replicated_on n l i = finsert (rn_id n) (ffilter (\<lambda>j. fm_get 0 (match_index l) j \<ge> i) (fmdom (match_index l)))" for i
    by (simp add: replicated_on_def)
  moreover have "{i \<in> {commit_index n + 1 .. last_log_index (rn_ps n)}. committable n l i} =
      {i. commit_index n < i \<and> i \<le> last_log_index (rn_ps n) \<and> committable n l i}" by auto
  ultimately show ?thesis by (simp add: advance_rule [OF assms] committable_def)
qed

definition ex_leader :: "unit raft_node" where
  "ex_leader = n_a\<lparr>rn_state := Leader, rn_ps := \<lparr>current_term = 1, voted_for = None, rlog = [entry_new 1 1 Noop]\<rparr>,
     rn_leader_state := Some \<lparr>next_index = fmempty, match_index = fmap_of_list [(''b'', 1), (''c'', 0)]\<rparr>\<rparr>"

theorem raft_commit_rule_witness: "commit_index (maybe_advance_commit_index ex_leader) = 1"
proof -
  let ?l = "\<lparr>next_index = fmempty, match_index = fmap_of_list [(''b'', 1), (''c'', 0)]\<rparr> :: leader_state"
  have l: "rn_leader_state ex_leader = Some ?l" by (simp add: ex_leader_def)
  have f: "commit_index ex_leader = 0" "last_log_index (rn_ps ex_leader) = 1" "rn_id ex_leader = ''a''"
      "rn_cluster ex_leader = ex_cfg" "rn_term ex_leader = 1" "get_term (rn_ps ex_leader) 1 = Some 1"
    by (simp_all add: ex_leader_def last_log_index_def get_term_def get_entry_def entry_new_def n_a_def ex_init_def
        raft_init_def node_new_def raft_config_new_def Let_def)
  have m: "fmdom (match_index ?l) = {|''b'', ''c''|}" "fm_get 0 (match_index ?l) ''b'' = 1" "fm_get 0 (match_index ?l) ''c'' = 0"
    by (auto simp: fm_get_def fmlookup_of_list fset_eq_iff)
  let ?P = "\<lambda>i. get_term (rn_ps ex_leader) i = Some 1 \<and>
      has_quorum ex_cfg (finsert ''a'' (ffilter (\<lambda>j. fm_get 0 (match_index ?l) j \<ge> i) (fmdom (match_index ?l))))"
  have "ffilter (\<lambda>j. fm_get 0 (match_index ?l) j \<ge> 1) (fmdom (match_index ?l)) = {|''b''|}" unfolding m(1) using m(2,3) by auto
  moreover have "has_quorum ex_cfg {|''a'', ''b''|}" using ex_quorums(1) by (simp add: finsert_commute)
  ultimately have q: "?P 1" using f(6) by (simp only: simp_thms)
  have one: "{i :: nat. 0 < i \<and> i \<le> 1 \<and> P i} = {1}" if "P 1" for P using that by (auto simp: le_Suc_eq)
  show ?thesis unfolding raft_commit_rule [OF l] unfolding f one [of ?P, OF q] by simp
qed

section \<open>Membership\<close>

text \<open>
  C26: Membership changes keep quorums overlapping. The configuration that \<open>add_node\<close> or \<open>remove_node\<close> appends
  to the leader's log is joint: each of its quorums meets every quorum of the configuration in force, every
  quorum of the configuration that follows it, and every other quorum of its own; and that next
  configuration has a member.
\<close>
theorem raft_membership_change_safe:
  assumes "add_node env i n = (Inr k, n') \<or> remove_node env i n = (Inr k, n')"
  shows "\<exists>j new. e_command (last (rlog (rn_ps n'))) = ConfigChange j \<and> new_members j = Some new \<and> new \<noteq> {||} \<and>
    (\<forall>Q R. has_quorum j Q \<longrightarrow>
       (has_quorum (rn_cluster n) R \<or> has_quorum j R \<or> has_quorum \<lparr>members = new, new_members = None, config_index = k + 1\<rparr> R) \<longrightarrow>
       (\<exists>x. x |\<in>| Q \<and> x |\<in>| R))"
proof -
  let ?j = "\<lambda>new. \<lparr>members = members (rn_cluster n), new_members = Some new, config_index = last_log_index (rn_ps n) + 1\<rparr>"
  have "propose env (ConfigChange (?j (finsert i (members (rn_cluster n))))) n = (Inr k, n') \<or>
      (propose env (ConfigChange (?j (members (rn_cluster n) |-| {|i|}))) n = (Inr k, n') \<and> members (rn_cluster n) |-| {|i|} \<noteq> {||})"
    using assms unfolding add_node_def remove_node_def Let_def by (elim disjE) (simp_all split: if_splits)
  then obtain new where p': "propose env (ConfigChange (?j new)) n = (Inr k, n')" "new \<noteq> {||}" by blast
  define j where "j = ?j new"
  have p: "propose env (ConfigChange j) n = (Inr k, n')"
      and j: "members j = members (rn_cluster n)" "new_members j = Some new" "new \<noteq> {||}"
    using p' by (simp_all add: j_def)
  obtain k' where "propose_internal env (ConfigChange j) n = (k', n')"
    using p unfolding propose_def by (cases "is_leader n"; cases "propose_internal env (ConfigChange j) n") auto
  from propose_internal_facts(1) [OF this] have "e_command (last (rlog (rn_ps n'))) = ConfigChange j" by (simp add: entry_new_def)
  moreover have "\<exists>x. x |\<in>| Q \<and> x |\<in>| R" if "has_quorum j Q"
    "has_quorum (rn_cluster n) R \<or> has_quorum j R \<or> has_quorum \<lparr>members = new, new_members = None, config_index = k + 1\<rparr> R" for Q R
    using that(2) cluster.intersect [OF that(1), of R] j(2)
      joint_quorum_intersects [OF that(1), of "rn_cluster n" R] j(1)
      joint_quorum_intersects [OF that(1), of "\<lparr>members = new, new_members = None, config_index = k + 1\<rparr>" R] by auto
  ultimately show ?thesis using j(2,3) by blast
qed

theorem raft_membership_change_safe_witness:
  "\<exists>j. e_command (last (rlog (rn_ps (snd (add_node ex_env ''d'' ex_leader))))) = ConfigChange j \<and> new_members j \<noteq> None"
proof -
  have l: "is_leader ex_leader" "rn_cluster ex_leader = ex_cfg"
    by (simp_all add: ex_leader_def n_a_def ex_init_def raft_init_def node_new_def Let_def)
  obtain k n' where a: "add_node ex_env ''d'' ex_leader = (Inr k, n')"
    using l by (auto simp: add_node_def is_joint_def ex_cfg_def cc_new_def propose_def case_prod_beta)
  from raft_membership_change_safe [OF disjI1 [OF a]] show ?thesis by (auto simp: a)
qed

section \<open>Snapshots\<close>

text \<open>
  C28: A follower that has installed a snapshot accepts no further entry. Its log is one placeholder whose
  index is the snapshot's, but look-ups go by position: every request with \<open>prev_log_index\<close> at least 2 is
  refused with the conflict index after the snapshot, and the leader, whose next index is that already,
  keeps its bookkeeping and sends the same request again.
\<close>
theorem raft_snapshot_blocks_replication:
  assumes "handle_install_snapshot env sreq n0 = Some (sr, n)" "ir_done sreq" "is_success sr"
    and "take (length erasure_magic) (ir_data sreq) \<noteq> erasure_magic" "2 \<le> ir_last_index sreq"
    and "handle_append_entries env req n = (r, n')" "rn_term n \<le> ar_term req" "2 \<le> ar_prev_log_index req"
    and "fmlookup (next_index l) j = Some (ir_last_index sreq + 1)"
  shows "\<not> as_success r \<and> as_conflict_index r = Some (ir_last_index sreq + 1) \<and> rlog (rn_ps n') = rlog (rn_ps n)
    \<and> next_index (decrement_next l j (as_conflict_index r)) = next_index l"
proof -
  have log: "rlog (rn_ps n) = [entry_new (ir_last_term sreq) (ir_last_index sreq) Noop]"
    using assms(1-4) by (auto simp: handle_install_snapshot_def apply_snapshot_data_def Let_def split: if_splits sum.splits prod.splits)
  have r: "\<not> as_success r \<and> as_conflict_index r = Some (ir_last_index sreq + 1)"
    using assms(6-8) log by (auto simp: handle_append_entries_def Let_def append_reject_def become_follower_facts [OF refl]
        get_term_def get_entry_def last_log_index_def entry_new_def split: if_splits)
  have "fmupd j (ir_last_index sreq + 1) (next_index l) = next_index l"
    using assms(9) by (intro fmap_ext) auto
  then show ?thesis using r append_reject_facts [OF assms(6)] assms(9) by (simp add: decrement_next_def)
qed

definition ex_install :: install_request where
  "ex_install = \<lparr>ir_term = 1, ir_leader = ''a'', ir_last_index = 5, ir_last_term = 1, ir_offset = 0, ir_data = [],
     ir_done = True, ir_config = ex_cfg\<rparr>"

definition ex_next_append :: append_request where
  "ex_next_append = \<lparr>ar_term = 1, ar_leader = ''a'', ar_prev_log_index = 5, ar_prev_log_term = 1,
     ar_entries = [entry_new 1 6 Noop], ar_leader_commit = 5\<rparr>"

theorem raft_snapshot_blocks_replication_witness:
  "\<exists>sr n. handle_install_snapshot ex_env ex_install n_b = Some (sr, n) \<and>
     \<not> as_success (fst (handle_append_entries ex_env ex_next_append n))"
proof -
  have b: "rn_term n_b = 0" using ex_views(2) by (simp add: view_def)
  obtain sr n where s: "handle_install_snapshot ex_env ex_install n_b = Some (sr, n)" "is_success sr" "rn_term n = 1"
    using b by (simp add: handle_install_snapshot_def ex_install_def erasure_magic_def as_bytes_def Let_def
        apply_snapshot_data_def ex_env_def become_follower_facts [OF refl])
  obtain r n' where h: "handle_append_entries ex_env ex_next_append n = (r, n')" by fastforce
  have "\<not> as_success r"
    using raft_snapshot_blocks_replication [OF s(1) _ s(2) _ _ h,
        of "\<lparr>next_index = fmap_of_list [(''b'', 6)], match_index = fmempty\<rparr>" "''b''"] s(3)
    by (simp add: ex_install_def ex_next_append_def erasure_magic_def as_bytes_def fmlookup_of_list)
  then show ?thesis using s(1) h by auto
qed

lemma reindex_nil [simp]: "reindex a b es = [] \<longleftrightarrow> es = []"
  by (cases es) simp_all

lemma reindex_facts: "length (reindex a b es) = length es" "es \<noteq> [] \<Longrightarrow> e_index (last (reindex a b es)) = b + length es + a"
  by (induction a b es rule: reindex.induct) simp_all

lemma heartbeat_requests_None: "heartbeat_requests n l ps = None \<longleftrightarrow> (\<exists>p\<in>set ps. heartbeat_request n l p = None)"
  by (induction ps) (auto simp: bind_eq_None_conv)

text \<open>
  C29: When a leader panics after a snapshot. Let the leader's log have \<open>len\<close> entries, of which a snapshot compacts
  the \<open>k\<close> applied ones and leaves at least one. Then sending the next heartbeats panics exactly when some other voting
  member's next index is among the \<open>k - 1\<close> indices from \<open>len - k + 2\<close> to \<open>len\<close>: \<open>get_entries\<close> then slices the shortened log out of
  range. Members that are caught up (next index \<open>len + 1\<close>), or so far behind that their next index still fits the shortened log,
  cause no panic.
\<close>
theorem raft_compaction_heartbeat_panics:
  assumes "take_snapshot env n = (Inr snap, n')" "is_leader n" "rn_leader_state n = Some l"
    and "numbered 1 (rlog (rn_ps n))" "last_applied n < length (rlog (rn_ps n))" "0 < max_entries_per_rpc (rn_config n)"
  defines "len \<equiv> length (rlog (rn_ps n))" and "k \<equiv> last_applied n"
  shows "send_heartbeats env send n' = None \<longleftrightarrow>
    (\<exists>p. p |\<in>| voting_members (rn_cluster n) \<and> p \<noteq> rn_id n \<and>
      len - k + 1 < fm_get 1 (next_index l) p \<and> fm_get 1 (next_index l) p \<le> len)"
proof -
  have k: "0 < k" "k < len" using assms(1,5) by (auto simp: take_snapshot_def k_def len_def split: if_splits)
  have n': "rn_ps n' = compact_until (rn_ps n) k" "rn_state n' = Leader" "rn_leader_state n' = Some l"
      "rn_config n' = rn_config n" "rn_cluster n' = rn_cluster n" "rn_id n' = rn_id n"
    using assms(1-3) by (auto simp: take_snapshot_def Let_def persist_state_sync_def k_def split: if_splits option.splits)
  have log': "rlog (rn_ps n') = reindex k 0 (drop k (rlog (rn_ps n)))" using k by (simp add: n'(1) compact_until_def len_def)
  then have left: "length (rlog (rn_ps n')) = len - k" by (simp add: reindex_facts len_def)
  have last: "last_log_index (rn_ps n') = len"
    using k reindex_facts(2) [of "drop k (rlog (rn_ps n))" k 0] by (auto simp: last_log_index_def log' len_def)
  have "heartbeat_request n' l p = None \<longleftrightarrow> len - k + 1 < fm_get 1 (next_index l) p \<and> fm_get 1 (next_index l) p \<le> len" for p
    using assms(6) k unfolding heartbeat_request_def get_entries_def Let_def last left n'(4) by auto
  moreover have "set (peers_of n') = {p. p |\<in>| voting_members (rn_cluster n) \<and> p \<noteq> rn_id n}"
    by (auto simp: peers_of_def n')
  ultimately show ?thesis by (simp add: send_heartbeats_def n' heartbeat_requests_None)
qed

definition ex_snapshot_leader :: "unit raft_node" where
  "ex_snapshot_leader = n_a\<lparr>rn_state := Leader, last_applied := 2,
     rn_ps := \<lparr>current_term = 1, voted_for = None, rlog = [entry_new 1 1 Noop, entry_new 1 2 Noop, entry_new 1 3 Noop]\<rparr>,
     rn_leader_state := Some \<lparr>next_index = fmap_of_list [(''b'', 3), (''c'', 4)], match_index = fmempty\<rparr>\<rparr>"

theorem raft_compaction_heartbeat_panics_witness:
  "\<exists>snap n'. take_snapshot ex_env ex_snapshot_leader = (Inr snap, n') \<and> send_heartbeats ex_env (\<lambda>p r. Inl RaftTimeout) n' = None"
proof -
  let ?n = ex_snapshot_leader
  let ?l = "\<lparr>next_index = fmap_of_list [(''b'', 3), (''c'', 4)], match_index = fmempty\<rparr> :: leader_state"
  have n: "is_leader ?n" "rn_leader_state ?n = Some ?l" "last_applied ?n = 2" "rn_id ?n = ''a''" "rn_cluster ?n = ex_cfg"
      "max_entries_per_rpc (rn_config ?n) = 100" "numbered 1 (rlog (rn_ps ?n))" "length (rlog (rn_ps ?n)) = 3"
    by (simp_all add: ex_snapshot_leader_def n_a_def ex_init_def raft_init_def node_new_def raft_config_new_def entry_new_def Let_def)
  obtain snap n' where t: "take_snapshot ex_env ?n = (Inr snap, n')"
    using n(3,8) by (auto simp: take_snapshot_def get_term_def get_entry_def Let_def)
  have "''b'' |\<in>| voting_members (rn_cluster ?n)" by (simp add: n(5) ex_cfg_def cc_new_def voting_members_def)
  moreover have "fm_get 1 (next_index ?l) ''b'' = 3" by (simp add: fm_get_def fmlookup_of_list)
  ultimately have "send_heartbeats ex_env (\<lambda>p r. Inl RaftTimeout) n' = None"
    using raft_compaction_heartbeat_panics [OF t n(1,2,7), of "\<lambda>p r. Inl RaftTimeout"] n by (auto intro!: exI [of _ "''b''"])
  with t show ?thesis by blast
qed

section \<open>The write-ahead log\<close>

lemma take_le_enc: "m \<le> n \<Longrightarrow> take m (le_enc n x) = le_enc m x"
proof (induction n x arbitrary: m rule: le_enc.induct)
  case (2 n x)
  then show ?case by (cases m) auto
qed simp

lemma crc_replay:
  assumes "\<forall>bs. crc32 c bs < 2 ^ 32" "list_all (record_ok c) rs" "wal_file w = concat (map (encode_record c) rs)"
  shows "wal_recover c w = Inr (fold replay_record rs (load_from_dir (wal_json w)))"
  using recover_records [OF assms(1,2), of _ "[]"] assms(3) by (simp add: wal_recover_def recover_loop.simps)

lemma persist_wal_cong:
  "rn_ps a = rn_ps b \<Longrightarrow> rn_wal a = rn_wal b \<Longrightarrow> rn_wal (persist_state_sync env k a) = rn_wal (persist_state_sync env k b)"
  by (auto simp: persist_state_sync_def Let_def split: option.splits)

text \<open>What a successful request writes to the disk.\<close>

lemma append_success_wal:
  assumes h: "handle_append_entries env req n = (r, n')" "as_success r" and w: "rn_wal n = Some w"
    and p: "append_new (ar_entries req) (truncate_conflicts (ar_entries req)
      ((rn_ps n)\<lparr>current_term := ar_term req, voted_for := None\<rparr>)) = (p2, k)" "k > 0"
  shows "rn_wal n' = rn_wal (persist_state_sync env k
    (n\<lparr>rn_ps := p2, rn_wal := Some (wal_append_meta (env_codec env) w (ar_term req) None)\<rparr>))"
proof -
  define n1 where "n1 = n\<lparr>rn_stats := (rn_stats n)\<lparr>append_entries_received := append_entries_received (rn_stats n) + 1\<rparr>\<rparr>"
  define n2 where "n2 = reset_election_timeout env (become_follower env (ar_term req) (Some (ar_leader req))
      (n1\<lparr>rn_ps := (rn_ps n1)\<lparr>current_term := ar_term req, voted_for := None\<rparr>\<rparr>))"
  have n2: "rn_ps n2 = (rn_ps n)\<lparr>current_term := ar_term req, voted_for := None\<rparr>"
      "rn_wal n2 = Some (wal_append_meta (env_codec env) w (ar_term req) None)"
    using w by (simp_all add: n2_def n1_def become_follower_def persist_meta_sync_def Let_def)
  have "rn_wal n' = rn_wal (persist_state_sync env k (n2\<lparr>rn_ps := p2\<rparr>))"
    using h p unfolding handle_append_entries_def n1_def [symmetric] Let_def n2_def [symmetric]
    by (auto simp: n2(1) append_reject_def split: if_splits)
  also have "\<dots> = rn_wal (persist_state_sync env k
      (n\<lparr>rn_ps := p2, rn_wal := Some (wal_append_meta (env_codec env) w (ar_term req) None)\<rparr>))"
    by (rule persist_wal_cong) (simp_all add: n2(2))
  finally show ?thesis .
qed

text \<open>
  C27: A restart brings back overwritten entries. When a follower replaces a conflicting entry, the log in memory
  has the leader's entry, but the truncation is not written to disk and replay skips an entry whose index is not
  beyond the last: after a restart the log is the old one, without the entry that was acknowledged. Stated for a request
  with one entry and a write-ahead log that is not about to be checkpointed.
\<close>
theorem raft_wal_resurrects_overwritten_entry:
  assumes crc: "\<forall>bs. crc32 (env_codec env) bs < 2 ^ 32" and disk: "disk_ok (env_codec env) n" "rn_wal n = Some w"
    and "entries_since_checkpoint w + 1 < checkpoint_threshold w"
    and req: "ar_entries req = [e]" "e_index e = Suc (ar_prev_log_index req)" "record_ok (env_codec env) (WalEntry e)" "ar_term req < 2 ^ 64"
    and log: "numbered 1 (rlog (rn_ps n))" "ar_prev_log_index req < length (rlog (rn_ps n))"
      "e_term (rlog (rn_ps n) ! ar_prev_log_index req) \<noteq> e_term e"
    and h: "handle_append_entries env req n = (r, n')" "as_success r"
  shows "rlog (rn_ps n') = take (ar_prev_log_index req) (rlog (rn_ps n)) @ [e] \<and>
    (\<exists>w' s. rn_wal n' = Some w' \<and> wal_recover (env_codec env) w' = Inr s \<and> rlog s = rlog (rn_ps n))"
proof -
  let ?c = "env_codec env" and ?k = "ar_prev_log_index req" and ?log = "rlog (rn_ps n)" and ?t = "ar_term req"
  have "drop ?k ?log = ?log ! ?k # drop (Suc ?k) ?log" using log(2) by (simp add: Cons_nth_drop_Suc)
  then have merged: "rlog (rn_ps n') = take ?k ?log @ [e]" using append_merges(1) [OF h log(1)] req(1,2) log(3) by simp
  obtain rs where rs: "list_all (record_ok ?c) rs" "wal_file w = concat (map (encode_record ?c) rs)"
      "fold replay_record rs (load_from_dir (wal_json w)) = rn_ps n" using disk unfolding disk_ok_def by blast
  let ?w = "wal_append_entry ?c (wal_append_meta ?c w ?t None) e"
  let ?p = "(rn_ps n)\<lparr>current_term := ?t, voted_for := None\<rparr>"
  have "truncate_conflicts [e] ?p = ?p\<lparr>rlog := take ?k ?log\<rparr>"
    using log(2,3) req(2) by (simp add: get_term_nth truncate_from_def)
  moreover have "append_new [e] (?p\<lparr>rlog := take ?k ?log\<rparr>) = (?p\<lparr>rlog := take ?k ?log @ [e]\<rparr>, 1)"
    using append_new_all [of "?p\<lparr>rlog := take ?k ?log\<rparr>" "[e]"] log(1,2) req(2) by (simp add: numbered_take min_absorb2)
  ultimately have "append_new (ar_entries req) (truncate_conflicts (ar_entries req) ?p) = (?p\<lparr>rlog := take ?k ?log @ [e]\<rparr>, 1)"
    unfolding req(1) by (simp only:)
  from append_success_wal [OF h disk(2) this] have "rn_wal n' = Some ?w"
    using assms(4) by (simp add: persist_state_sync_def Let_def needs_checkpoint_def wal_append_entry_def wal_append_meta_def)
  moreover have "wal_recover ?c ?w = Inr (push_entry ?p e)"
    using crc_replay [OF crc, of "rs @ [WalMeta ?t None, WalEntry e]" ?w] rs req(3,4)
    by (simp add: wal_append_entry_def wal_append_meta_def)
  moreover have "last_log_index ?p = length ?log"
    using last_log_index_numbered [of ?p] log(1) by simp
  then have "push_entry ?p e = ?p" using log(2) req(2) by (simp add: push_entry_def)
  ultimately show ?thesis using merged by auto
qed

definition ex_follower :: "unit raft_node" where
  "ex_follower = n_b\<lparr>rn_ps := \<lparr>current_term = 0, voted_for = None, rlog = [entry_new 1 1 Noop]\<rparr>,
     rn_wal := Some (wal_open None (encode_record toy_codec (WalEntry (entry_new 1 1 Noop))))\<rparr>"

theorem raft_wal_resurrects_overwritten_entry_witness:
  "\<exists>w s. rlog (rn_ps (snd (handle_append_entries ex_env ex_append ex_follower))) = [entry_new 2 1 Noop] \<and>
     rn_wal (snd (handle_append_entries ex_env ex_append ex_follower)) = Some w \<and>
     wal_recover toy_codec w = Inr s \<and> rlog s = [entry_new 1 1 Noop]"
proof -
  let ?f = ex_follower and ?w = "wal_open None (encode_record toy_codec (WalEntry (entry_new 1 1 Noop)))"
  have f: "rn_wal ?f = Some ?w" "rlog (rn_ps ?f) = [entry_new 1 1 Noop]" "rn_term ?f = 0" by (simp_all add: ex_follower_def)
  have d: "disk_ok (env_codec ex_env) ?f"
    unfolding disk_ok_def f(1) using ex_entries_ok(1)
    by (intro allI impI exI [of _ "[WalEntry (entry_new 1 1 Noop)]"])
      (auto simp: wal_open_def load_from_dir_def ps_new_def push_entry_def last_log_index_def ex_follower_def entry_new_def)
  have e: "record_ok (env_codec ex_env) (WalEntry (entry_new 2 1 Noop))" by (simp add: toy_codec_def entry_new_def)
  obtain r n' where h: "handle_append_entries ex_env ex_append ?f = (r, n')" by fastforce
  have ok: "as_success r" using h f(3) by (auto simp: handle_append_entries_def ex_append_def Let_def split: prod.splits if_splits)
  have cp: "entries_since_checkpoint ?w + 1 < checkpoint_threshold ?w" by (simp add: wal_open_def)
  have a: "ar_entries ex_append = [entry_new 2 1 Noop]" "e_index (entry_new 2 1 Noop) = Suc (ar_prev_log_index ex_append)"
      "ar_term ex_append < 2 ^ 64" by (simp_all add: ex_append_def entry_new_def)
  have l: "numbered 1 (rlog (rn_ps ?f))" "ar_prev_log_index ex_append < length (rlog (rn_ps ?f))"
      "e_term (rlog (rn_ps ?f) ! ar_prev_log_index ex_append) \<noteq> e_term (entry_new 2 1 Noop)"
    unfolding f(2) by (simp_all add: ex_append_def entry_new_def)
  have "rlog (rn_ps n') = take (ar_prev_log_index ex_append) (rlog (rn_ps ?f)) @ [entry_new 2 1 Noop] \<and>
      (\<exists>w' s. rn_wal n' = Some w' \<and> wal_recover (env_codec ex_env) w' = Inr s \<and> rlog s = rlog (rn_ps ?f))"
    by (rule raft_wal_resurrects_overwritten_entry [OF ex_codec(2) d f(1) cp a(1,2) e a(3) l h ok])
  then show ?thesis unfolding f(2) h by (auto simp: ex_append_def)
qed

text \<open>
  A torn record hides everything written after it. Opening the log after a crash keeps a record that was cut short, and new records
  are appended behind it. If only the first byte of an entry reached the disk, the vote written next is not
  found by the following recovery: the node comes back as if it had not voted.
\<close>
theorem raft_torn_tail_hides_later_vote:
  assumes "\<forall>bs. crc32 c bs < 2 ^ 32" "list_all (record_ok c) rs"
    and "wal_file w = concat (map (encode_record c) rs) @ take 1 (encode_entry c e)"
    and "0 < t" "t < 2 ^ 24" "length i \<le> 240"
  shows "wal_recover c (wal_append_meta c (wal_open (wal_json w) (wal_file w)) t (Some i)) = wal_recover c w"
proof -
  let ?m = "encode_meta c t (Some i)"
  let ?rest = "wal_type_entry # ?m"
  have one: "take 1 (encode_entry c e) = [wal_type_entry]" by (simp add: encode_entry_def Let_def)
  have len: "length ?rest = 19 + length i" by (simp add: encode_meta_def Let_def)
  have "le_dec (take 4 ?m) = 1 + 256 * t"
  proof -
    have "take 4 ?m = 1 # take 3 (le_enc 8 t)" by (simp add: encode_meta_def Let_def wal_type_meta_def)
    also have "take 3 (le_enc 8 t) = le_enc 3 t" using take_le_enc [of 3 8 t] by simp
    finally show ?thesis using le_dec_enc_small [of t 3] assms(5) by simp
  qed
  then have "recover_loop c s ?rest = Inr s" for s
    using assms(4,6) len by (subst recover_loop.simps) (simp add: Let_def)
  moreover have "recover_loop c s [wal_type_entry] = Inr s" for s by (simp add: recover_loop.simps)
  ultimately show ?thesis
    using recover_records [OF assms(1,2)]
    by (simp add: wal_recover_def wal_append_meta_def wal_open_def assms(3) [unfolded one] del: One_nat_def)
qed

theorem raft_torn_tail_hides_later_vote_witness:
  "wal_recover toy_codec (wal_append_meta toy_codec (wal_open None (take 1 (encode_entry toy_codec (entry_new 1 1 Noop)))) 7 (Some ''a''))
     = Inr ps_new"
proof -
  let ?w = "wal_open None (take 1 (encode_entry toy_codec (entry_new 1 1 Noop)))"
  have "wal_recover toy_codec (wal_append_meta toy_codec (wal_open (wal_json ?w) (wal_file ?w)) 7 (Some ''a'')) = wal_recover toy_codec ?w"
    by (rule raft_torn_tail_hides_later_vote [of _ "[]" _ "entry_new 1 1 Noop"]) (use toy_codec_facts in \<open>simp_all add: wal_open_def\<close>)
  also have "\<dots> = Inr ps_new"
    by (simp add: wal_recover_def wal_open_def load_from_dir_def recover_loop.simps encode_entry_def Let_def)
  finally show ?thesis by (simp add: wal_open_def)
qed

end
