(* ===== verification/Bloom.thy ===== *)
theory Bloom
  imports Prelude
begin

unbundle bit_operations_syntax

text \<open>
  The Bloom filter of the log-structured engine, \<open>BloomFilter\<close> in \<open>crates/joule-db-local/src/bloom.rs\<close>: a bit array of
  64-bit words addressed by double hashing with FNV-1a, its insertion and membership test, and its byte format.

  \<open>new\<close> computes the number of bits and of hash functions in floating point; the two results, before the code clamps
  them, are the parameter \<open>sizing\<close>. An index out of range and a remainder by zero panic in Rust and give \<open>None\<close> here.
\<close>

section \<open>The filter\<close>

record bloom =
  bl_bits :: "u64 list"
  num_bits :: nat
  num_hashes :: nat
  bl_count :: nat

type_synonym bloom_sizing = "nat \<Rightarrow> nat \<times> nat"

definition bloom_alloc :: "nat \<Rightarrow> nat \<Rightarrow> bloom" where
  "bloom_alloc n h = \<lparr>bl_bits = replicate ((n + 63) div 64) 0, num_bits = n, num_hashes = h, bl_count = 0\<rparr>"

definition bloom_new :: "bloom_sizing \<Rightarrow> nat \<Rightarrow> bloom" where
  "bloom_new sizing expected_items =
     (let (nb, nh) = sizing (max 1 expected_items) in bloom_alloc (max 64 nb) (min 30 (max 1 nh)))"

definition with_params :: "nat \<Rightarrow> nat \<Rightarrow> bloom" where
  "with_params nb nh = bloom_alloc (max 64 nb) (max 1 nh)"

section \<open>Hashing\<close>

text \<open>
  \<open>FnvHasher::write\<close>, and \<open>Hash for [u8]\<close>, which feeds the length as eight little endian bytes and then the bytes.
\<close>

definition fnv_write :: "u64 \<Rightarrow> bytes \<Rightarrow> u64" where
  "fnv_write s bs = fold (\<lambda>b s. (s XOR ucast b) * 0x100000001b3) bs s"

definition hash_slice :: "u64 \<Rightarrow> bytes \<Rightarrow> u64" where
  "hash_slice s key = fnv_write (fnv_write s (le_enc 8 (length key))) key"

definition hash_pair :: "bytes \<Rightarrow> u64 \<times> u64" where
  "hash_pair key = (hash_slice 0xcbf29ce484222325 key, hash_slice 0x517cc1b727220a95 key)"

definition bit_index :: "bloom \<Rightarrow> u64 \<Rightarrow> u64 \<Rightarrow> nat \<Rightarrow> nat option" where
  "bit_index b h1 h2 i = (if num_bits b = 0 then None else Some (unat (h1 + of_nat i * h2) mod num_bits b))"

section \<open>Insertion and membership\<close>

definition set_bit_at :: "nat \<Rightarrow> bloom \<Rightarrow> bloom option" where
  "set_bit_at pos b =
     (let word = pos div 64; offset = pos mod 64
      in if word < length (bl_bits b)
         then Some (b\<lparr>bl_bits := (bl_bits b)[word := bl_bits b ! word OR push_bit offset 1]\<rparr>) else None)"

definition test_bit_at :: "nat \<Rightarrow> bloom \<Rightarrow> bool option" where
  "test_bit_at pos b =
     (let word = pos div 64; offset = pos mod 64
      in if word < length (bl_bits b) then Some (bl_bits b ! word AND push_bit offset 1 \<noteq> 0) else None)"

fun insert_loop :: "u64 \<Rightarrow> u64 \<Rightarrow> nat list \<Rightarrow> bloom \<Rightarrow> bloom option" where
  "insert_loop h1 h2 [] b = Some b"
| "insert_loop h1 h2 (i # is) b =
     (case bit_index b h1 h2 i of
        None \<Rightarrow> None
      | Some pos \<Rightarrow> (case set_bit_at pos b of None \<Rightarrow> None | Some b' \<Rightarrow> insert_loop h1 h2 is b'))"

definition bloom_insert :: "bytes \<Rightarrow> bloom \<Rightarrow> bloom option" where
  "bloom_insert key b =
     (let (h1, h2) = hash_pair key
      in map_option (\<lambda>b. b\<lparr>bl_count := bl_count b + 1\<rparr>) (insert_loop h1 h2 [0..<num_hashes b] b))"

fun contain_loop :: "u64 \<Rightarrow> u64 \<Rightarrow> nat list \<Rightarrow> bloom \<Rightarrow> bool option" where
  "contain_loop h1 h2 [] b = Some True"
| "contain_loop h1 h2 (i # is) b =
     (case bit_index b h1 h2 i of
        None \<Rightarrow> None
      | Some pos \<Rightarrow>
          (case test_bit_at pos b of
             None \<Rightarrow> None
           | Some False \<Rightarrow> Some False
           | Some True \<Rightarrow> contain_loop h1 h2 is b))"

definition bloom_may_contain :: "bloom \<Rightarrow> bytes \<Rightarrow> bool option" where
  "bloom_may_contain b key = (let (h1, h2) = hash_pair key in contain_loop h1 h2 [0..<num_hashes b] b)"

definition bloom_clear :: "bloom \<Rightarrow> bloom" where
  "bloom_clear b = b\<lparr>bl_bits := map (\<lambda>_. 0) (bl_bits b), bl_count := 0\<rparr>"

definition bloom_size_bytes :: "bloom \<Rightarrow> nat" where
  "bloom_size_bytes b = length (bl_bits b) * 8"

section \<open>The byte format\<close>

definition bloom_to_bytes :: "bloom \<Rightarrow> bytes" where
  "bloom_to_bytes b = le_enc 8 (num_bits b) @ le_enc 4 (num_hashes b) @ le_enc 4 (bl_count b) @
     concat (map (\<lambda>w. le_enc 8 (unat w)) (bl_bits b))"

definition bloom_from_bytes :: "bytes \<Rightarrow> bloom option" where
  "bloom_from_bytes data =
     (if length data < 16 then None
      else let nb = le_dec (take 8 data);
               nh = le_dec (take 4 (drop 8 data));
               cnt = le_dec (take 4 (drop 12 data));
               num_words = ((nb + 63) mod 2 ^ 64) div 64
           in if length data < 16 + num_words * 8 then None
              else Some \<lparr>bl_bits = map (\<lambda>i. of_nat (le_dec (take 8 (drop (16 + i * 8) data)))) [0..<num_words],
                         num_bits = nb, num_hashes = nh, bl_count = cnt\<rparr>)"

section \<open>Well-formed filters\<close>

definition bloom_wf :: "bloom \<Rightarrow> bool" where
  "bloom_wf b \<longleftrightarrow> 0 < num_bits b \<and> length (bl_bits b) = (num_bits b + 63) div 64"

definition bit_of :: "bloom \<Rightarrow> nat \<Rightarrow> bool" where
  "bit_of b i \<longleftrightarrow> bit (bl_bits b ! (i div 64)) (i mod 64)"

lemma bloom_alloc_wf: "0 < n \<Longrightarrow> bloom_wf (bloom_alloc n h)"
  by (simp add: bloom_wf_def bloom_alloc_def)

lemma bloom_new_wf [simp]: "bloom_wf (bloom_new sizing n)"
  by (simp add: bloom_new_def bloom_alloc_wf split: prod.split)

lemma bit_index_wf:
  assumes "bloom_wf b"
  obtains i' where "bit_index b h1 h2 i = Some i'" "i' < num_bits b"
  using assms by (auto simp: bit_index_def bloom_wf_def)

lemma word_in_range: "bloom_wf b \<Longrightarrow> i < num_bits b \<Longrightarrow> i div 64 < length (bl_bits b)"
  by (simp add: bloom_wf_def div_less_iff_less_mult)


lemma bit_one_shifted: "n < 64 \<Longrightarrow> bit (push_bit n (1 :: u64)) i \<longleftrightarrow> i = n"
  by (auto simp: bit_simps)

lemma single_bit_test: "n < 64 \<Longrightarrow> (w AND push_bit n 1 \<noteq> 0) = bit w n" for w :: u64
proof -
  assume n: "n < 64"
  have "bit (w AND push_bit n 1) i \<longleftrightarrow> i = n \<and> bit w n" for i
    unfolding bit_and_iff bit_one_shifted [OF n] by auto
  note this [simp]
  show "(w AND push_bit n 1 \<noteq> 0) = bit w n"
  proof
    show "w AND push_bit n 1 \<noteq> 0 \<Longrightarrow> bit w n" by (rule ccontr, erule notE, rule bit_word_eqI) (simp del: push_bit_of_1)
    show "w AND push_bit n 1 \<noteq> 0" if "bit w n"
    proof
      assume "w AND push_bit n 1 = 0"
      then have "\<not> bit (w AND push_bit n 1) n" by (simp only: bit_0_eq) simp
      then show False using that by (simp del: push_bit_of_1)
    qed
  qed
qed

lemma test_bit_at_wf: "bloom_wf b \<Longrightarrow> i < num_bits b \<Longrightarrow> test_bit_at i b = Some (bit_of b i)"
  by (simp add: test_bit_at_def bit_of_def word_in_range single_bit_test Let_def del: push_bit_of_1)

lemma set_bit_at_wf:
  assumes "bloom_wf b" "i < num_bits b"
  obtains b' where "set_bit_at i b = Some b'" "bloom_wf b'" "num_bits b' = num_bits b"
    "num_hashes b' = num_hashes b" "bl_count b' = bl_count b" "bit_of b' i"
    "\<And>j. j < num_bits b \<Longrightarrow> bit_of b j \<Longrightarrow> bit_of b' j"
proof
  let ?b = "b\<lparr>bl_bits := (bl_bits b)[i div 64 := bl_bits b ! (i div 64) OR push_bit (i mod 64) 1]\<rparr>"
  have r: "i div 64 < length (bl_bits b)" by (rule word_in_range [OF assms])
  show "set_bit_at i b = Some ?b" using r by (simp add: set_bit_at_def Let_def)
  show "bloom_wf ?b" "num_bits ?b = num_bits b" "num_hashes ?b = num_hashes b" "bl_count ?b = bl_count b"
    using assms(1) by (simp_all add: bloom_wf_def)
  show "bit_of ?b i" using r by (simp add: bit_of_def bit_or_iff bit_one_shifted del: push_bit_of_1)
  show "bit_of ?b j" if "j < num_bits b" "bit_of b j" for j
    using that r by (cases "j div 64 = i div 64") (simp_all add: bit_of_def bit_or_iff nth_list_update del: push_bit_of_1)
qed

section \<open>No false negatives\<close>

text \<open>The bits the hash functions of \<open>is\<close> address are all set.\<close>

definition hashes_set :: "u64 \<Rightarrow> u64 \<Rightarrow> nat list \<Rightarrow> bloom \<Rightarrow> bool" where
  "hashes_set h1 h2 is b \<longleftrightarrow> (\<forall>i\<in>set is. \<forall>pos. bit_index b h1 h2 i = Some pos \<longrightarrow> bit_of b pos)"

text \<open>\<open>b'\<close> is \<open>b\<close> with further bits set.\<close>

definition bloom_ext :: "bloom \<Rightarrow> bloom \<Rightarrow> bool" where
  "bloom_ext b b' \<longleftrightarrow> bloom_wf b' \<and> num_bits b' = num_bits b \<and> num_hashes b' = num_hashes b \<and>
     (\<forall>j < num_bits b. bit_of b j \<longrightarrow> bit_of b' j)"

lemma bloom_ext_refl: "bloom_wf b \<Longrightarrow> bloom_ext b b"
  by (simp add: bloom_ext_def)

lemma bloom_ext_trans: "bloom_ext a b \<Longrightarrow> bloom_ext b c \<Longrightarrow> bloom_ext a c"
  by (simp add: bloom_ext_def)

lemma bit_index_ext: "bloom_ext b b' \<Longrightarrow> bit_index b' = bit_index b"
  by (simp add: bit_index_def bloom_ext_def fun_eq_iff)

lemma hashes_set_ext:
  assumes "bloom_ext b b'" "hashes_set h1 h2 is b"
  shows "hashes_set h1 h2 is b'"
  using assms unfolding hashes_set_def bit_index_ext [OF assms(1)]
  by (auto simp: bloom_ext_def bit_index_def split: if_splits)

lemma insert_loop_sets:
  "bloom_wf b \<Longrightarrow> \<exists>b'. insert_loop h1 h2 is b = Some b' \<and> bloom_ext b b' \<and> bl_count b' = bl_count b \<and>
     hashes_set h1 h2 is b'"
proof (induction "is" arbitrary: b)
  case Nil
  then show ?case by (simp add: bloom_ext_refl hashes_set_def)
next
  case (Cons i "is")
  obtain pos where pos: "bit_index b h1 h2 i = Some pos" "pos < num_bits b"
    using bit_index_wf [OF Cons.prems] by blast
  obtain b1 where b1: "set_bit_at pos b = Some b1" "bloom_wf b1" "bloom_ext b b1" "bit_of b1 pos" "bl_count b1 = bl_count b"
    by (rule set_bit_at_wf [OF Cons.prems pos(2)]) (simp add: bloom_ext_def)
  obtain b2 where b2: "insert_loop h1 h2 is b1 = Some b2" "bloom_ext b1 b2" "hashes_set h1 h2 is b2"
      "bl_count b2 = bl_count b"
    using Cons.IH [OF b1(2)] b1(5) by auto
  have ext: "bloom_ext b b2" using b1(3) b2(2) by (rule bloom_ext_trans)
  have "bit_of b2 pos" using b1 b2(2) pos(2) by (simp add: bloom_ext_def)
  then have "hashes_set h1 h2 (i # is) b2"
    using b2(3) pos(1) by (simp add: hashes_set_def bit_index_ext [OF ext])
  then show ?case using pos(1) b1(1) b2(1,4) ext by simp
qed

lemma contain_loop_hashes_set:
  assumes "bloom_wf b"
  shows "contain_loop h1 h2 is b = Some (hashes_set h1 h2 is b)"
proof (induction "is")
  case (Cons i "is")
  obtain pos where pos: "bit_index b h1 h2 i = Some pos" "pos < num_bits b"
    using bit_index_wf [OF assms] by blast
  then show ?case
    using Cons by (auto simp: test_bit_at_wf [OF assms] hashes_set_def split: bool.split)
qed (simp add: hashes_set_def)

definition bloom_has :: "bloom \<Rightarrow> bytes \<Rightarrow> bool" where
  "bloom_has b key \<longleftrightarrow> hashes_set (fst (hash_pair key)) (snd (hash_pair key)) [0..<num_hashes b] b"

lemma bloom_may_contain_has: "bloom_wf b \<Longrightarrow> bloom_may_contain b key = Some (bloom_has b key)"
  by (simp add: bloom_may_contain_def bloom_has_def contain_loop_hashes_set case_prod_unfold Let_def)

lemma bloom_insert_has:
  assumes "bloom_wf b"
  obtains b' where "bloom_insert key b = Some b'" "bloom_ext b b'" "bloom_has b' key" "bl_count b' = Suc (bl_count b)"
proof -
  obtain h1 h2 where h: "hash_pair key = (h1, h2)" by fastforce
  obtain b1 where b1: "insert_loop h1 h2 [0..<num_hashes b] b = Some b1" "bloom_ext b b1"
      "hashes_set h1 h2 [0..<num_hashes b] b1" "bl_count b1 = bl_count b"
    using insert_loop_sets [OF assms] by metis
  let ?b = "b1\<lparr>bl_count := bl_count b1 + 1\<rparr>"
  have "bloom_ext b1 ?b" using b1(2) by (simp add: bloom_ext_def bloom_wf_def bit_of_def)
  then have "hashes_set h1 h2 [0..<num_hashes b] ?b" using b1(3) by (rule hashes_set_ext)
  moreover have ext: "bloom_ext b ?b" using b1(2) \<open>bloom_ext b1 ?b\<close> by (rule bloom_ext_trans)
  moreover have "num_hashes ?b = num_hashes b" using ext by (simp add: bloom_ext_def)
  ultimately have "bloom_has ?b key" using h by (simp add: bloom_has_def)
  moreover have "bloom_insert key b = Some ?b" using b1(1) h by (simp add: bloom_insert_def)
  ultimately show thesis using ext b1(4) by (intro that [of ?b]) simp_all
qed

lemma bloom_has_ext: "bloom_ext b b' \<Longrightarrow> bloom_has b key \<Longrightarrow> bloom_has b' key"
  unfolding bloom_has_def using hashes_set_ext by (simp add: bloom_ext_def)

text \<open>Insertion of the keys of a table, in their order.\<close>

fun insert_all :: "bytes list \<Rightarrow> bloom \<Rightarrow> bloom option" where
  "insert_all [] b = Some b"
| "insert_all (k # ks) b = (case bloom_insert k b of None \<Rightarrow> None | Some b' \<Rightarrow> insert_all ks b')"

lemma insert_all_has:
  "bloom_wf b \<Longrightarrow> \<exists>b'. insert_all ks b = Some b' \<and> bloom_ext b b' \<and> bl_count b' = bl_count b + length ks \<and>
     (\<forall>k\<in>set ks. bloom_has b' k)"
proof (induction ks arbitrary: b)
  case (Cons k ks)
  obtain b1 where b1: "bloom_insert k b = Some b1" "bloom_ext b b1" "bloom_has b1 k" "bl_count b1 = Suc (bl_count b)"
    using bloom_insert_has [OF Cons.prems] by blast
  obtain b2 where b2: "insert_all ks b1 = Some b2" "bloom_ext b1 b2" "bl_count b2 = bl_count b1 + length ks"
      "\<forall>k\<in>set ks. bloom_has b2 k"
    using Cons.IH [of b1] b1(2) by (auto simp: bloom_ext_def)
  then show ?case
    using b1 bloom_ext_trans [OF b1(2) b2(2)] bloom_has_ext [OF b2(2) b1(3)] by auto
qed (simp add: bloom_ext_refl)

section \<open>Round trip of the byte format\<close>

definition bloom_small :: "bloom \<Rightarrow> bool" where
  "bloom_small b \<longleftrightarrow> num_bits b + 63 < 2 ^ 64 \<and> num_hashes b < 2 ^ 32 \<and> bl_count b < 2 ^ 32"

lemma length_word_bytes [simp]: "length (concat (map (\<lambda>w. le_enc 8 (f w)) ws)) = 8 * length ws"
  by (induction ws) auto

lemma length_bloom_to_bytes: "length (bloom_to_bytes b) = 16 + 8 * length (bl_bits b)"
  by (simp add: bloom_to_bytes_def)

lemma nth_word_bytes:
  "i < length ws \<Longrightarrow> take 8 (drop (i * 8) (concat (map (\<lambda>w. le_enc 8 (f w)) ws))) = le_enc 8 (f (ws ! i))"
proof (induction ws arbitrary: i)
  case (Cons w ws)
  then show ?case by (cases i) (simp_all add: add.commute [of 8])
qed simp

lemma bloom_from_to_bytes:
  assumes "bloom_wf b" "bloom_small b"
  shows "bloom_from_bytes (bloom_to_bytes b) = Some b"
proof -
  let ?d = "bloom_to_bytes b" and ?tail = "concat (map (\<lambda>w. le_enc 8 (unat w)) (bl_bits b))"
  have hd: "take 8 ?d = le_enc 8 (num_bits b)" "take 4 (drop 8 ?d) = le_enc 4 (num_hashes b)"
    "take 4 (drop 12 ?d) = le_enc 4 (bl_count b)" "drop 16 ?d = ?tail"
    by (simp_all add: bloom_to_bytes_def)
  have nb: "le_dec (le_enc 8 (num_bits b)) = num_bits b" using assms(2) by (intro le_dec_enc_small) (simp add: bloom_small_def)
  have nh: "le_dec (le_enc 4 (num_hashes b)) = num_hashes b" using assms(2) by (intro le_dec_enc_small) (simp add: bloom_small_def)
  have ct: "le_dec (le_enc 4 (bl_count b)) = bl_count b" using assms(2) by (intro le_dec_enc_small) (simp add: bloom_small_def)
  have words: "((num_bits b + 63) mod 2 ^ 64) div 64 = length (bl_bits b)"
    using assms by (simp add: bloom_wf_def bloom_small_def)
  have "take 8 (drop (16 + i * 8) ?d) = le_enc 8 (unat (bl_bits b ! i))" if "i < length (bl_bits b)" for i
    using nth_word_bytes [OF that, of unat] hd(4) by (metis add.commute drop_drop)
  then have ws: "map (\<lambda>i. of_nat (le_dec (take 8 (drop (16 + i * 8) ?d)))) [0..<length (bl_bits b)] = bl_bits b"
    by (intro nth_equalityI) (simp_all add: le_enc_u64)
  show ?thesis
    unfolding bloom_from_bytes_def hd nb nh ct words Let_def ws by (simp add: length_bloom_to_bytes)
qed

section \<open>Properties\<close>

text \<open>
  C37: A key inserted into a Bloom filter is never reported absent, also after the filter has been written to bytes
  and read back: insertion of any keys into a filter made by \<open>new\<close> does not panic, and for a filter whose counters fit their fields
  \<open>from_bytes\<close> of \<open>to_bytes\<close> is the same filter, which answers "possibly present" for every one of the keys.
\<close>

theorem bloom_no_false_negatives:
  "\<exists>b. insert_all ks (bloom_new sizing n) = Some b \<and> bl_count b = length ks \<and>
     (\<forall>k\<in>set ks. bloom_may_contain b k = Some True) \<and>
     (num_bits b + 63 < 2 ^ 64 \<and> bl_count b < 2 ^ 32 \<longrightarrow> bloom_from_bytes (bloom_to_bytes b) = Some b)"
proof -
  let ?b = "bloom_new sizing n"
  have new: "bl_count ?b = 0" "num_hashes ?b \<le> 30"
    by (simp_all add: bloom_new_def bloom_alloc_def split: prod.split)
  obtain b where b: "insert_all ks ?b = Some b" "bloom_ext ?b b" "bl_count b = length ks" "\<forall>k\<in>set ks. bloom_has b k"
    using insert_all_has [OF bloom_new_wf, of ks sizing n] new(1) by auto
  then have wf: "bloom_wf b" "num_hashes b \<le> 30" using new(2) by (simp_all add: bloom_ext_def)
  then have "bloom_small b" if "num_bits b + 63 < 2 ^ 64" "bl_count b < 2 ^ 32"
    using that by (simp add: bloom_small_def)
  then show ?thesis
    using b wf bloom_from_to_bytes [OF wf(1)] by (auto simp: bloom_may_contain_has)
qed

theorem bloom_no_false_negatives_witness:
  "\<exists>b. insert_all [[1, 2], [3]] (bloom_new (\<lambda>n. (10 * n, 7)) 2) = Some b \<and>
     bloom_may_contain b [3] = Some True \<and> bloom_from_bytes (bloom_to_bytes b) = Some b"
proof -
  obtain b where b: "insert_all [[1, 2], [3]] (bloom_new (\<lambda>n. (10 * n, 7)) 2) = Some b" "bl_count b = length [[1, 2], [3 :: u8]]"
      "\<forall>k\<in>set [[1, 2], [3]]. bloom_may_contain b k = Some True"
      "num_bits b + 63 < 2 ^ 64 \<and> bl_count b < 2 ^ 32 \<longrightarrow> bloom_from_bytes (bloom_to_bytes b) = Some b"
    using bloom_no_false_negatives [of "[[1, 2], [3]]" "\<lambda>n. (10 * n, 7)" 2] by blast
  have "bloom_ext (bloom_new (\<lambda>n. (10 * n, 7)) 2) b"
    using insert_all_has [OF bloom_new_wf, of "[[1, 2], [3]]" "\<lambda>n. (10 * n, 7)" 2] b(1) by auto
  then have "num_bits b = 64" by (simp add: bloom_ext_def bloom_new_def bloom_alloc_def)
  then show ?thesis using b by auto
qed

end
