(* ===== verification/Sstable.thy ===== *)
theory Sstable
  imports Bloom
begin

text \<open>
  The sorted tables of the log-structured engine, \<open>crates/joule-db-local/src/lsm/sstable.rs\<close>: the writer with its data
  blocks, block index, Bloom filter and footer, and the reader with its point lookup, scan and range scan, byte by byte.

  A file is its list of bytes and the directory a finite map from paths to files. Creating, writing and flushing a file
  succeed; opening a missing file and reading past the end are the errors of the reader. A panic is the error \<open>Panicked\<close>.
  Block offsets and counters are natural numbers; the casts of lengths to \<open>u32\<close> are written out.
\<close>

section \<open>Data\<close>

datatype io_error = InvalidData string | NotFound | UnexpectedEof | Panicked

type_synonym 'a io = "io_error + 'a"
type_synonym kv = "bytes \<times> bytes option"

datatype path = SstPath nat \<comment> \<open>\<open>dir.join(format!("{:06}.sst", id))\<close>\<close>

type_synonym directory = "(path, bytes) fmap"

record sst_meta =
  m_id :: nat
  m_level :: nat
  m_path :: path
  first_key :: bytes
  last_key :: bytes
  entry_count :: nat
  size_bytes :: nat

record index_entry =
  ix_first :: bytes
  ix_offset :: nat
  ix_length :: nat

record sst_writer =
  w_path :: path
  w_out :: bytes
  w_bloom :: bloom
  w_index :: "index_entry list"
  cur_block :: bytes
  cur_first :: "bytes option"
  cur_offset :: nat
  w_first :: "bytes option"
  w_last :: "bytes option"
  w_count :: nat
  block_size :: nat
  w_bytes :: nat

record sst_reader =
  r_path :: path
  r_index :: "index_entry list"
  r_bloom :: bloom
  r_count :: nat

definition sstable_magic :: nat where "sstable_magic = 0x53535442"
definition value_tombstone :: u8 where "value_tombstone = 0"
definition value_data :: u8 where "value_data = 1"
definition default_block_size :: nat where "default_block_size = 4096"

section \<open>Writer\<close>

definition writer_new :: "bloom_sizing \<Rightarrow> path \<Rightarrow> nat \<Rightarrow> sst_writer" where
  "writer_new sizing p expected = \<lparr>w_path = p, w_out = [], w_bloom = bloom_new sizing (max 1 expected), w_index = [],
     cur_block = [], cur_first = None, cur_offset = 0, w_first = None, w_last = None, w_count = 0,
     block_size = default_block_size, w_bytes = 0\<rparr>"

definition enc_kv :: "kv \<Rightarrow> bytes" where
  "enc_kv e = (case e of (key, value) \<Rightarrow>
     le_enc 4 (length key) @ key @
     (case value of Some v \<Rightarrow> value_data # le_enc 4 (length v) @ v | None \<Rightarrow> [value_tombstone]))"

definition flush_block :: "sst_writer \<Rightarrow> sst_writer" where
  "flush_block w =
     (if cur_block w = [] then w
      else let block_len = length (cur_block w) mod 2 ^ 32
           in w\<lparr>w_out := w_out w @ cur_block w,
                w_index := w_index w @ [\<lparr>ix_first = (case cur_first w of None \<Rightarrow> [] | Some k \<Rightarrow> k),
                                         ix_offset = cur_offset w, ix_length = block_len\<rparr>],
                cur_first := None,
                cur_offset := cur_offset w + block_len,
                cur_block := [],
                w_bytes := w_bytes w + block_len\<rparr>)"

definition writer_add :: "sst_writer \<Rightarrow> bytes \<Rightarrow> bytes option \<Rightarrow> sst_writer io" where
  "writer_add w key value =
     (case bloom_insert key (w_bloom w) of
        None \<Rightarrow> Inl Panicked
      | Some bl \<Rightarrow>
          let w = w\<lparr>w_bloom := bl,
                    w_first := (if w_first w = None then Some key else w_first w),
                    w_last := Some key,
                    w_count := w_count w + 1,
                    cur_first := (if cur_first w = None then Some key else cur_first w),
                    cur_block := cur_block w @ enc_kv (key, value)\<rparr>
          in Inr (if length (cur_block w) \<ge> block_size w then flush_block w else w))"

definition enc_ix :: "index_entry \<Rightarrow> bytes" where
  "enc_ix e = le_enc 4 (length (ix_first e)) @ ix_first e @ le_enc 8 (ix_offset e) @ le_enc 4 (ix_length e)"

definition writer_finish :: "sst_writer \<Rightarrow> nat \<Rightarrow> nat \<Rightarrow> sst_meta \<times> bytes" where
  "writer_finish w sst_id level =
     (let w = flush_block w;
          index_offset = cur_offset w;
          out = w_out w @ le_enc 4 (length (w_index w)) @ concat (map enc_ix (w_index w));
          bloom_offset = index_offset + 4 + sum_list (map (\<lambda>e. 4 + length (ix_first e) + 8 + 4) (w_index w));
          bloom_bytes = bloom_to_bytes (w_bloom w);
          out = out @ le_enc 4 (length bloom_bytes) @ bloom_bytes;
          out = out @ le_enc 8 index_offset @ le_enc 8 bloom_offset @ le_enc 8 (w_count w) @ le_enc 4 sstable_magic
      in (\<lparr>m_id = sst_id, m_level = level, m_path = w_path w,
           first_key = (case w_first w of None \<Rightarrow> [] | Some k \<Rightarrow> k),
           last_key = (case w_last w of None \<Rightarrow> [] | Some k \<Rightarrow> k),
           entry_count = w_count w, size_bytes = length out\<rparr>, out))"

text \<open>The loop of the callers: \<open>add\<close> for every entry, in order.\<close>

fun writer_add_all :: "sst_writer \<Rightarrow> kv list \<Rightarrow> sst_writer io" where
  "writer_add_all w [] = Inr w"
| "writer_add_all w ((k, v) # es) =
     (case writer_add w k v of Inl e \<Rightarrow> Inl e | Inr w' \<Rightarrow> writer_add_all w' es)"

section \<open>Reader\<close>

definition read_exact :: "bytes \<Rightarrow> nat \<Rightarrow> nat \<Rightarrow> bytes io" where
  "read_exact file pos n =
     (if n = 0 \<or> pos + n \<le> length file then Inr (take n (drop pos file)) else Inl UnexpectedEof)"

definition read_int :: "bytes \<Rightarrow> nat \<Rightarrow> nat \<Rightarrow> nat io" where
  "read_int file pos n = (case read_exact file pos n of Inl e \<Rightarrow> Inl e | Inr bs \<Rightarrow> Inr (le_dec bs))"

fun read_index :: "bytes \<Rightarrow> nat \<Rightarrow> nat \<Rightarrow> index_entry list io" where
  "read_index file 0 pos = Inr []"
| "read_index file (Suc n) pos =
     (case read_int file pos 4 of Inl e \<Rightarrow> Inl e | Inr key_len \<Rightarrow>
      case read_exact file (pos + 4) key_len of Inl e \<Rightarrow> Inl e | Inr key \<Rightarrow>
      case read_int file (pos + 4 + key_len) 8 of Inl e \<Rightarrow> Inl e | Inr offset \<Rightarrow>
      case read_int file (pos + 12 + key_len) 4 of Inl e \<Rightarrow> Inl e | Inr len \<Rightarrow>
      case read_index file n (pos + 16 + key_len) of Inl e \<Rightarrow> Inl e | Inr rest \<Rightarrow>
        Inr (\<lparr>ix_first = key, ix_offset = offset, ix_length = len\<rparr> # rest))"

definition reader_open :: "bloom_sizing \<Rightarrow> directory \<Rightarrow> path \<Rightarrow> sst_reader io" where
  "reader_open sizing d p =
     (case fmlookup d p of None \<Rightarrow> Inl NotFound | Some file \<Rightarrow>
      if length file < 28 then Inl (InvalidData ''SSTable too small'')
      else let footer = drop (length file - 28) file;
               index_offset = le_dec (take 8 footer);
               bloom_offset = le_dec (take 8 (drop 8 footer));
               count = le_dec (take 8 (drop 16 footer));
               magic = le_dec (take 4 (drop 24 footer))
           in if magic \<noteq> sstable_magic then Inl (InvalidData ''Invalid SSTable magic'')
              else case read_int file index_offset 4 of Inl e \<Rightarrow> Inl e | Inr index_count \<Rightarrow>
                   case read_index file index_count (index_offset + 4) of Inl e \<Rightarrow> Inl e | Inr index \<Rightarrow>
                   case read_int file bloom_offset 4 of Inl e \<Rightarrow> Inl e | Inr bloom_len \<Rightarrow>
                   case read_exact file (bloom_offset + 4) bloom_len of Inl e \<Rightarrow> Inl e | Inr bloom_data \<Rightarrow>
                     Inr \<lparr>r_path = p, r_index = index,
                          r_bloom = (case bloom_from_bytes bloom_data of None \<Rightarrow> bloom_new sizing 1 | Some b \<Rightarrow> b),
                          r_count = count\<rparr>)"

definition reader_may_contain :: "sst_reader \<Rightarrow> bytes \<Rightarrow> bool io" where
  "reader_may_contain r key = (case bloom_may_contain (r_bloom r) key of None \<Rightarrow> Inl Panicked | Some b \<Rightarrow> Inr b)"

definition read_block :: "directory \<Rightarrow> sst_reader \<Rightarrow> index_entry \<Rightarrow> bytes io" where
  "read_block d r e = (case fmlookup d (r_path r) of None \<Rightarrow> Inl NotFound
     | Some file \<Rightarrow> read_exact file (ix_offset e) (ix_length e))"

text \<open>
  One turn of the loops of \<open>search_block\<close> and \<open>decode_block\<close>, which share its text: the entry at the head of \<open>rest\<close>,
  the part of the block from the cursor on, and what follows it, or \<open>None\<close> for a \<open>break\<close>.
\<close>

definition block_value :: "bytes \<Rightarrow> (bytes option \<times> bytes) option" where
  "block_value rest =
     (case rest of
        [] \<Rightarrow> None
      | marker # rest \<Rightarrow>
          if marker = value_data then
            if 4 > length rest then None
            else let val_len = le_dec (take 4 rest)
                 in if 4 + val_len > length rest then None
                    else Some (Some (take val_len (drop 4 rest)), drop (4 + val_len) rest)
          else Some (None, rest))"

definition block_entry :: "bytes \<Rightarrow> (kv \<times> bytes) option" where
  "block_entry rest =
     (if 4 > length rest then None
      else let key_len = le_dec (take 4 rest)
           in if 4 + key_len > length rest then None
              else map_option (\<lambda>(v, rest'). ((take key_len (drop 4 rest), v), rest')) (block_value (drop (4 + key_len) rest)))"

lemma block_value_shorter: "block_value rest = Some (v, rest') \<Longrightarrow> length rest' < length rest"
  by (auto simp: block_value_def Let_def split: list.splits if_splits)

lemma block_entry_shorter: "block_entry rest = Some (e, rest') \<Longrightarrow> length rest' < length rest"
  by (auto simp: block_entry_def Let_def split: if_splits dest!: block_value_shorter)

function search_block :: "bytes \<Rightarrow> bytes \<Rightarrow> bytes option option" where
  "search_block rest target =
     (if rest = [] then None
      else case block_entry rest of
             None \<Rightarrow> None
           | Some ((key, value), rest') \<Rightarrow>
               if key = target then Some value
               else if key > target then None
               else search_block rest' target)"
  by auto
termination by (relation "measure (length \<circ> fst)") (auto dest: block_entry_shorter)

function decode_block :: "bytes \<Rightarrow> kv list" where
  "decode_block rest =
     (if rest = [] then []
      else case block_entry rest of None \<Rightarrow> [] | Some (e, rest') \<Rightarrow> e # decode_block rest')"
  by auto
termination by (relation "measure length") (auto dest: block_entry_shorter)

declare search_block.simps [simp del] decode_block.simps [simp del]

text \<open>
  \<open>binary_search_by\<close> of the standard library: \<open>Inr i\<close> for \<open>Ok(i)\<close>, \<open>Inl i\<close> for \<open>Err(i)\<close>. On a strictly sorted list both
  results are unique, whatever the order of the probes.
\<close>

function bsearch :: "bytes list \<Rightarrow> bytes \<Rightarrow> nat \<Rightarrow> nat \<Rightarrow> nat + nat" where
  "bsearch ks k lo hi =
     (if lo < hi then
        let mid = lo + (hi - lo) div 2
        in if ks ! mid = k then Inr mid
           else if ks ! mid < k then bsearch ks k (mid + 1) hi
           else bsearch ks k lo mid
      else Inl lo)"
  by auto
termination by (relation "measure (\<lambda>(ks, k, lo, hi). hi - lo)") auto

declare bsearch.simps [simp del]

definition index_search :: "index_entry list \<Rightarrow> bytes \<Rightarrow> nat + nat" where
  "index_search idx k = bsearch (map ix_first idx) k 0 (length idx)"

definition reader_get :: "directory \<Rightarrow> sst_reader \<Rightarrow> bytes \<Rightarrow> bytes option option io" where
  "reader_get d r key =
     (case reader_may_contain r key of
        Inl e \<Rightarrow> Inl e
      | Inr False \<Rightarrow> Inr None
      | Inr True \<Rightarrow>
          let at = (\<lambda>i. case read_block d r (r_index r ! i) of Inl e \<Rightarrow> Inl e | Inr block \<Rightarrow> Inr (search_block block key))
          in case index_search (r_index r) key of
               Inr i \<Rightarrow> at i
             | Inl i \<Rightarrow> if i = 0 then Inr None else at (i - 1))"

fun iter_blocks :: "directory \<Rightarrow> sst_reader \<Rightarrow> index_entry list \<Rightarrow> kv list io" where
  "iter_blocks d r [] = Inr []"
| "iter_blocks d r (e # idx) =
     (case read_block d r e of Inl x \<Rightarrow> Inl x | Inr block \<Rightarrow>
      case iter_blocks d r idx of Inl x \<Rightarrow> Inl x | Inr rest \<Rightarrow> Inr (decode_block block @ rest))"

definition reader_iter :: "directory \<Rightarrow> sst_reader \<Rightarrow> kv list io" where
  "reader_iter d r = iter_blocks d r (r_index r)"

fun range_blocks :: "directory \<Rightarrow> sst_reader \<Rightarrow> bytes \<Rightarrow> bytes \<Rightarrow> nat list \<Rightarrow> kv list io" where
  "range_blocks d r a b [] = Inr []"
| "range_blocks d r a b (i # is) =
     (if i + 1 < length (r_index r) \<and> ix_first (r_index r ! (i + 1)) \<le> a then range_blocks d r a b is
      else if ix_first (r_index r ! i) > b then Inr []
      else case read_block d r (r_index r ! i) of Inl x \<Rightarrow> Inl x | Inr block \<Rightarrow>
           case range_blocks d r a b is of Inl x \<Rightarrow> Inl x | Inr rest \<Rightarrow>
             Inr (filter (\<lambda>(k, v). k \<ge> a \<and> k \<le> b) (decode_block block) @ rest))"

definition reader_range :: "directory \<Rightarrow> sst_reader \<Rightarrow> bytes \<Rightarrow> bytes \<Rightarrow> kv list io" where
  "reader_range d r a b =
     (let start_block = (case index_search (r_index r) a of Inr i \<Rightarrow> i | Inl i \<Rightarrow> if i = 0 then 0 else i - 1)
      in range_blocks d r a b [start_block..<length (r_index r)])"

section \<open>Blocks\<close>

definition enc_kvs :: "kv list \<Rightarrow> bytes" where
  "enc_kvs es = concat (map enc_kv es)"

abbreviation sorted_kvs :: "kv list \<Rightarrow> bool" where
  "sorted_kvs es \<equiv> sorted_wrt (<) (map fst es)"

definition kv_small :: "kv \<Rightarrow> bool" where
  "kv_small e \<longleftrightarrow> length (fst e) < 2 ^ 32 \<and> (\<forall>v. snd e = Some v \<longrightarrow> length v < 2 ^ 32)"

lemma enc_kvs_simps [simp]:
  "enc_kvs [] = []" "enc_kvs (e # es) = enc_kv e @ enc_kvs es" "enc_kvs (xs @ ys) = enc_kvs xs @ enc_kvs ys"
  by (simp_all add: enc_kvs_def)

lemma length_enc_kv:
  "length (enc_kv e) = 5 + length (fst e) + (case snd e of None \<Rightarrow> 0 | Some v \<Rightarrow> 4 + length v)"
  by (cases e) (simp add: enc_kv_def split: option.split)

lemma enc_kv_not_Nil [simp]: "enc_kv e \<noteq> []"
  using length_enc_kv [of e] by auto

lemma enc_kvs_Nil_iff [simp]: "enc_kvs es = [] \<longleftrightarrow> es = []"
  by (cases es) auto

lemma kv_small_if_short: "length (enc_kv e) < 2 ^ 32 \<Longrightarrow> kv_small e"
  by (auto simp: kv_small_def length_enc_kv split: option.splits)

lemma kv_small_all: "length (enc_kvs es) < 2 ^ 32 \<Longrightarrow> \<forall>e\<in>set es. kv_small e"
  by (induction es) (auto intro: kv_small_if_short)

lemma block_value_enc:
  assumes "\<forall>x. v = Some x \<longrightarrow> length x < 2 ^ 32"
  shows "block_value ((case v of Some x \<Rightarrow> value_data # le_enc 4 (length x) @ x | None \<Rightarrow> [value_tombstone]) @ rest) =
    Some (v, rest)"
proof (cases v)
  case (Some x)
  then have "le_dec (le_enc 4 (length x)) = length x" using assms by (intro le_dec_enc_small) simp
  with Some show ?thesis by (simp add: block_value_def Let_def)
qed (simp add: block_value_def value_data_def value_tombstone_def)

lemma block_entry_enc:
  assumes "kv_small e"
  shows "block_entry (enc_kv e @ rest) = Some (e, rest)"
proof -
  obtain k v where e: "e = (k, v)" by fastforce
  have k: "le_dec (le_enc 4 (length k)) = length k" using assms e by (intro le_dec_enc_small) (simp add: kv_small_def)
  have v: "block_value ((case v of Some x \<Rightarrow> value_data # le_enc 4 (length x) @ x | None \<Rightarrow> [value_tombstone]) @ rest) =
      Some (v, rest)"
    using assms e by (intro block_value_enc) (simp add: kv_small_def)
  show ?thesis
    using k v unfolding block_entry_def e enc_kv_def by (simp add: Let_def)
qed

lemma decode_block_enc: "\<forall>e\<in>set es. kv_small e \<Longrightarrow> decode_block (enc_kvs es) = es"
proof (induction es)
  case (Cons e es)
  then show ?case by (subst decode_block.simps) (simp add: block_entry_enc)
qed (simp add: decode_block.simps)

lemma map_of_below: "sorted_kvs ((a, v) # es) \<Longrightarrow> k < a \<Longrightarrow> map_of es k = None"
  by (force simp: map_of_eq_None_iff)

lemma search_block_enc: "\<forall>e\<in>set es. kv_small e \<Longrightarrow> sorted_kvs es \<Longrightarrow> search_block (enc_kvs es) k = map_of es k"
proof (induction es)
  case (Cons e es)
  obtain a v where e: "e = (a, v)" by fastforce
  have "kv_small (a, v)" using Cons.prems e by simp
  moreover have "k < a \<Longrightarrow> map_of es k = None" using map_of_below Cons.prems(2) e by blast
  ultimately show ?case
    using Cons e by (subst search_block.simps) (auto simp: block_entry_enc)
qed (simp add: search_block.simps)

section \<open>Binary search\<close>

text \<open>\<open>Ok(i)\<close>: \<open>k\<close> is at position \<open>i\<close>; \<open>Err(i)\<close>: \<open>i\<close> separates the smaller keys from the larger ones.\<close>

definition found_at :: "bytes list \<Rightarrow> bytes \<Rightarrow> nat + nat \<Rightarrow> bool" where
  "found_at ks k r \<longleftrightarrow> (case r of
      Inr i \<Rightarrow> i < length ks \<and> ks ! i = k
    | Inl i \<Rightarrow> i \<le> length ks \<and> (\<forall>j < i. ks ! j < k) \<and> (\<forall>j < length ks. i \<le> j \<longrightarrow> k < ks ! j))"

lemma bsearch_range:
  assumes "sorted_wrt (<) ks" "lo \<le> hi" "hi \<le> length ks"
    "\<forall>i < lo. ks ! i < k" "\<forall>i < length ks. hi \<le> i \<longrightarrow> k < ks ! i"
  shows "found_at ks k (bsearch ks k lo hi)"
  using assms
proof (induction ks k lo hi rule: bsearch.induct)
  case (1 ks k lo hi)
  let ?mid = "lo + (hi - lo) div 2"
  show ?case
  proof (cases "lo < hi")
    case False
    with 1 show ?thesis by (subst bsearch.simps) (auto simp: found_at_def)
  next
    case lt: True
    then have mid: "lo \<le> ?mid" "?mid < hi" "?mid < length ks" using "1.prems"(3) by auto
    have mono: "i < j \<Longrightarrow> j < length ks \<Longrightarrow> ks ! i < ks ! j" for i j
      using "1.prems"(1) by (rule sorted_wrt_nth_less)
    consider "ks ! ?mid = k" | "ks ! ?mid < k" "ks ! ?mid \<noteq> k" | "k < ks ! ?mid" "\<not> ks ! ?mid < k" "ks ! ?mid \<noteq> k"
      by (metis linorder_less_linear)
    then show ?thesis
    proof cases
      case 1
      with lt mid show ?thesis by (subst bsearch.simps) (simp add: found_at_def)
    next
      case 2
      then have "\<forall>i < ?mid + 1. ks ! i < k" using mono mid by (metis less_SucE less_trans Suc_eq_plus1)
      with 2 have "found_at ks k (bsearch ks k (?mid + 1) hi)"
        using "1.prems" mid by (intro "1.IH"(1) [OF lt refl]) auto
      with 2 lt show ?thesis by (subst bsearch.simps) (simp add: Let_def)
    next
      case 3
      then have "\<forall>i < length ks. ?mid \<le> i \<longrightarrow> k < ks ! i" using mono mid by (metis le_neq_implies_less less_trans)
      with 3 have "found_at ks k (bsearch ks k lo ?mid)"
        using "1.prems" mid by (intro "1.IH"(2) [OF lt refl]) auto
      with 3 lt show ?thesis by (subst bsearch.simps) (simp add: Let_def)
    qed
  qed
qed

lemma index_search_found: "sorted_wrt (<) (map ix_first idx) \<Longrightarrow> found_at (map ix_first idx) k (index_search idx k)"
  unfolding index_search_def by (rule bsearch_range) auto

section \<open>What the writer writes\<close>

text \<open>The block index of the blocks \<open>bs\<close> when the first one starts at \<open>off\<close>.\<close>

fun index_of :: "nat \<Rightarrow> kv list list \<Rightarrow> index_entry list" where
  "index_of off [] = []"
| "index_of off (b # bs) =
     \<lparr>ix_first = fst (hd b), ix_offset = off, ix_length = length (enc_kvs b)\<rparr> # index_of (off + length (enc_kvs b)) bs"

lemma index_of_snoc:
  "index_of off (bs @ [b]) = index_of off bs @
     [\<lparr>ix_first = fst (hd b), ix_offset = off + length (enc_kvs (concat bs)), ix_length = length (enc_kvs b)\<rparr>]"
  by (induction off bs rule: index_of.induct) (auto simp: add.assoc)

lemma length_index_of [simp]: "length (index_of off bs) = length bs"
  by (induction off bs rule: index_of.induct) auto

lemma ix_first_index_of: "map ix_first (index_of off bs) = map (\<lambda>b. fst (hd b)) bs"
  by (induction off bs rule: index_of.induct) auto

text \<open>
  The writer \<open>w\<close>, started with the filter \<open>b0\<close>, has taken the entries \<open>es\<close>: the blocks \<open>bs\<close> are in the file and \<open>cur\<close> is
  in the buffer.
\<close>

definition opt_key :: "(kv list \<Rightarrow> kv) \<Rightarrow> kv list \<Rightarrow> bytes option" where
  "opt_key f es = (if es = [] then None else Some (fst (f es)))"

definition writer_inv :: "bloom \<Rightarrow> kv list \<Rightarrow> kv list list \<Rightarrow> kv list \<Rightarrow> sst_writer \<Rightarrow> bool" where
  "writer_inv b0 es bs cur w \<longleftrightarrow>
     concat bs @ cur = es \<and> [] \<notin> set bs \<and>
     insert_all (map fst es) b0 = Some (w_bloom w) \<and>
     w_out w = enc_kvs (concat bs) \<and> w_index w = index_of 0 bs \<and> cur_offset w = length (enc_kvs (concat bs)) \<and>
     cur_block w = enc_kvs cur \<and> cur_first w = opt_key hd cur \<and>
     w_first w = opt_key hd es \<and> w_last w = opt_key last es \<and> w_count w = length es"

lemma insert_all_snoc: "insert_all ks b = Some b1 \<Longrightarrow> insert_all (ks @ [k]) b = bloom_insert k b1"
  by (induction ks b rule: insert_all.induct) (auto split: option.splits)

lemma opt_key_snoc: "opt_key hd (es @ [e]) = (if opt_key hd es = None then Some (fst e) else opt_key hd es)"
  by (simp add: opt_key_def)

lemma flush_block_inv:
  assumes "writer_inv b0 es bs cur w" "length (enc_kvs es) < 2 ^ 32"
  shows "\<exists>bs. writer_inv b0 es bs [] (flush_block w)"
proof (cases "cur = []")
  case True
  then show ?thesis using assms(1) by (auto simp: flush_block_def writer_inv_def)
next
  case False
  have "length (enc_kvs cur) < 2 ^ 32" using assms by (auto simp: writer_inv_def)
  then have "writer_inv b0 es (bs @ [cur]) [] (flush_block w)"
    using assms(1) False unfolding writer_inv_def flush_block_def
    by (auto simp: opt_key_def index_of_snoc Let_def)
  then show ?thesis by blast
qed

lemma flush_block_path [simp]: "w_path (flush_block w) = w_path w"
  by (simp add: flush_block_def Let_def)

lemma writer_add_inv:
  assumes "writer_inv b0 es bs cur w" "bloom_wf b0" "length (enc_kvs (es @ [(k, v)])) < 2 ^ 32"
  shows "\<exists>w' bs' cur'. writer_add w k v = Inr w' \<and> writer_inv b0 (es @ [(k, v)]) bs' cur' w' \<and> w_path w' = w_path w"
proof -
  obtain b1 where b1: "insert_all (map fst (es @ [(k, v)])) b0 = Some b1" using insert_all_has [OF assms(2)] by blast
  then have ins: "bloom_insert k (w_bloom w) = Some b1"
    using insert_all_snoc [of "map fst es" b0 "w_bloom w" k] assms(1) by (simp add: writer_inv_def)
  let ?w = "w\<lparr>w_bloom := b1, w_first := (if w_first w = None then Some k else w_first w), w_last := Some k,
      w_count := w_count w + 1, cur_first := (if cur_first w = None then Some k else cur_first w),
      cur_block := cur_block w @ enc_kv (k, v)\<rparr>"
  have inv: "writer_inv b0 (es @ [(k, v)]) bs (cur @ [(k, v)]) ?w"
    using assms(1) b1 by (auto simp: writer_inv_def opt_key_snoc opt_key_def)
  have "writer_add w k v = Inr (if length (cur_block ?w) \<ge> block_size ?w then flush_block ?w else ?w)"
    unfolding writer_add_def ins by (simp add: Let_def)
  then show ?thesis
    using inv flush_block_inv [OF inv assms(3)]
    by (cases "length (cur_block ?w) \<ge> block_size ?w") (fastforce, fastforce)
qed

lemma writer_add_all_inv:
  "writer_inv b0 es bs cur w \<Longrightarrow> bloom_wf b0 \<Longrightarrow> length (enc_kvs (es @ es')) < 2 ^ 32 \<Longrightarrow>
     \<exists>w' bs' cur'. writer_add_all w es' = Inr w' \<and> writer_inv b0 (es @ es') bs' cur' w' \<and> w_path w' = w_path w"
proof (induction es' arbitrary: es bs cur w)
  case (Cons e es')
  obtain k v where e: "e = (k, v)" by fastforce
  obtain w1 bs1 cur1 where 1: "writer_add w k v = Inr w1" "writer_inv b0 (es @ [(k, v)]) bs1 cur1 w1" "w_path w1 = w_path w"
    using writer_add_inv [OF Cons.prems(1,2), of k v] Cons.prems(3) e by auto
  then show ?case using Cons.IH [OF 1(2) Cons.prems(2)] Cons.prems(3) e by auto
qed auto

lemma writer_new_inv: "writer_inv (bloom_new sizing (max 1 n)) [] [] [] (writer_new sizing p n)"
  by (simp add: writer_inv_def writer_new_def opt_key_def)

text \<open>The file of the blocks \<open>bs\<close> with the filter \<open>bl\<close>.\<close>

definition index_bytes :: "index_entry list \<Rightarrow> bytes" where
  "index_bytes idx = le_enc 4 (length idx) @ concat (map enc_ix idx)"

definition sst_footer :: "nat \<Rightarrow> nat \<Rightarrow> nat \<Rightarrow> bytes" where
  "sst_footer io bo n = le_enc 8 io @ le_enc 8 bo @ le_enc 8 n @ le_enc 4 sstable_magic"

definition sst_image :: "kv list list \<Rightarrow> bloom \<Rightarrow> bytes" where
  "sst_image bs bl =
     (let data = enc_kvs (concat bs); idx = index_bytes (index_of 0 bs); fb = bloom_to_bytes bl
      in data @ idx @ le_enc 4 (length fb) @ fb @
         sst_footer (length data) (length data + length idx) (length (concat bs)))"

lemma length_enc_ix [simp]: "length (enc_ix e) = 16 + length (ix_first e)"
  by (simp add: enc_ix_def)

lemma length_index_bytes: "length (index_bytes idx) = 4 + sum_list (map (\<lambda>e. 4 + length (ix_first e) + 8 + 4) idx)"
  by (simp add: index_bytes_def length_concat comp_def)

lemma index_of_bounds:
  "e \<in> set (index_of off bs) \<Longrightarrow> [] \<notin> set bs \<Longrightarrow>
    length (ix_first e) \<le> length (enc_kvs (concat bs)) \<and> ix_offset e + ix_length e \<le> off + length (enc_kvs (concat bs))"
proof (induction off bs rule: index_of.induct)
  case (2 off b bs)
  have "length (fst (hd b)) \<le> length (enc_kvs b)" using 2 by (cases b) (auto simp: length_enc_kv)
  with 2 show ?case by auto
qed simp

lemma blocks_le_bytes: "[] \<notin> set bs \<Longrightarrow> length bs \<le> length (enc_kvs (concat bs))"
proof (induction bs)
  case (Cons b bs)
  then have "enc_kvs b \<noteq> []" by auto
  then have "1 \<le> length (enc_kvs b)" by (cases "enc_kvs b") auto
  with Cons show ?case by simp
qed simp

lemma entries_le_bytes: "length es \<le> length (enc_kvs es)"
  by (induction es) (auto simp: length_enc_kv)

text \<open>
  A bound on the size of the file of a table. A table below 4 GiB by this bound has no length that the casts to \<open>u32\<close>
  would cut.
\<close>

definition table_bytes :: "bloom_sizing \<Rightarrow> kv list \<Rightarrow> nat" where
  "table_bytes sizing es = 52 + 18 * length (enc_kvs es) + bloom_size_bytes (bloom_new sizing (length es))"

definition fits :: "bloom_sizing \<Rightarrow> kv list \<Rightarrow> bool" where
  "fits sizing es \<longleftrightarrow> table_bytes sizing es < 2 ^ 32"

lemma index_keys_bytes:
  "[] \<notin> set bs \<Longrightarrow> sum_list (map (\<lambda>e. length (ix_first e)) (index_of off bs)) \<le> length (enc_kvs (concat bs))"
proof (induction off bs rule: index_of.induct)
  case (2 off b bs)
  have "length (fst (hd b)) \<le> length (enc_kvs b)" using 2 by (cases b) (auto simp: length_enc_kv)
  with 2 show ?case by auto
qed simp

lemma sst_image_bytes:
  assumes "[] \<notin> set bs"
  shows "length (sst_image bs bl) \<le> 52 + 18 * length (enc_kvs (concat bs)) + bloom_size_bytes bl"
proof -
  have "sum_list (map (\<lambda>e. 4 + length (ix_first e) + 8 + 4) (index_of 0 bs)) =
      16 * length bs + sum_list (map (\<lambda>e. length (ix_first e)) (index_of 0 bs))"
    by (simp add: sum_list_addf sum_list_triv)
  then show ?thesis
    using index_keys_bytes [OF assms, of 0] blocks_le_bytes [OF assms]
    by (simp add: sst_image_def Let_def length_index_bytes length_bloom_to_bytes bloom_size_bytes_def sst_footer_def)
qed

text \<open>A writer that has taken the entries of a table, and what \<open>finish\<close> returns.\<close>

definition write_table :: "bloom_sizing \<Rightarrow> nat \<Rightarrow> nat \<Rightarrow> path \<Rightarrow> kv list \<Rightarrow> (sst_meta \<times> bytes) io" where
  "write_table sizing sst_id level p es =
     (case writer_add_all (writer_new sizing p (length es)) es of
        Inl e \<Rightarrow> Inl e
      | Inr w \<Rightarrow> Inr (writer_finish w sst_id level))"

definition table_meta :: "nat \<Rightarrow> nat \<Rightarrow> path \<Rightarrow> kv list \<Rightarrow> nat \<Rightarrow> sst_meta" where
  "table_meta sst_id level p es len = \<lparr>m_id = sst_id, m_level = level, m_path = p, first_key = fst (hd es), last_key = fst (last es),
     entry_count = length es, size_bytes = len\<rparr>"

lemma writer_finish_image:
  assumes "writer_inv b0 es bs [] (flush_block w)" "es \<noteq> []"
  shows "writer_finish w sst_id level =
    (table_meta sst_id level (w_path w) es (length (sst_image bs (w_bloom (flush_block w)))), sst_image bs (w_bloom (flush_block w)))"
proof -
  let ?w = "flush_block w"
  have w: "w_out ?w = enc_kvs (concat bs)" "w_index ?w = index_of 0 bs" "cur_offset ?w = length (enc_kvs (concat bs))"
      "cur_block ?w = []" "w_first ?w = Some (fst (hd es))" "w_last ?w = Some (fst (last es))" "w_count ?w = length es"
      "concat bs = es"
    using assms by (auto simp: writer_inv_def opt_key_def)
  show ?thesis
    unfolding writer_finish_def Let_def w sst_image_def length_index_bytes
    by (simp add: w(8) table_meta_def sst_footer_def index_bytes_def add.assoc)
qed

text \<open>
  A file that holds the entries \<open>es\<close> in the blocks \<open>bs\<close> behind a filter that knows every key.
\<close>

definition table_image :: "kv list \<Rightarrow> bytes \<Rightarrow> bool" where
  "table_image es file \<longleftrightarrow> (\<exists>bs bl. file = sst_image bs bl \<and> concat bs = es \<and> [] \<notin> set bs \<and> bloom_wf bl \<and>
     num_hashes bl \<le> 30 \<and> bl_count bl = length es \<and> (\<forall>k\<in>fst ` set es. bloom_has bl k))"

lemma write_table_image:
  assumes "length (enc_kvs es) < 2 ^ 32" "es \<noteq> []"
  shows "\<exists>file. write_table sizing sst_id level p es = Inr (table_meta sst_id level p es (length file), file) \<and>
    table_image es file \<and> length file \<le> table_bytes sizing es"
proof -
  let ?b0 = "bloom_new sizing (max 1 (length es))"
  obtain w bs cur where w: "writer_add_all (writer_new sizing p (length es)) es = Inr w" "writer_inv ?b0 es bs cur w" "w_path w = p"
    using writer_add_all_inv [OF writer_new_inv [of sizing "length es" p] bloom_new_wf, of es] assms(1)
    by (auto simp: writer_new_def)
  obtain bs' where bs': "writer_inv ?b0 es bs' [] (flush_block w)" using flush_block_inv [OF w(2) assms(1)] by blast
  let ?bl = "w_bloom (flush_block w)"
  have ins: "insert_all (map fst es) ?b0 = Some ?bl" using bs' by (simp add: writer_inv_def)
  have new: "bl_count ?b0 = 0" "num_hashes ?b0 \<le> 30" by (simp_all add: bloom_new_def bloom_alloc_def split: prod.split)
  have ext: "bloom_ext ?b0 ?bl" and "bl_count ?bl = length es" and "\<forall>k\<in>set (map fst es). bloom_has ?bl k"
    using insert_all_has [OF bloom_new_wf, of "map fst es" sizing "max 1 (length es)"] ins new(1) by auto
  then have "table_image es (sst_image bs' ?bl)"
    using bs' new(2) unfolding table_image_def by (intro exI [of _ bs'] exI [of _ ?bl]) (auto simp: writer_inv_def bloom_ext_def)
  moreover have "length (sst_image bs' ?bl) \<le> table_bytes sizing es"
  proof -
    have "bloom_size_bytes ?bl = bloom_size_bytes ?b0"
      using ext bloom_new_wf [of sizing "max 1 (length es)"] by (simp add: bloom_ext_def bloom_wf_def bloom_size_bytes_def)
    moreover have "?b0 = bloom_new sizing (length es)" by (simp add: bloom_new_def)
    ultimately show ?thesis
      using sst_image_bytes [of bs' ?bl] bs' by (auto simp: table_bytes_def writer_inv_def)
  qed
  ultimately show ?thesis using w writer_finish_image [OF bs' assms(2)] by (simp add: write_table_def)
qed

section \<open>What the reader reads\<close>

lemma read_exact_at: "pos = length pre \<Longrightarrow> n = length x \<Longrightarrow> read_exact (pre @ x @ post) pos n = Inr x"
  by (simp add: read_exact_def)

lemma read_int_at: "pos = length pre \<Longrightarrow> x < 256 ^ n \<Longrightarrow> read_int (pre @ le_enc n x @ post) pos n = Inr x"
  by (simp add: read_int_def read_exact_at le_dec_enc_small)

definition ix_small :: "index_entry \<Rightarrow> bool" where
  "ix_small e \<longleftrightarrow> length (ix_first e) < 2 ^ 32 \<and> ix_offset e < 2 ^ 64 \<and> ix_length e < 2 ^ 32"

lemma read_index_enc:
  "\<forall>e\<in>set idx. ix_small e \<Longrightarrow> pos = length pre \<Longrightarrow>
    read_index (pre @ concat (map enc_ix idx) @ post) (length idx) pos = Inr idx"
proof (induction idx arbitrary: pre pos)
  case (Cons e idx)
  let ?k = "ix_first e" and ?t = "concat (map enc_ix idx) @ post"
  let ?f = "pre @ concat (map enc_ix (e # idx)) @ post"
  have small: "length ?k < 256 ^ 4" "ix_offset e < 256 ^ 8" "ix_length e < 256 ^ 4"
    using Cons.prems(1) by (simp_all add: ix_small_def)
  have f: "?f = pre @ le_enc 4 (length ?k) @ ?k @ le_enc 8 (ix_offset e) @ le_enc 4 (ix_length e) @ ?t"
    by (simp add: enc_ix_def)
  have 1: "read_int ?f pos 4 = Inr (length ?k)"
    unfolding f using small Cons.prems(2) by (intro read_int_at) simp_all
  have 2: "read_exact ?f (pos + 4) (length ?k) = Inr ?k"
    using read_exact_at [of "pos + 4" "pre @ le_enc 4 (length ?k)" _ ?k] Cons.prems(2) unfolding f by simp
  have 3: "read_int ?f (pos + 4 + length ?k) 8 = Inr (ix_offset e)"
    using read_int_at [of "pos + 4 + length ?k" "pre @ le_enc 4 (length ?k) @ ?k" "ix_offset e" 8] Cons.prems(2) small unfolding f by simp
  have 4: "read_int ?f (pos + 12 + length ?k) 4 = Inr (ix_length e)"
    using read_int_at [of "pos + 12 + length ?k" "pre @ le_enc 4 (length ?k) @ ?k @ le_enc 8 (ix_offset e)" "ix_length e" 4] Cons.prems(2) small
    unfolding f by simp
  have 5: "read_index ?f (length idx) (pos + 16 + length ?k) = Inr idx"
    using Cons.IH [of "pos + 16 + length ?k" "pre @ enc_ix e"] Cons.prems by simp
  show ?case by (simp only: list.size read_index.simps add_Suc_right add_0_right 1 2 3 4 5 sum.case) simp
qed simp

text \<open>Opening the file of a table returns its index and its filter.\<close>

lemma reader_open_image:
  assumes "fmlookup d p = Some (sst_image bs bl)" "length (sst_image bs bl) < 2 ^ 32" "[] \<notin> set bs" "bloom_wf bl"
    "num_hashes bl \<le> 30" "bl_count bl = length (concat bs)"
  shows "reader_open sizing d p = Inr \<lparr>r_path = p, r_index = index_of 0 bs, r_bloom = bl, r_count = length (concat bs)\<rparr>"
proof -
  let ?D = "enc_kvs (concat bs)" and ?idx = "index_of 0 bs" and ?fb = "bloom_to_bytes bl" and ?f = "sst_image bs bl"
  let ?I = "index_bytes ?idx" and ?n = "length (concat bs)"
  let ?F = "sst_footer (length ?D) (length ?D + length ?I) ?n"
  have f: "?f = (?D @ ?I @ le_enc 4 (length ?fb) @ ?fb) @ ?F" by (simp add: sst_image_def Let_def)
  have lenF: "length ?F = 28" by (simp add: sst_footer_def)
  have bound: "length ?D < 2 ^ 32" "length ?D + length ?I < 2 ^ 32" "length ?fb < 2 ^ 32"
    using assms(2) unfolding f by auto
  have n: "?n < 2 ^ 32" "length ?idx < 2 ^ 32"
    using bound(1) entries_le_bytes [of "concat bs"] blocks_le_bytes [OF assms(3)] by simp_all
  have footer: "drop (length ?f - 28) ?f = ?F" using lenF unfolding f by simp
  have ints: "le_dec (take 8 ?F) = length ?D" "le_dec (take 8 (drop 8 ?F)) = length ?D + length ?I"
      "le_dec (take 8 (drop 16 ?F)) = ?n" "le_dec (take 4 (drop 24 ?F)) = sstable_magic"
    using bound n by (simp_all add: sst_footer_def le_dec_enc_small sstable_magic_def)
  have r1: "read_int ?f (length ?D) 4 = Inr (length ?idx)"
    using read_int_at [of _ ?D "length ?idx" 4] n by (simp add: f index_bytes_def)
  have small: "\<forall>e\<in>set ?idx. ix_small e"
    using index_of_bounds [OF _ assms(3), of _ 0] bound(1) by (fastforce simp: ix_small_def)
  have r2: "read_index ?f (length ?idx) (length ?D + 4) = Inr ?idx"
    using read_index_enc [OF small, of _ "?D @ le_enc 4 (length ?idx)"] by (simp add: f index_bytes_def)
  have r3: "read_int ?f (length ?D + length ?I) 4 = Inr (length ?fb)"
    using read_int_at [of "length ?D + length ?I" "?D @ ?I" "length ?fb" 4] bound(3) by (simp add: f)
  have r4: "read_exact ?f (length ?D + length ?I + 4) (length ?fb) = Inr ?fb"
    using read_exact_at [of "length ?D + length ?I + 4" "?D @ ?I @ le_enc 4 (length ?fb)" "length ?fb" ?fb ?F] by (simp add: f)
  have "8 * length (bl_bits bl) < 2 ^ 32" using bound(3) by (simp add: length_bloom_to_bytes)
  then have "bloom_small bl" using assms(4-6) n(1) by (simp add: bloom_small_def bloom_wf_def)
  then have fb: "bloom_from_bytes ?fb = Some bl" using assms(4) by (rule bloom_from_to_bytes [rotated])
  have len: "\<not> length ?f < 28" using lenF unfolding f by simp
  show ?thesis
    unfolding reader_open_def assms(1) option.case footer Let_def ints if_not_P [OF len] r1 sum.case r2 r3 r4 fb by simp
qed

text \<open>Reading back a block.\<close>

lemma index_of_nth:
  "j < length bs \<Longrightarrow> index_of off bs ! j =
    \<lparr>ix_first = fst (hd (bs ! j)), ix_offset = off + length (enc_kvs (concat (take j bs))), ix_length = length (enc_kvs (bs ! j))\<rparr>"
proof (induction off bs arbitrary: j rule: index_of.induct)
  case (2 off b bs)
  then show ?case by (cases j) (simp_all add: add.assoc)
qed simp

lemma concat_split_nth: "j < length bs \<Longrightarrow> concat bs = concat (take j bs) @ bs ! j @ concat (drop (Suc j) bs)"
  by (metis concat_append concat.simps(2) id_take_nth_drop)

lemma read_block_image:
  assumes "fmlookup d (r_path r) = Some (enc_kvs (concat bs) @ post)" "j < length bs"
  shows "read_block d r (index_of 0 bs ! j) = Inr (enc_kvs (bs ! j))"
proof -
  have "enc_kvs (concat bs) @ post = enc_kvs (concat (take j bs)) @ enc_kvs (bs ! j) @ enc_kvs (concat (drop (Suc j) bs)) @ post"
    by (subst concat_split_nth [OF assms(2)]) simp
  then show ?thesis
    unfolding read_block_def index_of_nth [OF assms(2)] assms(1) by (simp add: read_exact_at)
qed

section \<open>Blocks of a sorted table\<close>

lemma set_take_nth: "set (take j bs) = {bs ! i | i. i < j \<and> i < length bs}"
  unfolding set_conv_nth by (auto, metis nth_take)

lemma set_drop_nth: "set (drop j bs) = {bs ! i | i. j \<le> i \<and> i < length bs}"
proof -
  have "bs ! i \<in> set (drop j bs)" if "j \<le> i" "i < length bs" for i
    using that nth_mem [of "i - j" "drop j bs"] by simp
  moreover have "\<exists>i. b = bs ! i \<and> j \<le> i \<and> i < length bs" if V: "b \<in> set (drop j bs)" for b
  proof -
    obtain i where "i < length (drop j bs)" "drop j bs ! i = b" using V unfolding in_set_conv_nth by blast
    then show ?thesis by (intro exI [of _ "j + i"]) auto
  qed
  ultimately show ?thesis by blast
qed

lemma in_concat_take: "x \<in> set (concat (take j bs)) \<longleftrightarrow> (\<exists>i < j. i < length bs \<and> x \<in> set (bs ! i))"
  unfolding set_concat set_take_nth by blast

lemma in_concat_drop: "x \<in> set (concat (drop j bs)) \<longleftrightarrow> (\<exists>i < length bs. j \<le> i \<and> x \<in> set (bs ! i))"
  unfolding set_concat set_drop_nth by blast

lemma block_keys_less:
  assumes "sorted_kvs (concat bs)" "[] \<notin> set bs" "i < j" "j < length bs" "x \<in> set (bs ! i)"
  shows "fst x < fst (hd (bs ! j))"
proof -
  have "x \<in> set (concat (take j bs))" using assms(3-5) less_trans unfolding in_concat_take by blast
  moreover have "hd (bs ! j) \<in> set (bs ! j)" using assms(2,4) by (intro hd_in_set) (metis nth_mem)
  ultimately show ?thesis
    using assms(1) unfolding concat_split_nth [OF assms(4)] map_append sorted_wrt_append set_append set_map by blast
qed

lemma block_hd_le:
  assumes "sorted_kvs (concat bs)" "j < length bs" "x \<in> set (bs ! j)"
  shows "fst (hd (bs ! j)) \<le> fst x"
proof -
  have "sorted_kvs (bs ! j)" using assms(1) unfolding concat_split_nth [OF assms(2)] by (simp add: sorted_wrt_append)
  then show ?thesis using assms(3) by (cases "bs ! j") (auto intro: less_imp_le)
qed

lemma blocks_sorted_index:
  assumes "sorted_kvs (concat bs)" "[] \<notin> set bs"
  shows "sorted_wrt (<) (map ix_first (index_of 0 bs))"
proof -
  have "fst (hd (bs ! i)) < fst (hd (bs ! j))" if "i < j" "j < length bs" for i j
    using that assms(2) by (intro block_keys_less [OF assms that] hd_in_set) (metis nth_mem order.strict_trans)
  then show ?thesis by (simp add: ix_first_index_of sorted_wrt_iff_nth_less)
qed

lemma map_of_other_blocks:
  assumes "sorted_kvs (concat bs)" "[] \<notin> set bs" "j < length bs" "fst (hd (bs ! j)) \<le> k"
    "\<forall>i < length bs. j < i \<longrightarrow> k < fst (hd (bs ! i))"
  shows "map_of (concat bs) k = map_of (bs ! j) k"
proof -
  have "map_of (concat (take j bs)) k = None"
  proof -
    have "fst x < k" if "x \<in> set (bs ! i)" "i < j" for x i
      using block_keys_less [OF assms(1,2) that(2) assms(3) that(1)] assms(4) by simp
    then have "\<forall>x \<in> set (concat (take j bs)). fst x < k" using in_concat_take [of _ j bs] by blast
    then show ?thesis unfolding map_of_eq_None_iff by force
  qed
  moreover have "map_of (concat (drop (Suc j) bs)) k = None"
  proof -
    have "k < fst x" if "x \<in> set (bs ! i)" "j < i" "i < length bs" for x i
      using assms(5) that(2,3) by (intro less_le_trans [OF _ block_hd_le [OF assms(1) that(3,1)]]) simp
    then have "\<forall>x \<in> set (concat (drop (Suc j) bs)). k < fst x" using in_concat_drop [of _ "Suc j" bs] Suc_le_lessD by blast
    then show ?thesis unfolding map_of_eq_None_iff by force
  qed
  ultimately show ?thesis
    by (subst concat_split_nth [OF assms(3)]) (simp add: map_add_def split: option.split)
qed

section \<open>Lookup, scan and range scan of a table\<close>

text \<open>A file of the directory that holds the sorted entries \<open>es\<close>, short enough for the \<open>u32\<close> fields.\<close>

definition table_at :: "directory \<Rightarrow> path \<Rightarrow> kv list \<Rightarrow> bool" where
  "table_at d p es \<longleftrightarrow> (\<exists>file. fmlookup d p = Some file \<and> table_image es file \<and> length file < 2 ^ 32 \<and> sorted_kvs es)"

lemma table_at_reader:
  assumes "table_at d p es"
  obtains bs bl post where "reader_open sizing d p = Inr \<lparr>r_path = p, r_index = index_of 0 bs, r_bloom = bl, r_count = length es\<rparr>"
    "concat bs = es" "[] \<notin> set bs" "bloom_wf bl" "\<forall>k\<in>fst ` set es. bloom_has bl k" "sorted_kvs es"
    "\<forall>e\<in>set es. kv_small e" "fmlookup d p = Some (enc_kvs (concat bs) @ post)"
proof -
  obtain bs bl where f: "fmlookup d p = Some (sst_image bs bl)" "length (sst_image bs bl) < 2 ^ 32" "concat bs = es"
      "[] \<notin> set bs" "bloom_wf bl" "num_hashes bl \<le> 30" "bl_count bl = length es" "\<forall>k\<in>fst ` set es. bloom_has bl k" "sorted_kvs es"
    using assms by (auto simp: table_at_def table_image_def)
  have "length (enc_kvs es) < 2 ^ 32" using f(2,3) by (simp add: sst_image_def Let_def)
  then have small: "\<forall>e\<in>set es. kv_small e" by (rule kv_small_all)
  have image: "fmlookup d p = Some (enc_kvs (concat bs) @ drop (length (enc_kvs (concat bs))) (sst_image bs bl))"
    using f(1) by (simp add: sst_image_def Let_def)
  have "reader_open sizing d p = Inr \<lparr>r_path = p, r_index = index_of 0 bs, r_bloom = bl, r_count = length es\<rparr>"
    using reader_open_image [OF f(1,2,4,5,6)] f(3,7) by simp
  then show thesis using that f small image by blast
qed

definition sst_get :: "bloom_sizing \<Rightarrow> directory \<Rightarrow> path \<Rightarrow> bytes \<Rightarrow> bytes option option io" where
  "sst_get sizing d p key = (case reader_open sizing d p of Inl e \<Rightarrow> Inl e | Inr r \<Rightarrow> reader_get d r key)"

definition sst_iter :: "bloom_sizing \<Rightarrow> directory \<Rightarrow> path \<Rightarrow> kv list io" where
  "sst_iter sizing d p = (case reader_open sizing d p of Inl e \<Rightarrow> Inl e | Inr r \<Rightarrow> reader_iter d r)"

definition sst_range :: "bloom_sizing \<Rightarrow> directory \<Rightarrow> path \<Rightarrow> bytes \<Rightarrow> bytes \<Rightarrow> kv list io" where
  "sst_range sizing d p a b = (case reader_open sizing d p of Inl e \<Rightarrow> Inl e | Inr r \<Rightarrow> reader_range d r a b)"

text \<open>The block in which the reader looks for a key.\<close>

lemma get_in_block:
  assumes "sorted_kvs (concat bs)" "[] \<notin> set bs" "\<forall>e\<in>set (concat bs). kv_small e" "j < length bs" "fst (hd (bs ! j)) \<le> k"
    "\<forall>i < length bs. j < i \<longrightarrow> k < fst (hd (bs ! i))"
  shows "search_block (enc_kvs (bs ! j)) k = map_of (concat bs) k"
proof -
  have "\<forall>e\<in>set (bs ! j). kv_small e" "sorted_kvs (bs ! j)"
    using assms(1,3) unfolding concat_split_nth [OF assms(4)] by (simp_all add: sorted_wrt_append)
  then show ?thesis by (simp add: search_block_enc map_of_other_blocks [OF assms(1,2,4,5,6)])
qed

lemma reader_get_table:
  assumes sorted: "sorted_kvs (concat bs)" and ne: "[] \<notin> set bs" and small: "\<forall>e\<in>set (concat bs). kv_small e"
    and dat: "fmlookup d p = Some (enc_kvs (concat bs) @ post)"
    and bloom: "bloom_wf bl" "\<forall>k\<in>fst ` set (concat bs). bloom_has bl k"
  shows "reader_get d \<lparr>r_path = p, r_index = index_of 0 bs, r_bloom = bl, r_count = n\<rparr> k = Inr (map_of (concat bs) k)"
    (is "reader_get d ?r k = _")
proof (cases "bloom_has bl k")
  case False
  then have "map_of (concat bs) k = None" using bloom(2) by (auto simp: map_of_eq_None_iff)
  then show ?thesis using False bloom(1) by (simp add: reader_get_def reader_may_contain_def bloom_may_contain_has)
next
  case True
  define ks where "ks = map ix_first (index_of 0 bs)"
  have ks: "length ks = length bs" "j < length bs \<Longrightarrow> ks ! j = fst (hd (bs ! j))" for j
    by (simp_all add: ks_def ix_first_index_of)
  have found: "found_at ks k (index_search (index_of 0 bs) k)"
    unfolding ks_def by (rule index_search_found [OF blocks_sorted_index [OF sorted ne]])
  have mono: "ks ! i < ks ! j" if "i < j" "j < length bs" for i j
    using sorted_wrt_nth_less [OF blocks_sorted_index [OF sorted ne] that(1)] that(2) unfolding ks_def by simp
  have block: "read_block d ?r (index_of 0 bs ! j) = Inr (enc_kvs (bs ! j))" if "j < length bs" for j
    using read_block_image [of d ?r bs post j] dat that by simp
  have at: "(case read_block d ?r (index_of 0 bs ! j) of Inl e \<Rightarrow> Inl e | Inr block \<Rightarrow> Inr (search_block block k)) =
      Inr (map_of (concat bs) k)"
    if "j < length bs" "ks ! j \<le> k" "\<forall>i < length bs. j < i \<longrightarrow> k < ks ! i" for j
    using get_in_block [OF sorted ne small that(1)] that ks(2) block [OF that(1)] by simp
  show ?thesis
  proof (cases "index_search (index_of 0 bs) k")
    case (Inr i)
    with found ks have i: "i < length bs" "ks ! i = k" by (auto simp: found_at_def)
    with mono have "\<forall>j < length bs. i < j \<longrightarrow> k < ks ! j" by metis
    with at [OF i(1)] i(2) show ?thesis
      using True bloom(1) Inr by (simp add: reader_get_def reader_may_contain_def bloom_may_contain_has)
  next
    case (Inl i)
    with found ks(1) have i: "i \<le> length bs" "\<forall>j < i. ks ! j < k" "\<forall>j < length bs. i \<le> j \<longrightarrow> k < ks ! j"
      by (simp_all add: found_at_def)
    show ?thesis
    proof (cases i)
      case 0
      have "k < fst x" if "x \<in> set (bs ! j)" "j < length bs" for x j
        using i(3) ks(2) [OF that(2)] that(2) 0 by (intro less_le_trans [OF _ block_hd_le [OF sorted that(2,1)]]) auto
      then have "\<forall>x\<in>set (concat (drop 0 bs)). k < fst x" using in_concat_drop [of _ 0 bs] by blast
      then have "map_of (concat bs) k = None" by (force simp: map_of_eq_None_iff)
      with 0 Inl True bloom(1) show ?thesis by (simp add: reader_get_def reader_may_contain_def bloom_may_contain_has)
    next
      case (Suc j)
      then have "j < length bs" "ks ! j \<le> k" "\<forall>i < length bs. j < i \<longrightarrow> k < ks ! i"
        using i by (auto intro: less_imp_le)
      from at [OF this] Suc Inl True bloom(1) show ?thesis
        by (simp add: reader_get_def reader_may_contain_def bloom_may_contain_has)
    qed
  qed
qed

lemma sst_get_table: "table_at d p es \<Longrightarrow> sst_get sizing d p k = Inr (map_of es k)"
  by (erule table_at_reader [where sizing = sizing]) (simp add: sst_get_def reader_get_table)

lemma decode_nth_block:
  "j < length bs \<Longrightarrow> \<forall>e\<in>set (concat bs). kv_small e \<Longrightarrow> decode_block (enc_kvs (bs ! j)) = bs ! j"
  by (intro decode_block_enc) (auto dest: nth_mem)

lemma reader_iter_table:
  assumes "\<forall>e\<in>set (concat bs). kv_small e" "fmlookup d p = Some (enc_kvs (concat bs) @ post)"
  shows "reader_iter d \<lparr>r_path = p, r_index = index_of 0 bs, r_bloom = bl, r_count = n\<rparr> = Inr (concat bs)"
    (is "reader_iter d ?r = _")
proof -
  have "iter_blocks d ?r (drop j (index_of 0 bs)) = Inr (concat (drop j bs))" if "j \<le> length bs" for j
    using that
  proof (induction rule: inc_induct)
    case (step j)
    then show ?case
      using assms read_block_image [of d ?r bs post j] decode_nth_block [of j bs]
      by (simp add: Cons_nth_drop_Suc [of j "index_of 0 bs", symmetric] Cons_nth_drop_Suc [of j bs, symmetric])
  qed simp
  from this [of 0] show ?thesis by (simp add: reader_iter_def)
qed

lemma filter_none: "\<forall>x\<in>set xs. \<not> P x \<Longrightarrow> filter P xs = []"
  by (induction xs) auto

lemma range_blocks_table:
  assumes sorted: "sorted_kvs (concat bs)" and ne: "[] \<notin> set bs" and small: "\<forall>e\<in>set (concat bs). kv_small e"
    and dat: "fmlookup d p = Some (enc_kvs (concat bs) @ post)" and j: "j \<le> length bs"
  shows "range_blocks d \<lparr>r_path = p, r_index = index_of 0 bs, r_bloom = bl, r_count = n\<rparr> a b [j..<length bs] =
    Inr (filter (\<lambda>(k, v). k \<ge> a \<and> k \<le> b) (concat (drop j bs)))"
    (is "range_blocks d ?r a b _ = Inr (filter ?P _)")
  using j
proof (induction rule: inc_induct)
  case (step j)
  have first: "ix_first (index_of 0 bs ! i) = fst (hd (bs ! i))" if "i < length bs" for i
    using that by (simp add: index_of_nth)
  have split: "concat (drop j bs) = bs ! j @ concat (drop (Suc j) bs)"
    using step.hyps by (simp add: Cons_nth_drop_Suc [symmetric])
  have upt: "[j..<length bs] = j # [Suc j..<length bs]" using step.hyps by (simp add: upt_conv_Cons)
  have read: "read_block d ?r (index_of 0 bs ! j) = Inr (enc_kvs (bs ! j))"
    using dat step.hyps by (intro read_block_image [where post = post]) auto
  consider (skip) "Suc j < length bs" "fst (hd (bs ! Suc j)) \<le> a"
    | (stop) "\<not> (Suc j < length bs \<and> fst (hd (bs ! Suc j)) \<le> a)" "b < fst (hd (bs ! j))"
    | (read) "\<not> (Suc j < length bs \<and> fst (hd (bs ! Suc j)) \<le> a)" "\<not> b < fst (hd (bs ! j))"
    by blast
  then show ?case
  proof cases
    case skip
    have "\<not> ?P x" if "x \<in> set (bs ! j)" for x
      using block_keys_less [OF sorted ne lessI skip(1) that] skip(2) by auto
    then have "filter ?P (bs ! j) = []" by (intro filter_none) blast
    with skip show ?thesis using step.IH by (simp add: upt split first)
  next
    case stop
    have "\<not> ?P x" if "x \<in> set (bs ! i)" "i < length bs" "j \<le> i" for x i
    proof -
      have "fst (hd (bs ! j)) \<le> fst x"
      proof (cases "i = j")
        case True
        then show ?thesis using block_hd_le [OF sorted that(2,1)] by simp
      next
        case False
        moreover have "hd (bs ! j) \<in> set (bs ! j)" using ne step.hyps by (intro hd_in_set) (metis nth_mem)
        ultimately have "fst (hd (bs ! j)) < fst (hd (bs ! i))"
          using that(3) by (intro block_keys_less [OF sorted ne _ that(2)]) auto
        then show ?thesis using block_hd_le [OF sorted that(2,1)] by simp
      qed
      then show ?thesis using stop(2) by auto
    qed
    then have "\<forall>x\<in>set (concat (drop j bs)). \<not> ?P x" using in_concat_drop [of _ j bs] by blast
    then have "filter ?P (concat (drop j bs)) = []" by (rule filter_none)
    with stop show ?thesis using step.hyps by (auto simp: upt first)
  next
    case read
    with step.IH show ?thesis
      using step.hyps \<open>read_block d ?r (index_of 0 bs ! j) = Inr (enc_kvs (bs ! j))\<close> decode_nth_block [OF _ small, of j]
      by (auto simp: upt split first)
  qed
qed simp

lemma reader_range_table:
  assumes sorted: "sorted_kvs (concat bs)" and ne: "[] \<notin> set bs" and small: "\<forall>e\<in>set (concat bs). kv_small e"
    and dat: "fmlookup d p = Some (enc_kvs (concat bs) @ post)"
  shows "reader_range d \<lparr>r_path = p, r_index = index_of 0 bs, r_bloom = bl, r_count = n\<rparr> a b =
    Inr (filter (\<lambda>(k, v). k \<ge> a \<and> k \<le> b) (concat bs))" (is "reader_range d ?r a b = Inr (filter ?P _)")
proof -
  let ?s = "case index_search (index_of 0 bs) a of Inr i \<Rightarrow> i | Inl i \<Rightarrow> if i = 0 then 0 else i - 1"
  have "found_at (map ix_first (index_of 0 bs)) a (index_search (index_of 0 bs) a)"
    by (rule index_search_found [OF blocks_sorted_index [OF sorted ne]])
  then have s: "?s \<le> length bs" "?s = 0 \<or> ?s < length bs \<and> fst (hd (bs ! ?s)) \<le> a"
    by (auto simp: found_at_def ix_first_index_of less_imp_le split: sum.splits)
  have "\<not> ?P x" if "x \<in> set (bs ! i)" "i < ?s" for x i
  proof -
    have "?s < length bs" "fst (hd (bs ! ?s)) \<le> a" using s(2) that(2) by linarith+
    then have "fst x < a" by (intro less_le_trans [OF block_keys_less [OF sorted ne that(2) _ that(1)]])
    then show ?thesis by auto
  qed
  then have "\<forall>x\<in>set (concat (take ?s bs)). \<not> ?P x" using in_concat_take [of _ ?s bs] by blast
  then have "filter ?P (concat (take ?s bs)) = []" by (rule filter_none)
  then have "filter ?P (concat (take ?s bs @ drop ?s bs)) = filter ?P (concat (drop ?s bs))"
    by (simp only: concat_append filter_append append_Nil)
  then have "filter ?P (concat bs) = filter ?P (concat (drop ?s bs))" by (simp only: append_take_drop_id)
  then show ?thesis
    using range_blocks_table [OF sorted ne small dat s(1), of bl n a b] by (simp add: reader_range_def Let_def)
qed

lemma sst_iter_table: "table_at d p es \<Longrightarrow> sst_iter sizing d p = Inr es"
  by (erule table_at_reader [where sizing = sizing]) (simp add: sst_iter_def reader_iter_table)

lemma sst_range_table: "table_at d p es \<Longrightarrow> sst_range sizing d p a b = Inr (filter (\<lambda>(k, v). k \<ge> a \<and> k \<le> b) es)"
  by (erule table_at_reader [where sizing = sizing]) (simp add: sst_range_def reader_range_table)

lemma write_table_at:
  assumes "fits sizing es" "sorted_kvs es" "es \<noteq> []"
  obtains fl where "write_table sizing sst_id level p es = Inr (table_meta sst_id level p es (length fl), fl)"
    "\<And>d. fmlookup d p = Some fl \<Longrightarrow> table_at d p es"
proof -
  have "length (enc_kvs es) < 2 ^ 32" using assms(1) by (simp add: fits_def table_bytes_def)
  from write_table_image [OF this assms(3), of sizing sst_id level p] show thesis
    using assms(1,2) that by (fastforce simp: table_at_def fits_def)
qed

section \<open>Properties\<close>

text \<open>
  C36: What is written to a sorted table is read back. For every non-empty list of entries with strictly increasing
  keys whose estimated table size (\<open>fits\<close>: 18 times the encoded entries, plus filter and footer) stays below 4 GiB, the writer succeeds with the first key, the last key and the count in the
  metadata; opening the file, a scan returns exactly the entries, a lookup returns what the last entry for the key says
  (tombstones included, and nothing for a key that is not there, whether or not the Bloom filter lets it pass), and
  a range scan returns the entries between the two bounds, both included.
\<close>

theorem sstable_roundtrip:
  assumes "fits sizing es" "sorted_kvs es" "es \<noteq> []"
  shows "\<exists>fl. write_table sizing sst_id level p es = Inr (table_meta sst_id level p es (length fl), fl) \<and>
    sst_iter sizing (fmupd p fl d) p = Inr es \<and>
    (\<forall>k. sst_get sizing (fmupd p fl d) p k = Inr (map_of es k)) \<and>
    (\<forall>a b. sst_range sizing (fmupd p fl d) p a b = Inr (filter (\<lambda>(k, v). a \<le> k \<and> k \<le> b) es))"
proof -
  obtain fl where fl: "write_table sizing sst_id level p es = Inr (table_meta sst_id level p es (length fl), fl)"
      "table_at (fmupd p fl d) p es"
    by (rule write_table_at [OF assms, of sst_id level p]) simp
  show ?thesis
    using fl(1) sst_iter_table [OF fl(2)] sst_get_table [OF fl(2)] sst_range_table [OF fl(2)] by blast
qed

theorem sstable_roundtrip_witness:
  "\<exists>fl. sst_get (\<lambda>n. (10 * n, 7)) (fmupd (SstPath 1) fl fmempty) (SstPath 1) [2] = Inr (Some None) \<and>
     sst_get (\<lambda>n. (10 * n, 7)) (fmupd (SstPath 1) fl fmempty) (SstPath 1) [3] = Inr None"
proof -
  let ?es = "[([1], Some [7]), ([2], None)] :: kv list"
  have "fits (\<lambda>n. (10 * n, 7)) ?es"
    by (simp add: fits_def table_bytes_def enc_kvs_def enc_kv_def bloom_size_bytes_def bloom_new_def bloom_alloc_def)
  moreover have "sorted_kvs ?es" by simp
  ultimately have "\<exists>fl. write_table (\<lambda>n. (10 * n, 7)) 1 0 (SstPath 1) ?es =
        Inr (table_meta 1 0 (SstPath 1) ?es (length fl), fl) \<and>
      sst_iter (\<lambda>n. (10 * n, 7)) (fmupd (SstPath 1) fl fmempty) (SstPath 1) = Inr ?es \<and>
      (\<forall>k. sst_get (\<lambda>n. (10 * n, 7)) (fmupd (SstPath 1) fl fmempty) (SstPath 1) k = Inr (map_of ?es k)) \<and>
      (\<forall>a b. sst_range (\<lambda>n. (10 * n, 7)) (fmupd (SstPath 1) fl fmempty) (SstPath 1) a b =
         Inr (filter (\<lambda>(k, v). a \<le> k \<and> k \<le> b) ?es))"
    by (rule sstable_roundtrip) simp
  then obtain fl where "\<forall>k. sst_get (\<lambda>n. (10 * n, 7)) (fmupd (SstPath 1) fl fmempty) (SstPath 1) k = Inr (map_of ?es k)"
    by blast
  then show ?thesis by (intro exI [of _ fl]) simp
qed

end
