(* ===== verification/Lsm.thy ===== *)
theory Lsm
  imports Sstable "HOL-Library.Multiset"
begin

text \<open>
  The log-structured engine of \<open>crates/joule-db-local/src/lsm\<close>: the in-memory table (\<open>memtable.rs\<close>), the manifest of the
  tables on disk (\<open>manifest.rs\<close>), leveled compaction (\<open>compaction.rs\<close>) and the engine itself (\<open>mod.rs\<close>).

  A \<open>BTreeMap\<close> is a finite map, iterated in key order. The disk is the directory of table files together with the saved
  manifest; the manifest is kept as a value, its JSON text (crate \<open>serde_json\<close>) is not modelled. The optional adaptive
  controller is off, as in the default build. After an error the engine is not used further, so an error carries no state.
  \<open>sync\<close> compacts in a loop without a bound: its result is \<open>None\<close> when the loop does not end.
\<close>

section \<open>In-memory table\<close>

record memtable =
  mt_data :: "(bytes, bytes option) fmap"
  mt_size :: nat

definition mt_new :: memtable where
  "mt_new = \<lparr>mt_data = fmempty, mt_size = 0\<rparr>"

definition mt_get :: "memtable \<Rightarrow> bytes \<Rightarrow> bytes option option" where
  "mt_get t key = fmlookup (mt_data t) key"

definition old_entry_size :: "bytes option \<Rightarrow> nat" where
  "old_entry_size old = (case old of None \<Rightarrow> 8 | Some v \<Rightarrow> length v + 8)"

definition mt_insert :: "nat \<Rightarrow> bytes \<Rightarrow> bytes option \<Rightarrow> memtable \<Rightarrow> memtable" where
  "mt_insert entry_size key entry t =
     (let rest = (case fmlookup (mt_data t) key of
                    Some old \<Rightarrow> mt_size t - old_entry_size old
                  | None \<Rightarrow> mt_size t)
      in \<lparr>mt_data = fmupd key entry (mt_data t), mt_size = rest + entry_size\<rparr>)"

definition mt_put :: "bytes \<Rightarrow> bytes \<Rightarrow> memtable \<Rightarrow> memtable" where
  "mt_put key value = mt_insert (length key + length value + 16) key (Some value)"

definition mt_delete :: "bytes \<Rightarrow> memtable \<Rightarrow> memtable" where
  "mt_delete key = mt_insert (length key + 8) key None"

definition mt_iter :: "memtable \<Rightarrow> kv list" where
  "mt_iter t = fm_entries (mt_data t)"

datatype bound = Included bytes | Excluded bytes | Unbounded

fun above :: "bound \<Rightarrow> bytes \<Rightarrow> bool" where
  "above (Included a) k = (a \<le> k)"
| "above (Excluded a) k = (a < k)"
| "above Unbounded k = True"

fun below :: "bound \<Rightarrow> bytes \<Rightarrow> bool" where
  "below (Included b) k = (k \<le> b)"
| "below (Excluded b) k = (k < b)"
| "below Unbounded k = True"

text \<open>
  \<open>BTreeMap::range\<close> panics on a start behind the end, and on two equal excluded bounds. A map that has never held an entry
  has no root and skips the check; the table only ever gains entries until it is drained.
\<close>

fun bad_range :: "bound \<Rightarrow> bound \<Rightarrow> bool" where
  "bad_range (Included a) (Included b) = (a > b)"
| "bad_range (Included a) (Excluded b) = (a > b)"
| "bad_range (Excluded a) (Included b) = (a > b)"
| "bad_range (Excluded a) (Excluded b) = (a \<ge> b)"
| "bad_range _ _ = False"

definition mt_range :: "memtable \<Rightarrow> bound \<Rightarrow> bound \<Rightarrow> kv list io" where
  "mt_range t a b =
     (if mt_data t \<noteq> fmempty \<and> bad_range a b then Inl Panicked else Inr (filter (\<lambda>(k, v). above a k \<and> below b k) (mt_iter t)))"

definition mt_len :: "memtable \<Rightarrow> nat" where
  "mt_len t = length (mt_iter t)"

definition mt_is_empty :: "memtable \<Rightarrow> bool" where
  "mt_is_empty t \<longleftrightarrow> mt_data t = fmempty"

definition mt_drain :: "memtable \<Rightarrow> (bytes, bytes option) fmap \<times> memtable" where
  "mt_drain t = (mt_data t, \<lparr>mt_data = fmempty, mt_size = 0\<rparr>)"

section \<open>Manifest\<close>

record manifest =
  levels :: "sst_meta list list"
  next_sst_id :: nat

record manifest_data =
  md_next :: nat
  md_entries :: "sst_meta list"

record disk =
  files :: directory
  saved :: "manifest_data option"

definition manifest_new :: "nat \<Rightarrow> manifest" where
  "manifest_new max_levels = \<lparr>levels = replicate max_levels [], next_sst_id = 1\<rparr>"

text \<open>\<open>levels.resize_with(level + 1, Vec::new)\<close> when needed, then a push.\<close>

definition push_level :: "sst_meta \<Rightarrow> sst_meta list list \<Rightarrow> sst_meta list list" where
  "push_level meta ls =
     (let ls = ls @ replicate (m_level meta + 1 - length ls) []
      in ls[m_level meta := ls ! m_level meta @ [meta]])"

definition manifest_load :: "nat \<Rightarrow> manifest_data \<Rightarrow> manifest" where
  "manifest_load max_levels md = \<lparr>levels = fold push_level (md_entries md) (replicate max_levels []), next_sst_id = md_next md\<rparr>"

definition load_or_create :: "nat \<Rightarrow> disk \<Rightarrow> manifest" where
  "load_or_create max_levels d =
     (case saved d of Some md \<Rightarrow> manifest_load max_levels md | None \<Rightarrow> manifest_new max_levels)"

definition manifest_save :: "manifest \<Rightarrow> disk \<Rightarrow> disk" where
  "manifest_save m d = d\<lparr>saved := Some \<lparr>md_next = next_sst_id m, md_entries = concat (levels m)\<rparr>\<rparr>"

definition allocate_sst :: "manifest \<Rightarrow> nat \<times> path \<times> manifest" where
  "allocate_sst m = (next_sst_id m, SstPath (next_sst_id m), m\<lparr>next_sst_id := next_sst_id m + 1\<rparr>)"

definition add_sstable :: "sst_meta \<Rightarrow> manifest \<Rightarrow> manifest" where
  "add_sstable meta m = m\<lparr>levels := push_level meta (levels m)\<rparr>"

definition remove_sstables :: "nat list \<Rightarrow> manifest \<Rightarrow> manifest" where
  "remove_sstables ids m = m\<lparr>levels := map (filter (\<lambda>x. m_id x \<notin> set ids)) (levels m)\<rparr>"

definition total_sstables :: "manifest \<Rightarrow> nat" where
  "total_sstables m = sum_list (map length (levels m))"

definition level_size :: "manifest \<Rightarrow> nat \<Rightarrow> nat" where
  "level_size m level = (if level < length (levels m) then sum_list (map size_bytes (levels m ! level)) else 0)"

definition level_count :: "manifest \<Rightarrow> nat \<Rightarrow> nat" where
  "level_count m level = (if level < length (levels m) then length (levels m ! level) else 0)"

section \<open>Compaction\<close>

record lsm_config =
  memtable_size_threshold :: nat
  l0_compaction_trigger :: nat
  level_size_multiplier :: nat
  max_levels :: nat
  target_sst_size :: nat
  l1_target_size :: nat

fun size_check :: "manifest \<Rightarrow> lsm_config \<Rightarrow> nat list \<Rightarrow> nat \<Rightarrow> nat option" where
  "size_check m c [] limit = None"
| "size_check m c (level # ls) limit =
     (if level_size m level > limit then Some level
      else size_check m c ls (limit * level_size_multiplier c mod 2 ^ 64))"

definition needs_compaction :: "manifest \<Rightarrow> lsm_config \<Rightarrow> nat option" where
  "needs_compaction m c =
     (if level_count m 0 \<ge> l0_compaction_trigger c then Some 0
      else size_check m c [1..<max_levels c - 1] (l1_target_size c))"

definition ranges_overlap :: "bytes \<Rightarrow> bytes \<Rightarrow> bytes \<Rightarrow> bytes \<Rightarrow> bool" where
  "ranges_overlap a_first a_last b_first b_last \<longleftrightarrow> a_first \<le> b_last \<and> b_first \<le> a_last"

definition find_meta :: "manifest \<Rightarrow> nat \<Rightarrow> sst_meta option" where
  "find_meta m i = find (\<lambda>x. m_id x = i) (concat (levels m))"

text \<open>\<open>sort_by(|a, b| b.id.cmp(&a.id))\<close>: newest first.\<close>

definition newest_first :: "sst_meta list \<Rightarrow> sst_meta list" where
  "newest_first ms = sort_key (\<lambda>m. - int (m_id m)) ms"

fun read_all :: "bloom_sizing \<Rightarrow> directory \<Rightarrow> nat \<Rightarrow> sst_meta list \<Rightarrow> (kv \<times> nat) list io" where
  "read_all sizing d idx [] = Inr []"
| "read_all sizing d idx (m # ms) =
     (case reader_open sizing d (m_path m) of Inl e \<Rightarrow> Inl e | Inr r \<Rightarrow>
      case reader_iter d r of Inl e \<Rightarrow> Inl e | Inr es \<Rightarrow>
      case read_all sizing d (idx + 1) ms of Inl e \<Rightarrow> Inl e | Inr rest \<Rightarrow>
        Inr (map (\<lambda>e. (e, idx)) es @ rest))"

text \<open>\<open>sort_by\<close> key, then index; \<open>entry(key).or_insert(value)\<close>.\<close>

definition by_key_then_index :: "(kv \<times> nat) list \<Rightarrow> (kv \<times> nat) list" where
  "by_key_then_index xs = sort_key (\<lambda>(e, i). (fst e, i)) xs"

definition or_insert :: "kv \<times> nat \<Rightarrow> (bytes, bytes option) fmap \<Rightarrow> (bytes, bytes option) fmap" where
  "or_insert x m = (case x of ((k, v), i) \<Rightarrow> (case fmlookup m k of None \<Rightarrow> fmupd k v m | Some _ \<Rightarrow> m))"

definition merge_sstables :: "bloom_sizing \<Rightarrow> directory \<Rightarrow> sst_meta list \<Rightarrow> bool \<Rightarrow> kv list io" where
  "merge_sstables sizing d metas drop_tombstones =
     (case read_all sizing d 0 metas of
        Inl e \<Rightarrow> Inl e
      | Inr all_entries \<Rightarrow>
          let merged = fold or_insert (by_key_then_index all_entries) fmempty
          in Inr (filter (\<lambda>(k, v). \<not> drop_tombstones \<or> v \<noteq> None) (fm_entries merged)))"

definition estimate_entries_per_sst :: "kv list \<Rightarrow> nat \<Rightarrow> nat" where
  "estimate_entries_per_sst entries limit =
     (if entries = [] then 1
      else let total_size = sum_list (map (\<lambda>(k, v). length k + (case v of None \<Rightarrow> 1 | Some v \<Rightarrow> length v + 5) + 5) (take 100 entries));
               sample_count = min (length entries) 100;
               avg_entry_size = total_size div max sample_count 1
           in max (limit div max avg_entry_size 1) 1)"

text \<open>\<open>chunks(n)\<close> for \<open>n > 0\<close>.\<close>

function chunks :: "nat \<Rightarrow> 'a list \<Rightarrow> 'a list list" where
  "chunks n xs = (if xs = [] \<or> n = 0 then [] else take n xs # chunks n (drop n xs))"
  by auto
termination by (relation "measure (length \<circ> snd)") auto

declare chunks.simps [simp del]

fun write_chunks :: "bloom_sizing \<Rightarrow> nat \<Rightarrow> kv list list \<Rightarrow> manifest \<Rightarrow> disk \<Rightarrow> (sst_meta list \<times> manifest \<times> disk) io" where
  "write_chunks sizing target_level [] m d = Inr ([], m, d)"
| "write_chunks sizing target_level (c # cs) m d =
     (let (i, p, m) = allocate_sst m
      in case write_table sizing i target_level p c of
           Inl e \<Rightarrow> Inl e
         | Inr (meta, fl) \<Rightarrow>
             (case write_chunks sizing target_level cs m (d\<lparr>files := fmupd p fl (files d)\<rparr>) of
                Inl e \<Rightarrow> Inl e
              | Inr (metas, m, d) \<Rightarrow> Inr (meta # metas, m, d)))"

definition write_merged_entries ::
  "bloom_sizing \<Rightarrow> manifest \<Rightarrow> disk \<Rightarrow> kv list \<Rightarrow> nat \<Rightarrow> lsm_config \<Rightarrow> (sst_meta list \<times> manifest \<times> disk) io" where
  "write_merged_entries sizing m d entries target_level c =
     (if entries = [] then Inr ([], m, d)
      else let entries_per_sst = estimate_entries_per_sst entries (target_sst_size c)
           in write_chunks sizing target_level (chunks (max entries_per_sst 1) entries) m d)"

record compaction_result =
  removed_ids :: "nat list"
  new_sstables :: "sst_meta list"

definition no_compaction :: compaction_result where
  "no_compaction = \<lparr>removed_ids = [], new_sstables = []\<rparr>"

text \<open>The input tables of the source level, and the key range they span; \<open>None\<close> when the level is empty.\<close>

definition select_source :: "sst_meta list \<Rightarrow> nat \<Rightarrow> (nat list \<times> bytes \<times> bytes) option" where
  "select_source tables level =
     (if tables = [] then None
      else if level = 0 then
        Some (map m_id tables, Min (set (map first_key tables)), Max (set (map last_key tables)))
      else let pick = arg_min_list first_key tables
           in Some ([m_id pick], first_key pick, last_key pick))"

definition overlapping_ids :: "manifest \<Rightarrow> nat \<Rightarrow> bytes \<Rightarrow> bytes \<Rightarrow> nat list" where
  "overlapping_ids m target_level lo hi =
     (if target_level < length (levels m)
      then map m_id (filter (\<lambda>x. ranges_overlap (first_key x) (last_key x) lo hi) (levels m ! target_level))
      else [])"

definition find_metas :: "manifest \<Rightarrow> nat list \<Rightarrow> sst_meta list" where
  "find_metas m ids = List.map_filter (find_meta m) ids"

definition remove_files :: "manifest \<Rightarrow> nat list \<Rightarrow> disk \<Rightarrow> disk" where
  "remove_files m ids d = d\<lparr>files := fold (\<lambda>x. fmdrop (m_path x)) (find_metas m ids) (files d)\<rparr>"

text \<open>
  The two comparisons use \<open>max_levels.saturating_sub(1)\<close>, as subtraction of naturals does; the plain \<open>max_levels - 1\<close> behind them
  is reached with \<open>level + 1 < max_levels\<close> only.
\<close>

definition compact_level ::
  "bloom_sizing \<Rightarrow> manifest \<Rightarrow> disk \<Rightarrow> nat \<Rightarrow> lsm_config \<Rightarrow> (compaction_result \<times> manifest \<times> disk) io" where
  "compact_level sizing m d level c =
     (let target_level = level + 1
      in if level \<ge> max_levels c - 1 then Inr (no_compaction, m, d)
         else if level \<ge> length (levels m) then Inl Panicked
         else case select_source (levels m ! level) level of
                None \<Rightarrow> Inr (no_compaction, m, d)
              | Some (source_ids, lo, hi) \<Rightarrow>
                  let target_ids = overlapping_ids m target_level lo hi;
                      input_metas = newest_first (find_metas m source_ids @ find_metas m target_ids)
                  in if input_metas = [] then Inr (no_compaction, m, d)
                     else case merge_sstables sizing (files d) input_metas (target_level \<ge> max_levels c - 1) of
                            Inl e \<Rightarrow> Inl e
                          | Inr merged \<Rightarrow>
                              (case write_merged_entries sizing m d merged target_level c of
                                 Inl e \<Rightarrow> Inl e
                               | Inr (new_metas, m, d) \<Rightarrow>
                                   let removed = source_ids @ target_ids;
                                       d = remove_files m removed d;
                                       m = fold add_sstable new_metas (remove_sstables removed m);
                                       d = manifest_save m d
                                   in Inr (\<lparr>removed_ids = removed, new_sstables = new_metas\<rparr>, m, d)))"

section \<open>Engine\<close>

record lsm =
  active :: memtable
  immutable :: "memtable list"
  manifest :: manifest
  config :: lsm_config
  disk :: disk

definition lsm_open :: "disk \<Rightarrow> lsm_config \<Rightarrow> lsm" where
  "lsm_open d c = \<lparr>active = mt_new, immutable = [], manifest = load_or_create (max_levels c) d, config = c, disk = d\<rparr>"

fun imm_get :: "memtable list \<Rightarrow> bytes \<Rightarrow> bytes option option" where
  "imm_get [] key = None"
| "imm_get (t # ts) key = (case mt_get t key of Some e \<Rightarrow> Some e | None \<Rightarrow> imm_get ts key)"

fun tables_get :: "bloom_sizing \<Rightarrow> directory \<Rightarrow> sst_meta list \<Rightarrow> bytes \<Rightarrow> bytes option option io" where
  "tables_get sizing d [] key = Inr None"
| "tables_get sizing d (m # ms) key =
     (if key < first_key m \<or> key > last_key m then tables_get sizing d ms key
      else case reader_open sizing d (m_path m) of Inl e \<Rightarrow> Inl e | Inr r \<Rightarrow>
           case reader_may_contain r key of Inl e \<Rightarrow> Inl e
           | Inr False \<Rightarrow> tables_get sizing d ms key
           | Inr True \<Rightarrow>
               (case reader_get d r key of Inl e \<Rightarrow> Inl e
                | Inr (Some v) \<Rightarrow> Inr (Some v)
                | Inr None \<Rightarrow> tables_get sizing d ms key))"

fun levels_get :: "bloom_sizing \<Rightarrow> directory \<Rightarrow> sst_meta list list \<Rightarrow> bytes \<Rightarrow> bytes option io" where
  "levels_get sizing d [] key = Inr None"
| "levels_get sizing d (l # ls) key =
     (case tables_get sizing d (newest_first l) key of
        Inl e \<Rightarrow> Inl e
      | Inr (Some v) \<Rightarrow> Inr v
      | Inr None \<Rightarrow> levels_get sizing d ls key)"

definition lsm_get :: "bloom_sizing \<Rightarrow> lsm \<Rightarrow> bytes \<Rightarrow> bytes option io" where
  "lsm_get sizing s key =
     (case mt_get (active s) key of
        Some e \<Rightarrow> Inr e
      | None \<Rightarrow>
          (case imm_get (rev (immutable s)) key of
             Some e \<Rightarrow> Inr e
           | None \<Rightarrow> levels_get sizing (files (disk s)) (levels (manifest s)) key))"

definition write_memtable_to_sst :: "bloom_sizing \<Rightarrow> (bytes, bytes option) fmap \<Rightarrow> lsm \<Rightarrow> lsm io" where
  "write_memtable_to_sst sizing entries s =
     (if entries = fmempty then Inr s
      else let (i, p, m) = allocate_sst (manifest s)
           in case write_table sizing i 0 p (fm_entries entries) of
                Inl e \<Rightarrow> Inl e
              | Inr (meta, fl) \<Rightarrow>
                  let m = add_sstable meta m;
                      d = (disk s)\<lparr>files := fmupd p fl (files (disk s))\<rparr>
                  in Inr (s\<lparr>manifest := m, disk := manifest_save m d\<rparr>))"

text \<open>\<open>flush_immutables\<close> pops the tables from the end of the list; its argument is the list with the last table first.\<close>

fun flush_popped :: "bloom_sizing \<Rightarrow> memtable list \<Rightarrow> lsm \<Rightarrow> lsm io" where
  "flush_popped sizing [] s = Inr (s\<lparr>immutable := []\<rparr>)"
| "flush_popped sizing (t # ts) s =
     (case write_memtable_to_sst sizing (fst (mt_drain t)) s of Inl e \<Rightarrow> Inl e | Inr s \<Rightarrow> flush_popped sizing ts s)"

definition flush_immutables :: "bloom_sizing \<Rightarrow> lsm \<Rightarrow> lsm io" where
  "flush_immutables sizing s = flush_popped sizing (rev (immutable s)) s"

definition lsm_flush :: "bloom_sizing \<Rightarrow> lsm \<Rightarrow> lsm io" where
  "lsm_flush sizing s =
     (if mt_is_empty (active s) then Inr s
      else let (entries, t) = mt_drain (active s) in write_memtable_to_sst sizing entries (s\<lparr>active := t\<rparr>))"

text \<open>\<open>if let Some(level) = needs_compaction(..) { compact_level(..)?; }\<close>\<close>

definition compact_once :: "bloom_sizing \<Rightarrow> nat \<Rightarrow> lsm \<Rightarrow> lsm io" where
  "compact_once sizing level s =
     (case compact_level sizing (manifest s) (disk s) level (config s) of
        Inl e \<Rightarrow> Inl e
      | Inr (_, m, d) \<Rightarrow> Inr (s\<lparr>manifest := m, disk := d\<rparr>))"

definition lsm_compact :: "bloom_sizing \<Rightarrow> lsm \<Rightarrow> (bool \<times> lsm) io" where
  "lsm_compact sizing s =
     (case needs_compaction (manifest s) (config s) of
        Some level \<Rightarrow> (case compact_once sizing level s of Inl e \<Rightarrow> Inl e | Inr s \<Rightarrow> Inr (True, s))
      | None \<Rightarrow> Inr (False, s))"

definition maybe_flush :: "bloom_sizing \<Rightarrow> lsm \<Rightarrow> lsm io" where
  "maybe_flush sizing s =
     (if mt_size (active s) \<ge> memtable_size_threshold (config s) then
        (case flush_immutables sizing (s\<lparr>active := mt_new, immutable := immutable s @ [active s]\<rparr>) of
           Inl e \<Rightarrow> Inl e
         | Inr s \<Rightarrow>
             (case needs_compaction (manifest s) (config s) of
                Some level \<Rightarrow> compact_once sizing level s
              | None \<Rightarrow> Inr s))
      else Inr s)"

definition lsm_put :: "bloom_sizing \<Rightarrow> bytes \<Rightarrow> bytes \<Rightarrow> lsm \<Rightarrow> lsm io" where
  "lsm_put sizing key value s = maybe_flush sizing (s\<lparr>active := mt_put key value (active s)\<rparr>)"

definition lsm_delete :: "bloom_sizing \<Rightarrow> bytes \<Rightarrow> lsm \<Rightarrow> lsm io" where
  "lsm_delete sizing key s = maybe_flush sizing (s\<lparr>active := mt_delete key (active s)\<rparr>)"

partial_function (option) compact_loop :: "bloom_sizing \<Rightarrow> lsm \<Rightarrow> lsm io option" where
  "compact_loop sizing s =
     (case needs_compaction (manifest s) (config s) of
        None \<Rightarrow> Some (Inr s)
      | Some level \<Rightarrow>
          (case compact_once sizing level s of
             Inl e \<Rightarrow> Some (Inl e)
           | Inr s \<Rightarrow> compact_loop sizing s))"

definition lsm_sync :: "bloom_sizing \<Rightarrow> lsm \<Rightarrow> lsm io option" where
  "lsm_sync sizing s =
     (case lsm_flush sizing s of Inl e \<Rightarrow> Some (Inl e) | Inr s \<Rightarrow>
      case flush_immutables sizing s of Inl e \<Rightarrow> Some (Inl e) | Inr s \<Rightarrow> compact_loop sizing s)"

section \<open>Range scans\<close>

fun mem_ranges :: "memtable list \<Rightarrow> bytes \<Rightarrow> bytes \<Rightarrow> nat \<Rightarrow> (kv \<times> nat) list io" where
  "mem_ranges [] a b priority = Inr []"
| "mem_ranges (t # ts) a b priority =
     (case mt_range t (Included a) (Included b) of Inl e \<Rightarrow> Inl e | Inr es \<Rightarrow>
      case mem_ranges ts a b (priority + 1) of Inl e \<Rightarrow> Inl e | Inr rest \<Rightarrow>
        Inr (map (\<lambda>e. (e, priority)) es @ rest))"

fun table_ranges :: "bloom_sizing \<Rightarrow> directory \<Rightarrow> sst_meta list \<Rightarrow> bytes \<Rightarrow> bytes \<Rightarrow> nat \<Rightarrow> (kv \<times> nat) list io" where
  "table_ranges sizing d [] a b priority = Inr []"
| "table_ranges sizing d (m # ms) a b priority =
     (if last_key m < a \<or> first_key m > b then table_ranges sizing d ms a b priority
      else case reader_open sizing d (m_path m) of Inl e \<Rightarrow> Inl e | Inr r \<Rightarrow>
           case reader_range d r a b of Inl e \<Rightarrow> Inl e | Inr es \<Rightarrow>
           case table_ranges sizing d ms a b (priority + 1) of Inl e \<Rightarrow> Inl e | Inr rest \<Rightarrow>
             Inr (map (\<lambda>e. (e, priority)) es @ rest))"

fun dedup :: "bytes option \<Rightarrow> (kv \<times> nat) list \<Rightarrow> (bytes \<times> bytes) list" where
  "dedup prev [] = []"
| "dedup prev (((key, value), _) # rest) =
     (if prev = Some key then dedup prev rest
      else (case value of Some v \<Rightarrow> [(key, v)] | None \<Rightarrow> []) @ dedup (Some key) rest)"

definition lsm_range :: "bloom_sizing \<Rightarrow> lsm \<Rightarrow> bytes \<Rightarrow> bytes \<Rightarrow> (bytes \<times> bytes) list io" where
  "lsm_range sizing s a b =
     (let mems = active s # rev (immutable s)
      in case mem_ranges mems a b 0 of Inl e \<Rightarrow> Inl e | Inr xs \<Rightarrow>
         case table_ranges sizing (files (disk s)) (concat (map newest_first (levels (manifest s)))) a b (length mems) of
           Inl e \<Rightarrow> Inl e
         | Inr ys \<Rightarrow> Inr (dedup None (by_key_then_index (xs @ ys))))"

definition lsm_scan :: "bloom_sizing \<Rightarrow> lsm \<Rightarrow> (bytes \<times> bytes) list io" where
  "lsm_scan sizing s = lsm_range sizing s [] (replicate 32 0xFF)"

definition level_stats :: "lsm \<Rightarrow> (nat \<times> nat \<times> nat) list" where
  "level_stats s = map (\<lambda>l. (l, level_count (manifest s) l, level_size (manifest s) l)) [0..<max_levels (config s)]"

end
