(* ===== verification/Lsm_View.thy ===== *)
theory Lsm_View
  imports Lsm
begin

text \<open>
  What the engine's reads return in terms of the entries of its layers: a lookup finds the first layer, newest first, that knows
  the key, and a range scan merges the layers by the same rule. The two kinds of layer, in-memory tables and table files,
  meet one interface (\<open>kv_layer\<close>).
\<close>

section \<open>The interface of a layer\<close>

text \<open>\<open>Some None\<close> is a tombstone, which a read reports as an absent key.\<close>

definition vis :: "bytes option option \<Rightarrow> bytes option" where
  "vis x = (case x of None \<Rightarrow> None | Some v \<Rightarrow> v)"

lemma vis_simps [simp]: "vis None = None" "vis (Some v) = v"
  by (simp_all add: vis_def)

abbreviation in_range :: "bytes \<Rightarrow> bytes \<Rightarrow> kv \<Rightarrow> bool" where
  "in_range a b \<equiv> \<lambda>(k, v). a \<le> k \<and> k \<le> b"

text \<open>Search the layers in order until one of them has an entry for the key.\<close>

fun first_hit :: "('t \<Rightarrow> bytes option option io) \<Rightarrow> 't list \<Rightarrow> bytes option option io" where
  "first_hit get [] = Inr None"
| "first_hit get (t # ts) = (case get t of Inl e \<Rightarrow> Inl e | Inr (Some v) \<Rightarrow> Inr (Some v) | Inr None \<Rightarrow> first_hit get ts)"

text \<open>The entries of the layers that lie in the range, tagged with a priority that never decreases.\<close>

definition tagged :: "nat \<Rightarrow> kv list \<Rightarrow> (kv \<times> nat) list \<Rightarrow> bool" where
  "tagged p es xs \<longleftrightarrow> map fst xs = es \<and> sorted (map snd xs) \<and> (\<forall>x\<in>set xs. p \<le> snd x)"

lemma tagged_Nil: "tagged p [] []"
  by (simp add: tagged_def)

lemma tagged_cons_layer:
  assumes "tagged (p + 1) es' xs"
  shows "tagged p (es @ es') (map (\<lambda>e. (e, p)) es @ xs)"
  using assms by (auto simp: tagged_def comp_def sorted_append map_replicate_const Suc_leD)

locale kv_layer =
  fixes ok :: "'t \<Rightarrow> bool"
    and ents :: "'t \<Rightarrow> kv list"
    and get :: "'t \<Rightarrow> bytes \<Rightarrow> bytes option option io"
    and rng :: "'t \<Rightarrow> bytes \<Rightarrow> bytes \<Rightarrow> kv list io"
  assumes get_ok: "ok t \<Longrightarrow> get t k = Inr (map_of (ents t) k)"
    and rng_ok: "ok t \<Longrightarrow> a \<le> b \<Longrightarrow> rng t a b = Inr (filter (in_range a b) (ents t))"
begin

lemma first_hit_ok: "\<forall>t\<in>set ts. ok t \<Longrightarrow> first_hit (\<lambda>t. get t k) ts = Inr (map_of (concat (map ents ts)) k)"
  by (induction ts) (auto simp: get_ok map_add_def split: option.split)

lemma first_hit_unmatched: "\<forall>t\<in>set ts. ok t \<and> k \<notin> fst ` set (ents t) \<Longrightarrow> first_hit (\<lambda>t. get t k) ts = Inr None"
  by (subst first_hit_ok) (auto simp: map_of_eq_None_iff)

end

section \<open>In-memory tables\<close>

lemma map_of_mt_iter [simp]: "map_of (mt_iter t) k = mt_get t k"
  by (simp add: mt_iter_def mt_get_def)

lemma sorted_fm_entries: "sorted_wrt (<) (map fst (fm_entries m))"
  by (simp add: fst_fm_entries sorted_list_of_fset.rep_eq strict_sorted_list_of_set)

interpretation mem: kv_layer "\<lambda>t. True" mt_iter "\<lambda>t k. Inr (mt_get t k)" "\<lambda>t a b. mt_range t (Included a) (Included b)"
  by unfold_locales (auto simp: mt_range_def)

lemma imm_get_first_hit: "Inr (imm_get ts k) = first_hit (\<lambda>t. Inr (mt_get t k)) ts"
  by (induction ts) (auto split: option.split)

lemma imm_get_view: "imm_get ts k = map_of (concat (map mt_iter ts)) k"
  using mem.first_hit_ok [of ts k] imm_get_first_hit [of ts k] by simp

lemma mem_ranges_view:
  "a \<le> b \<Longrightarrow> \<exists>xs. mem_ranges ts a b p = Inr xs \<and> tagged p (filter (in_range a b) (concat (map mt_iter ts))) xs \<and>
     (\<forall>x\<in>set xs. snd x < p + length ts)"
proof (induction ts arbitrary: p)
  case (Cons t ts)
  obtain xs where xs: "mem_ranges ts a b (p + 1) = Inr xs" "tagged (p + 1) (filter (in_range a b) (concat (map mt_iter ts))) xs"
      "\<forall>x\<in>set xs. snd x < p + 1 + length ts"
    using Cons.IH [of "p + 1"] Cons.prems by blast
  then show ?case
    using mem.rng_ok [of a b t] Cons.prems tagged_cons_layer [OF xs(2), of "filter (in_range a b) (mt_iter t)"]
    by (auto simp del: One_nat_def)
qed (simp add: tagged_Nil)

section \<open>Table files\<close>

definition ents :: "bloom_sizing \<Rightarrow> directory \<Rightarrow> sst_meta \<Rightarrow> kv list" where
  "ents sizing d m = (case sst_iter sizing d (m_path m) of Inr es \<Rightarrow> es | Inl _ \<Rightarrow> [])"

text \<open>The file of the table holds its entries, and its metadata their first and last key.\<close>

definition meta_ok :: "directory \<Rightarrow> sst_meta \<Rightarrow> kv list \<Rightarrow> bool" where
  "meta_ok d m es \<longleftrightarrow> table_at d (m_path m) es \<and> es \<noteq> [] \<and> first_key m = fst (hd es) \<and> last_key m = fst (last es) \<and>
     0 < size_bytes m"

definition good_table :: "bloom_sizing \<Rightarrow> directory \<Rightarrow> sst_meta \<Rightarrow> bool" where
  "good_table sizing d m \<longleftrightarrow> meta_ok d m (ents sizing d m)"

lemma meta_ok_ents: "meta_ok d m es \<Longrightarrow> ents sizing d m = es"
  by (auto simp: meta_ok_def ents_def sst_iter_table)

lemma good_tableI: "meta_ok d m es \<Longrightarrow> good_table sizing d m"
  by (simp add: good_table_def meta_ok_ents)

lemma good_table_at: "good_table sizing d m \<Longrightarrow> table_at d (m_path m) (ents sizing d m)"
  by (simp add: good_table_def meta_ok_def)

lemma table_at_sorted: "table_at d p es \<Longrightarrow> sorted_kvs es"
  by (auto simp: table_at_def)

lemma good_table_sorted: "good_table sizing d m \<Longrightarrow> sorted_kvs (ents sizing d m)"
  using good_table_at table_at_sorted by blast

lemma sorted_kvs_bounds:
  assumes "sorted_kvs es" "(k, v) \<in> set es"
  shows "fst (hd es) \<le> k" "k \<le> fst (last es)"
proof -
  show "fst (hd es) \<le> k" using assms by (cases es) (auto intro: less_imp_le)
  show "k \<le> fst (last es)" using assms by (cases es rule: rev_cases) (auto simp: sorted_wrt_append intro: less_imp_le)
qed

lemma good_table_bounds:
  "good_table sizing d m \<Longrightarrow> (k, v) \<in> set (ents sizing d m) \<Longrightarrow> first_key m \<le> k \<and> k \<le> last_key m"
  using sorted_kvs_bounds [OF good_table_sorted, of sizing d m k v] by (simp add: good_table_def meta_ok_def)

text \<open>The lookup of one table inside the engine: the range of the metadata, the filter, then the file.\<close>

definition table_lookup :: "bloom_sizing \<Rightarrow> directory \<Rightarrow> sst_meta \<Rightarrow> bytes \<Rightarrow> bytes option option io" where
  "table_lookup sizing d m key = tables_get sizing d [m] key"

definition table_scan :: "bloom_sizing \<Rightarrow> directory \<Rightarrow> sst_meta \<Rightarrow> bytes \<Rightarrow> bytes \<Rightarrow> kv list io" where
  "table_scan sizing d m a b = (if last_key m < a \<or> first_key m > b then Inr [] else sst_range sizing d (m_path m) a b)"

lemma map_of_outside:
  "good_table sizing d m \<Longrightarrow> k < first_key m \<or> last_key m < k \<Longrightarrow> map_of (ents sizing d m) k = None"
  using good_table_bounds [of sizing d m k] by (force simp: map_of_eq_None_iff)

lemma open_get:
  assumes "good_table sizing d m"
  obtains r where "reader_open sizing d (m_path m) = Inr r" "reader_get d r k = Inr (map_of (ents sizing d m) k)"
  using sst_get_table [OF good_table_at [OF assms], of sizing k]
  by (auto simp: sst_get_def split: sum.splits)

lemma table_lookup_good:
  assumes "good_table sizing d m"
  shows "table_lookup sizing d m k = Inr (map_of (ents sizing d m) k)"
proof -
  obtain r where r: "reader_open sizing d (m_path m) = Inr r" "reader_get d r k = Inr (map_of (ents sizing d m) k)"
    using open_get [OF assms] .
  have may: "reader_may_contain r k = Inr False \<and> map_of (ents sizing d m) k = None \<or> reader_may_contain r k = Inr True"
    using r(2) by (auto simp: reader_get_def split: sum.splits bool.splits)
  show ?thesis
  proof (cases "k < first_key m \<or> last_key m < k")
    case True
    then show ?thesis using map_of_outside [OF assms] by (simp add: table_lookup_def)
  next
    case False
    then show ?thesis using r may by (auto simp: table_lookup_def split: option.split)
  qed
qed

lemma filter_in_range_outside:
  assumes "good_table sizing d m" "last_key m < a \<or> b < first_key m"
  shows "filter (in_range a b) (ents sizing d m) = []"
  using good_table_bounds [OF assms(1)] assms(2) by (intro filter_none) force

lemma table_scan_good:
  "good_table sizing d m \<Longrightarrow> table_scan sizing d m a b = Inr (filter (in_range a b) (ents sizing d m))"
  using filter_in_range_outside [of sizing d m a b] sst_range_table [OF good_table_at, of sizing d m sizing a b]
  by (simp add: table_scan_def)

interpretation sst: kv_layer "good_table sizing d" "ents sizing d" "table_lookup sizing d" "table_scan sizing d"
  for sizing d
  by unfold_locales (simp_all add: table_lookup_good table_scan_good)

lemma tables_get_first_hit: "tables_get sizing d ms k = first_hit (\<lambda>m. table_lookup sizing d m k) ms"
  by (induction ms) (auto simp: table_lookup_def split: sum.split option.split bool.split)

lemma tables_get_view:
  "\<forall>m\<in>set ms. good_table sizing d m \<Longrightarrow> tables_get sizing d ms k = Inr (map_of (concat (map (ents sizing d) ms)) k)"
  by (simp add: tables_get_first_hit sst.first_hit_ok)

lemma table_ranges_view:
  "\<forall>m\<in>set ms. good_table sizing d m \<Longrightarrow> a \<le> b \<Longrightarrow>
    \<exists>xs. table_ranges sizing d ms a b p = Inr xs \<and> tagged p (filter (in_range a b) (concat (map (ents sizing d) ms))) xs"
proof (induction ms arbitrary: p)
  case (Cons m ms)
  let ?es = "filter (in_range a b) (ents sizing d m)"
  have IH: "\<exists>xs. table_ranges sizing d ms a b q = Inr xs \<and> tagged q (filter (in_range a b) (concat (map (ents sizing d) ms))) xs" for q
    using Cons by simp
  show ?case
  proof (cases "last_key m < a \<or> b < first_key m")
    case True
    then show ?thesis using IH [of p] filter_in_range_outside [of sizing d m a b] Cons.prems(1) by auto
  next
    case False
    have "sst_range sizing d (m_path m) a b = Inr ?es"
      using sst.rng_ok [of sizing d m a b] Cons.prems False by (simp add: table_scan_def)
    then obtain r where r: "reader_open sizing d (m_path m) = Inr r" "reader_range d r a b = Inr ?es"
      by (auto simp: sst_range_def split: sum.splits)
    obtain xs where xs: "table_ranges sizing d ms a b (p + 1) = Inr xs"
        "tagged (p + 1) (filter (in_range a b) (concat (map (ents sizing d) ms))) xs"
      using IH by blast
    then show ?thesis using False r tagged_cons_layer [OF xs(2), of ?es] by auto
  qed
qed (simp add: tagged_Nil)

section \<open>Merging\<close>

lemma map_of_filter_key: "map_of (filter (\<lambda>x. fst x = k) ys) k = map_of ys k"
  by (induction ys) auto

lemma sorted_tag_key: "sorted is \<Longrightarrow> sorted (map (Pair k) is)"
  by (induction "is") auto

lemma map_of_by_key:
  assumes "sorted (map snd xs)"
  shows "map_of (map fst (by_key_then_index xs)) = map_of (map fst xs)"
proof
  fix k
  let ?P = "\<lambda>x :: kv \<times> nat. fst (fst x) = k"
  have "sorted (map snd (filter ?P xs))" using assms by (induction xs) auto
  moreover have "map (\<lambda>(e, i). (fst e, i)) (filter ?P xs) = map (Pair k) (map snd (filter ?P xs))" by auto
  ultimately have "sorted (map (\<lambda>(e, i). (fst e, i)) (filter ?P xs))" using sorted_tag_key by metis
  then have "filter ?P (by_key_then_index xs) = filter ?P xs"
    by (simp add: by_key_then_index_def filter_sort sort_key_id_if_sorted)
  then have "filter (\<lambda>x. fst x = k) (map fst (by_key_then_index xs)) = filter (\<lambda>x. fst x = k) (map fst xs)"
    by (simp add: filter_map comp_def)
  then show "map_of (map fst (by_key_then_index xs)) k = map_of (map fst xs) k"
    by (metis map_of_filter_key)
qed

lemma by_key_sorted: "sorted (map fst (map fst (by_key_then_index xs)))"
proof -
  have "sorted (map (\<lambda>(e, i). (fst e, i)) (by_key_then_index xs))" unfolding by_key_then_index_def by simp
  then show ?thesis by (simp add: sorted_map case_prod_unfold less_eq_prod_def)
     (rule sorted_wrt_mono_rel [rotated], assumption, auto simp: less_imp_le)
qed

lemma fold_or_insert: "fmlookup (fold or_insert ys m) k = (case fmlookup m k of Some v \<Rightarrow> Some v | None \<Rightarrow> map_of (map fst ys) k)"
proof (induction ys arbitrary: m)
  case (Cons y ys)
  obtain k' v i where y: "y = ((k', v), i)" by (metis surj_pair)
  show ?case using Cons y by (auto simp: or_insert_def split: option.split)
qed (simp split: option.split)

lemma read_all_view:
  "\<forall>m\<in>set ms. good_table sizing d m \<Longrightarrow> \<exists>xs. read_all sizing d p ms = Inr xs \<and> tagged p (concat (map (ents sizing d) ms)) xs"
proof (induction ms arbitrary: p)
  case (Cons m ms)
  then have "sst_iter sizing d (m_path m) = Inr (ents sizing d m)" using sst_iter_table good_table_at by simp
  then obtain r where r: "reader_open sizing d (m_path m) = Inr r" "reader_iter d r = Inr (ents sizing d m)"
    by (auto simp: sst_iter_def split: sum.splits)
  obtain xs where xs: "read_all sizing d (p + 1) ms = Inr xs" "tagged (p + 1) (concat (map (ents sizing d) ms)) xs"
    using Cons by fastforce
  then show ?case using r tagged_cons_layer [OF xs(2), of "ents sizing d m"] by auto
qed (simp add: tagged_Nil)

text \<open>The entries of a merge: those of the newest table that knows the key, tombstones dropped on request.\<close>

definition drop_dead :: "bool \<Rightarrow> bytes option option \<Rightarrow> bytes option option" where
  "drop_dead dead x = (if dead \<and> x = Some None then None else x)"

lemma vis_drop_dead [simp]: "vis (drop_dead dead x) = vis x"
  by (simp add: drop_dead_def)

lemma drop_dead_False [simp]: "drop_dead False x = x"
  by (simp add: drop_dead_def)

lemma map_of_filter_value:
  "distinct (map fst es) \<Longrightarrow> map_of (filter (\<lambda>(k, v). \<not> dead \<or> v \<noteq> None) es) k = drop_dead dead (map_of es k)"
proof (induction es)
  case (Cons e es)
  have "map_of (filter (\<lambda>(k, v). \<not> dead \<or> v \<noteq> None) es) k = None" if "k \<notin> fst ` set es"
    using that by (force simp: map_of_eq_None_iff)
  with Cons show ?case by (cases e) (auto simp: drop_dead_def map_of_eq_None_iff [symmetric])
qed (simp add: drop_dead_def)

lemma sorted_kvs_filter: "sorted_kvs es \<Longrightarrow> sorted_kvs (filter P es)"
  by (induction es) auto

lemma sorted_kvs_distinct: "sorted_kvs es \<Longrightarrow> distinct (map fst es)"
  by (rule strict_sorted_iff [THEN iffD1, THEN conjunct2])

lemma merge_sstables_view:
  assumes "\<forall>m\<in>set ms. good_table sizing d m"
  obtains es where "merge_sstables sizing d ms dead = Inr es" "sorted_kvs es"
    "\<forall>k. map_of es k = drop_dead dead (map_of (concat (map (ents sizing d) ms)) k)"
proof -
  obtain xs where xs: "read_all sizing d 0 ms = Inr xs" "tagged 0 (concat (map (ents sizing d) ms)) xs"
    using read_all_view [OF assms] by blast
  let ?M = "fold or_insert (by_key_then_index xs) fmempty"
  let ?es = "filter (\<lambda>(k, v). \<not> dead \<or> v \<noteq> None) (fm_entries ?M)"
  have "fmlookup ?M = map_of (concat (map (ents sizing d) ms))"
    using xs(2) map_of_by_key [of xs] by (auto simp: fold_or_insert tagged_def)
  then have "map_of ?es k = drop_dead dead (map_of (concat (map (ents sizing d) ms)) k)" for k
    by (subst map_of_filter_value) simp_all
  then show thesis
    using that [of ?es] xs(1) sorted_kvs_filter [OF sorted_fm_entries] by (simp add: merge_sstables_def)
qed

section \<open>Reads of the engine\<close>

text \<open>The tables of all levels in the order in which the engine searches them, and all layers.\<close>

definition search_order :: "sst_meta list list \<Rightarrow> sst_meta list" where
  "search_order ls = concat (map newest_first ls)"

definition tables_view :: "bloom_sizing \<Rightarrow> directory \<Rightarrow> sst_meta list list \<Rightarrow> bytes \<Rightarrow> bytes option option" where
  "tables_view sizing d ls = map_of (concat (map (ents sizing d) (search_order ls)))"

definition all_good :: "bloom_sizing \<Rightarrow> directory \<Rightarrow> sst_meta list list \<Rightarrow> bool" where
  "all_good sizing d ls \<longleftrightarrow> (\<forall>l\<in>set ls. \<forall>m\<in>set l. good_table sizing d m)"

lemma set_newest_first [simp]: "set (newest_first l) = set l"
  by (simp add: newest_first_def)

lemma search_order_simps [simp]: "search_order [] = []" "search_order (l # ls) = newest_first l @ search_order ls"
  by (simp_all add: search_order_def)

lemma set_search_order [simp]: "set (search_order ls) = set (concat ls)"
  by (simp add: search_order_def)

lemma tables_view_simps:
  "tables_view sizing d [] = Map.empty"
  "tables_view sizing d (l # ls) = tables_view sizing d ls ++ map_of (concat (map (ents sizing d) (newest_first l)))"
  by (simp_all add: tables_view_def)

lemma all_good_simps [simp]:
  "all_good sizing d []" "all_good sizing d (l # ls) \<longleftrightarrow> (\<forall>m\<in>set l. good_table sizing d m) \<and> all_good sizing d ls"
  by (simp_all add: all_good_def)

lemma levels_get_view: "all_good sizing d ls \<Longrightarrow> levels_get sizing d ls k = Inr (vis (tables_view sizing d ls k))"
proof (induction ls)
  case (Cons l ls)
  then show ?case
    by (auto simp: tables_get_view tables_view_simps map_add_def split: option.split)
qed (simp add: tables_view_simps)

definition mem_view :: "lsm \<Rightarrow> bytes \<Rightarrow> bytes option option" where
  "mem_view s = map_of (concat (map mt_iter (active s # rev (immutable s))))"

definition lsm_view :: "bloom_sizing \<Rightarrow> lsm \<Rightarrow> bytes \<Rightarrow> bytes option option" where
  "lsm_view sizing s = tables_view sizing (files (disk s)) (levels (manifest s)) ++ mem_view s"

lemma lsm_get_view:
  assumes "all_good sizing (files (disk s)) (levels (manifest s))"
  shows "lsm_get sizing s k = Inr (vis (lsm_view sizing s k))"
  using levels_get_view [OF assms, of k]
  by (auto simp: lsm_get_def lsm_view_def mem_view_def imm_get_view map_add_def split: option.split)

lemma dedup_sorted:
  assumes "sorted (map fst (map fst ys))" "\<forall>p. prev = Some p \<longrightarrow> (\<forall>y\<in>set ys. p \<le> fst (fst y))"
  shows "sorted_wrt (<) (map fst (dedup prev ys)) \<and>
    set (dedup prev ys) = {(k, v). prev \<noteq> Some k \<and> map_of (map fst ys) k = Some (Some v)}"
  using assms
proof (induction prev ys rule: dedup.induct)
  case (2 prev key val i rest)
  show ?case
  proof (cases "prev = Some key")
    case True
    with 2 show ?thesis by (auto split: if_splits)
  next
    case False
    have IH: "sorted_wrt (<) (map fst (dedup (Some key) rest))"
        "set (dedup (Some key) rest) = {(k, v). key \<noteq> k \<and> map_of (map fst rest) k = Some (Some v)}"
      using "2.IH"(2) [OF False] "2.prems" by auto
    have "key < k" if "(k, v) \<in> set (dedup (Some key) rest)" for k v
    proof -
      have "(k, Some v) \<in> set (map fst rest)" "key \<noteq> k" using that IH(2) by (auto dest: map_of_SomeD)
      then show ?thesis using "2.prems"(1) by force
    qed
    then have sorted: "sorted_wrt (<) (map fst (dedup prev (((key, val), i) # rest)))"
      using IH(1) False by (auto split: option.split)
    have "prev \<noteq> Some k" if "(k, v) \<in> set (map fst (((key, val), i) # rest))" for k v
      using "2.prems" False that by (force dest: order.antisym)
    then have "set (dedup prev (((key, val), i) # rest)) =
        {(k, v). prev \<noteq> Some k \<and> map_of (map fst (((key, val), i) # rest)) k = Some (Some v)}"
      using IH(2) False by (force split: option.split if_splits dest: map_of_SomeD)
    then show ?thesis using sorted by blast
  qed
qed simp

lemma map_of_filter_in_range:
  "map_of (filter (in_range a b) es) k = (if a \<le> k \<and> k \<le> b then map_of es k else None)"
  by (induction es) auto

lemma lsm_range_view:
  assumes "all_good sizing (files (disk s)) (levels (manifest s))" "a \<le> b"
  shows "\<exists>xs. lsm_range sizing s a b = Inr xs \<and> sorted_wrt (<) (map fst xs) \<and>
    set xs = {(k, v). a \<le> k \<and> k \<le> b \<and> vis (lsm_view sizing s k) = Some v}"
proof -
  let ?mems = "active s # rev (immutable s)" and ?ms = "search_order (levels (manifest s))" and ?d = "files (disk s)"
  obtain xs where xs: "mem_ranges ?mems a b 0 = Inr xs" "tagged 0 (filter (in_range a b) (concat (map mt_iter ?mems))) xs"
      "\<forall>x\<in>set xs. snd x < length ?mems"
    using mem_ranges_view [OF assms(2), of ?mems 0] by auto
  have "\<forall>m\<in>set ?ms. good_table sizing ?d m" using assms(1) by (auto simp: all_good_def)
  then obtain ys where ys: "table_ranges sizing ?d ?ms a b (length ?mems) = Inr ys"
      "tagged (length ?mems) (filter (in_range a b) (concat (map (ents sizing ?d) ?ms))) ys"
    using table_ranges_view [OF _ assms(2)] by blast
  let ?zs = "by_key_then_index (xs @ ys)"
  have "sorted (map snd (xs @ ys))" using xs(2,3) ys(2) by (fastforce simp: tagged_def sorted_append)
  then have "map_of (map fst ?zs) = map_of (map fst (xs @ ys))" by (rule map_of_by_key)
  then have zs: "map_of (map fst ?zs) k = (if a \<le> k \<and> k \<le> b then lsm_view sizing s k else None)" for k
    using xs(2) ys(2)
    by (simp add: tagged_def map_add_def map_of_filter_in_range lsm_view_def mem_view_def tables_view_def
        del: list.map concat.simps split: option.split)
  have "lsm_range sizing s a b = Inr (dedup None ?zs)"
    using xs(1) ys(1) by (simp add: lsm_range_def search_order_def Let_def)
  moreover have "vis x = Some v \<longleftrightarrow> x = Some (Some v)" for x v by (simp add: vis_def split: option.split)
  ultimately show ?thesis
    using dedup_sorted [OF by_key_sorted, of None "xs @ ys"] zs by (auto split: if_splits)
qed

end
