(* ===== verification/Lsm_Compaction.thy ===== *)
theory Lsm_Compaction
  imports Lsm_View
begin

text \<open>
  Compaction of the log-structured engine: the invariant of the tables on disk, that writing and compacting tables keep it, and
  when a compaction leaves every read unchanged.
\<close>

section \<open>Tables of a level\<close>

lemma table_at_cong: "fmlookup d' p = fmlookup d p \<Longrightarrow> table_at d' p es = table_at d p es"
  by (simp add: table_at_def)

lemma meta_ok_cong: "fmlookup d' (m_path m) = fmlookup d (m_path m) \<Longrightarrow> meta_ok d' m es = meta_ok d m es"
  unfolding meta_ok_def by (drule table_at_cong [where es = es]) simp

lemma same_file:
  assumes "fmlookup d' (m_path m) = fmlookup d (m_path m)" "good_table sizing d m"
  shows "good_table sizing d' m" "ents sizing d' m = ents sizing d m"
proof -
  have "meta_ok d' m (ents sizing d m)" using assms(2) unfolding good_table_def meta_ok_cong [OF assms(1)] .
  then show "good_table sizing d' m" "ents sizing d' m = ents sizing d m" by (rule good_tableI, rule meta_ok_ents)
qed

text \<open>What a level says about a key: its newest table that knows it.\<close>

definition lv :: "bloom_sizing \<Rightarrow> directory \<Rightarrow> sst_meta list \<Rightarrow> bytes \<Rightarrow> bytes option option" where
  "lv sizing d l = map_of (concat (map (ents sizing d) (newest_first l)))"

definition tables_disjoint :: "sst_meta list \<Rightarrow> bool" where
  "tables_disjoint l \<longleftrightarrow> (\<forall>x\<in>set l. \<forall>y\<in>set l. x \<noteq> y \<longrightarrow> last_key x < first_key y \<or> last_key y < first_key x)"

lemma tables_disjoint_subset: "tables_disjoint l \<Longrightarrow> set xs \<subseteq> set l \<Longrightarrow> tables_disjoint xs"
  unfolding tables_disjoint_def by blast

lemma tables_disjoint_append:
  "tables_disjoint xs \<Longrightarrow> tables_disjoint ys \<Longrightarrow>
    (\<And>x y. x \<in> set xs \<Longrightarrow> y \<in> set ys \<Longrightarrow> last_key x < first_key y \<or> last_key y < first_key x) \<Longrightarrow> tables_disjoint (xs @ ys)"
  unfolding tables_disjoint_def set_append by blast

lemma newest_first_Nil [simp]: "newest_first [] = []" "newest_first [x] = [x]"
  by (simp_all add: newest_first_def)

lemma lv_Nil [simp]: "lv sizing d [] = Map.empty"
  by (simp add: lv_def)

lemma newest_first_append:
  "\<forall>x\<in>set xs. \<forall>y\<in>set ys. m_id y < m_id x \<Longrightarrow> newest_first (xs @ ys) = newest_first xs @ newest_first ys"
  unfolding newest_first_def
proof (rule properties_for_sort_key)
  let ?f = "\<lambda>m. - int (m_id m)"
  assume lt: "\<forall>x\<in>set xs. \<forall>y\<in>set ys. m_id y < m_id x"
  show "mset (sort_key ?f xs @ sort_key ?f ys) = mset (xs @ ys)" by simp
  show "sorted (map ?f (sort_key ?f xs @ sort_key ?f ys))"
    using lt by (auto simp: sorted_append less_imp_le)
  have "filter (\<lambda>x. ?f k = ?f x) (sort_key ?f zs) = filter (\<lambda>x. ?f k = ?f x) zs" for k :: sst_meta and zs :: "sst_meta list"
  proof -
    have "sorted (map ?f (filter (\<lambda>x. ?f k = ?f x) zs))" by (induction zs) auto
    then show ?thesis by (simp only: filter_sort sort_key_id_if_sorted)
  qed
  then show "filter (\<lambda>x. ?f k = ?f x) (sort_key ?f xs @ sort_key ?f ys) = filter (\<lambda>x. ?f k = ?f x) (xs @ ys)" for k :: sst_meta
    by (simp only: filter_append)
qed

lemma newest_first_snoc:
  assumes "\<forall>x\<in>set l. m_id x < m_id y" "distinct (map m_id l)"
  shows "newest_first (l @ [y]) = y # newest_first l"
proof -
  have "inj_on (\<lambda>m. - int (m_id m)) (set (l @ [y]))"
    using assms by (auto simp: inj_on_def distinct_map)
  then have "newest_first (l @ [y]) = newest_first ([y] @ l)"
    unfolding newest_first_def by (intro sort_key_eq_sort_key) simp_all
  also have "\<dots> = y # newest_first l" using assms(1) by (subst newest_first_append) auto
  finally show ?thesis .
qed

lemma key_in_bounds:
  "good_table sizing d x \<Longrightarrow> map_of (ents sizing d x) k = Some v \<Longrightarrow> first_key x \<le> k \<and> k \<le> last_key x"
  using good_table_bounds by (metis map_of_SomeD)

lemma disjoint_same_table:
  assumes "tables_disjoint l" "x \<in> set l" "y \<in> set l" "good_table sizing d x" "good_table sizing d y"
    "map_of (ents sizing d x) k = Some v" "map_of (ents sizing d y) k = Some w"
  shows "x = y"
  using assms key_in_bounds [OF assms(4,6)] key_in_bounds [OF assms(5,7)] unfolding tables_disjoint_def
  by (meson leD le_less_trans less_le_trans)

lemma map_of_concat_any:
  "map_of (concat ls) k = Some v \<Longrightarrow> \<exists>l\<in>set ls. map_of l k = Some v"
  by (induction ls) (auto simp: map_add_def split: option.splits)

lemma map_of_concat_None: "map_of (concat ls) k = None \<longleftrightarrow> (\<forall>l\<in>set ls. map_of l k = None)"
  by (induction ls) (auto simp: map_add_def split: option.splits)

lemma lv_SomeD: "lv sizing d l k = Some v \<Longrightarrow> \<exists>x\<in>set l. map_of (ents sizing d x) k = Some v"
  unfolding lv_def using map_of_concat_any by fastforce

lemma lv_None: "lv sizing d l k = None \<longleftrightarrow> (\<forall>x\<in>set l. map_of (ents sizing d x) k = None)"
  unfolding lv_def map_of_concat_None by simp

lemma lv_disjoint:
  assumes "tables_disjoint l" "\<forall>x\<in>set l. good_table sizing d x"
  shows "lv sizing d l k = Some v \<longleftrightarrow> (\<exists>x\<in>set l. map_of (ents sizing d x) k = Some v)"
proof
  assume "\<exists>x\<in>set l. map_of (ents sizing d x) k = Some v"
  then obtain x where x: "x \<in> set l" "map_of (ents sizing d x) k = Some v" by blast
  then obtain w where w: "lv sizing d l k = Some w" using lv_None [of sizing d l k] by fastforce
  then obtain y where y: "y \<in> set l" "map_of (ents sizing d y) k = Some w" using lv_SomeD by blast
  then have "x = y" using disjoint_same_table [OF assms(1)] x assms(2) by blast
  then show "lv sizing d l k = Some v" using w x y by simp
qed (rule lv_SomeD)

lemma lv_disjoint_split:
  assumes "tables_disjoint l" "\<forall>x\<in>set l. good_table sizing d x" "set l = set xs \<union> set ys"
  shows "lv sizing d l = lv sizing d xs ++ lv sizing d ys"
proof
  fix k
  have sub: "tables_disjoint xs" "tables_disjoint ys" using assms(1,3) by (auto simp: tables_disjoint_def)
  have good: "\<forall>x\<in>set xs. good_table sizing d x" "\<forall>x\<in>set ys. good_table sizing d x" using assms(2,3) by auto
  show "lv sizing d l k = (lv sizing d xs ++ lv sizing d ys) k"
  proof (cases "lv sizing d ys k")
    case None
    show ?thesis
    proof (cases "lv sizing d xs k")
      case None': None
      have "lv sizing d l k = None" using None None' assms(3) by (auto simp: lv_None)
      then show ?thesis using None None' by (simp add: map_add_def)
    next
      case (Some v)
      then have "lv sizing d l k = Some v"
        using lv_disjoint [OF assms(1,2)] lv_disjoint [OF sub(1) good(1)] assms(3) by blast
      then show ?thesis using None Some by (simp add: map_add_def)
    qed
  next
    case (Some v)
    then have "lv sizing d l k = Some v"
      using lv_disjoint [OF assms(1,2)] lv_disjoint [OF sub(2) good(2)] assms(3) by blast
    then show ?thesis using Some by (simp add: map_add_def)
  qed
qed

lemma lv_cong:
  assumes "\<forall>x\<in>set l. fmlookup d' (m_path x) = fmlookup d (m_path x)" "\<forall>x\<in>set l. good_table sizing d x"
  shows "lv sizing d' l = lv sizing d l"
  unfolding lv_def using assms same_file(2) by (metis (no_types, lifting) map_cong set_newest_first)

section \<open>Chunks\<close>

lemma concat_chunks: "0 < n \<Longrightarrow> concat (chunks n xs) = xs"
proof (induction n xs rule: chunks.induct)
  case (1 n xs)
  then show ?case by (subst chunks.simps) auto
qed

lemma chunks_not_Nil: "[] \<notin> set (chunks n xs)"
proof (induction n xs rule: chunks.induct)
  case (1 n xs)
  then show ?case by (subst chunks.simps) auto
qed

section \<open>Writing tables\<close>

text \<open>Every table that can be made of the entries \<open>W\<close> fits the \<open>u32\<close> fields of the file format.\<close>

definition fits_all :: "bloom_sizing \<Rightarrow> kv set \<Rightarrow> bool" where
  "fits_all sizing W \<longleftrightarrow> (\<forall>es. es \<noteq> [] \<longrightarrow> sorted_kvs es \<longrightarrow> set es \<subseteq> W \<longrightarrow> fits sizing es)"

text \<open>A table of level \<open>lvl\<close> whose file and metadata agree.\<close>

definition table_wf :: "bloom_sizing \<Rightarrow> kv set \<Rightarrow> directory \<Rightarrow> nat \<Rightarrow> sst_meta \<Rightarrow> bool" where
  "table_wf sizing W d lvl x \<longleftrightarrow> good_table sizing d x \<and> set (ents sizing d x) \<subseteq> W \<and> m_level x = lvl \<and> m_path x = SstPath (m_id x)"

lemma table_wf_same_file:
  assumes "fmlookup d' (SstPath (m_id x)) = fmlookup d (SstPath (m_id x))" "table_wf sizing W d lvl x"
  shows "table_wf sizing W d' lvl x" "ents sizing d' x = ents sizing d x"
proof -
  have "fmlookup d' (m_path x) = fmlookup d (m_path x)" "good_table sizing d x" using assms by (simp_all add: table_wf_def)
  from same_file [OF this] show "table_wf sizing W d' lvl x" "ents sizing d' x = ents sizing d x"
    using assms(2) by (simp_all add: table_wf_def)
qed

lemma write_one_table:
  assumes "fits_all sizing W" "sorted_kvs c" "c \<noteq> []" "set c \<subseteq> W"
  obtains meta fl where "write_table sizing i lvl (SstPath i) c = Inr (meta, fl)" "m_id meta = i"
    "\<And>d. fmlookup d (SstPath i) = Some fl \<Longrightarrow> table_wf sizing W d lvl meta \<and> ents sizing d meta = c"
proof -
  have "fits sizing c" using assms by (simp add: fits_all_def)
  then obtain fl where fl: "write_table sizing i lvl (SstPath i) c = Inr (table_meta i lvl (SstPath i) c (length fl), fl)"
      "\<And>d. fmlookup d (SstPath i) = Some fl \<Longrightarrow> table_at d (SstPath i) c"
    using write_table_at [OF _ assms(2,3)] by metis
  let ?meta = "table_meta i lvl (SstPath i) c (length fl)"
  have ok: "meta_ok d ?meta c" if V: "fmlookup d (SstPath i) = Some fl" for d
  proof -
    have at: "table_at d (SstPath i) c" by (rule fl(2) [OF V])
    then obtain bs bl where "fl = sst_image bs bl" using V by (auto simp: table_at_def table_image_def)
    then have "0 < length fl" unfolding length_greater_0_conv [symmetric] by (simp add: sst_image_def Let_def sst_footer_def)
    then show ?thesis using at assms(3) by (simp add: meta_ok_def table_meta_def)
  qed
  have "m_level ?meta = lvl" "m_path ?meta = SstPath (m_id ?meta)" by (simp_all add: table_meta_def)
  then have "table_wf sizing W d lvl ?meta \<and> ents sizing d ?meta = c" if V: "fmlookup d (SstPath i) = Some fl" for d
    using good_tableI [OF ok [OF V]] meta_ok_ents [OF ok [OF V]] assms(4) by (simp add: table_wf_def)
  then show thesis using that fl(1) by (simp add: table_meta_def)
qed

lemma write_chunks_view:
  assumes "fits_all sizing W" "\<forall>c\<in>set cs. sorted_kvs c \<and> c \<noteq> [] \<and> set c \<subseteq> W"
  shows "\<exists>ms m' d'. write_chunks sizing lvl cs m d = Inr (ms, m', d') \<and> levels m' = levels m \<and>
    next_sst_id m' = next_sst_id m + length cs \<and> saved d' = saved d \<and>
    map m_id ms = [next_sst_id m..<next_sst_id m + length cs] \<and>
    (\<forall>x\<in>set ms. table_wf sizing W (files d') lvl x) \<and> map (ents sizing (files d')) ms = cs \<and>
    (\<forall>i < next_sst_id m. fmlookup (files d') (SstPath i) = fmlookup (files d) (SstPath i))"
  using assms(2)
proof (induction cs arbitrary: m d)
  case (Cons c cs)
  let ?i = "next_sst_id m"
  obtain meta fl where meta: "write_table sizing ?i lvl (SstPath ?i) c = Inr (meta, fl)" "m_id meta = ?i"
      "\<And>d. fmlookup d (SstPath ?i) = Some fl \<Longrightarrow> table_wf sizing W d lvl meta \<and> ents sizing d meta = c"
    using write_one_table [OF assms(1), of c] Cons.prems by (metis list.set_intros(1))
  let ?m = "m\<lparr>next_sst_id := ?i + 1\<rparr>" and ?d = "d\<lparr>files := fmupd (SstPath ?i) fl (files d)\<rparr>"
  obtain ms m' d' where rest: "write_chunks sizing lvl cs ?m ?d = Inr (ms, m', d')" "levels m' = levels m"
      "next_sst_id m' = ?i + 1 + length cs" "saved d' = saved d" "map m_id ms = [?i + 1..<?i + 1 + length cs]"
      "\<forall>x\<in>set ms. table_wf sizing W (files d') lvl x" "map (ents sizing (files d')) ms = cs"
      "\<forall>i < ?i + 1. fmlookup (files d') (SstPath i) = fmlookup (files ?d) (SstPath i)"
    using Cons.IH [of ?m ?d] Cons.prems by auto
  have "fmlookup (files d') (SstPath ?i) = Some fl" using rest(8) by simp
  then have "table_wf sizing W (files d') lvl meta \<and> ents sizing (files d') meta = c" by (rule meta(3))
  moreover have "write_chunks sizing lvl (c # cs) m d = Inr (meta # ms, m', d')"
    using meta(1) rest(1) by (simp add: allocate_sst_def)
  moreover have "map m_id (meta # ms) = [?i..<?i + length (c # cs)]"
    using meta(2) rest(5) by (simp add: upt_rec [of ?i] del: upt_Suc)
  ultimately show ?case using rest by (intro exI [of _ "meta # ms"] exI [of _ m'] exI [of _ d']) auto
qed simp

section \<open>The tables on disk\<close>

definition saved_ok :: "nat \<Rightarrow> manifest \<Rightarrow> disk \<Rightarrow> bool" where
  "saved_ok n m d \<longleftrightarrow> saved d = Some \<lparr>md_next = next_sst_id m, md_entries = concat (levels m)\<rparr> \<or>
     saved d = None \<and> m = manifest_new n"

definition ids_unique :: "sst_meta list list \<Rightarrow> bool" where
  "ids_unique ls \<longleftrightarrow> (\<forall>l\<in>set ls. distinct (map m_id l)) \<and> inj_on m_id (set (concat ls))"

definition store_wf :: "bloom_sizing \<Rightarrow> kv set \<Rightarrow> nat \<Rightarrow> manifest \<Rightarrow> disk \<Rightarrow> bool" where
  "store_wf sizing W n m d \<longleftrightarrow>
     length (levels m) = n \<and>
     (\<forall>i < n. \<forall>x\<in>set (levels m ! i). table_wf sizing W (files d) i x \<and> m_id x < next_sst_id m) \<and>
     ids_unique (levels m) \<and>
     (\<forall>i < n. 0 < i \<longrightarrow> tables_disjoint (levels m ! i)) \<and>
     saved_ok n m d"

text \<open>Level 0 holds the newest tables: each is younger than every table of level 1.\<close>

definition l0_newest :: "manifest \<Rightarrow> bool" where
  "l0_newest m \<longleftrightarrow> 1 < length (levels m) \<longrightarrow> (\<forall>x\<in>set (levels m ! 0). \<forall>y\<in>set (levels m ! 1). m_id y < m_id x)"

lemma store_wf_good: "store_wf sizing W n m d \<Longrightarrow> all_good sizing (files d) (levels m)"
  unfolding all_good_def store_wf_def table_wf_def by (metis in_set_conv_nth)

lemma store_wf_empty: "store_wf sizing W n (manifest_new n) \<lparr>files = fs, saved = None\<rparr>"
  by (simp add: store_wf_def manifest_new_def saved_ok_def tables_disjoint_def ids_unique_def)

lemma push_level_at: "m_level x < length ls \<Longrightarrow> push_level x ls = ls[m_level x := ls ! m_level x @ [x]]"
  by (simp add: push_level_def)

lemma add_sstables_levels:
  "\<forall>x\<in>set xs. m_level x = lvl \<Longrightarrow> lvl < length (levels m) \<Longrightarrow>
    fold add_sstable xs m = m\<lparr>levels := (levels m)[lvl := levels m ! lvl @ xs]\<rparr>"
proof (induction xs arbitrary: m)
  case (Cons x xs)
  have "add_sstable x m = m\<lparr>levels := (levels m)[lvl := levels m ! lvl @ [x]]\<rparr>"
    using Cons.prems by (simp add: add_sstable_def push_level_at)
  then show ?case using Cons by simp
qed simp

section \<open>The steps of a compaction\<close>

lemma find_by_id: "x \<in> set ys \<Longrightarrow> inj_on m_id (set ys) \<Longrightarrow> find (\<lambda>y. m_id y = m_id x) ys = Some x"
  by (induction ys) (auto simp: inj_on_def)

lemma find_metas_ids:
  assumes "ids_unique (levels m)" "set xs \<subseteq> set (concat (levels m))"
  shows "find_metas m (map m_id xs) = xs"
  using assms(2)
proof (induction xs)
  case (Cons x xs)
  have "inj_on m_id (set (concat (levels m)))" using assms(1) by (simp add: ids_unique_def)
  then have "find_meta m (m_id x) = Some x" unfolding find_meta_def using Cons.prems by (intro find_by_id) auto
  with Cons show ?case by (simp add: find_metas_def map_filter_simps)
qed (simp add: find_metas_def map_filter_simps)

lemma fmlookup_fold_drop: "fmlookup (fold (\<lambda>x. fmdrop (m_path x)) xs d) p = (if p \<in> m_path ` set xs then None else fmlookup d p)"
  by (induction xs arbitrary: d) auto

definition source_of :: "sst_meta list \<Rightarrow> nat \<Rightarrow> sst_meta list" where
  "source_of tables level = (if level = 0 then tables else [arg_min_list first_key tables])"

lemma select_source_spec:
  assumes "tables \<noteq> []"
  shows "select_source tables level = Some (map m_id (source_of tables level),
      Min (first_key ` set (source_of tables level)), Max (last_key ` set (source_of tables level)))"
  using assms by (simp add: select_source_def source_of_def Let_def)

lemma source_of_in: "tables \<noteq> [] \<Longrightarrow> set (source_of tables level) \<subseteq> set tables \<and> source_of tables level \<noteq> []"
  using arg_min_list_in [of tables first_key] by (simp add: source_of_def)

text \<open>The pieces into which the entries of a merge are cut.\<close>

definition merged_chunks :: "lsm_config \<Rightarrow> kv list \<Rightarrow> kv list list" where
  "merged_chunks c es =
     (if es = [] then [] else chunks (max (estimate_entries_per_sst es (target_sst_size c)) 1) es)"

lemma write_merged_chunks: "write_merged_entries sizing m d es lvl c = write_chunks sizing lvl (merged_chunks c es) m d"
  by (simp add: write_merged_entries_def merged_chunks_def Let_def)

lemma concat_merged_chunks: "concat (merged_chunks c es) = es" "[] \<notin> set (merged_chunks c es)"
  by (simp_all add: merged_chunks_def concat_chunks chunks_not_Nil)

text \<open>
  A compaction of a level that is not the last and not empty: the source tables \<open>S\<close>, the overlapping tables \<open>T\<close> of the next
  level, the entries \<open>es\<close> of their merge, the new tables, and the disk \<open>d1\<close> before the old files are removed.
\<close>

record compaction_trace =
  tr_source :: "sst_meta list"
  tr_target :: "sst_meta list"
  tr_lo :: bytes
  tr_hi :: bytes
  tr_merged :: "kv list"
  tr_new :: "sst_meta list"
  tr_written :: disk

definition old_ids :: "compaction_trace \<Rightarrow> nat list" where
  "old_ids t = map m_id (tr_source t @ tr_target t)"

definition kept :: "compaction_trace \<Rightarrow> sst_meta list \<Rightarrow> sst_meta list" where
  "kept t l = filter (\<lambda>x. m_id x \<notin> set (old_ids t)) l"

definition after_levels :: "compaction_trace \<Rightarrow> nat \<Rightarrow> sst_meta list list \<Rightarrow> sst_meta list list" where
  "after_levels t level ls = (map (kept t) ls)[level + 1 := kept t (ls ! (level + 1)) @ tr_new t]"

definition trace_ok :: "bloom_sizing \<Rightarrow> kv set \<Rightarrow> lsm_config \<Rightarrow> manifest \<Rightarrow> disk \<Rightarrow> nat \<Rightarrow> compaction_trace \<Rightarrow> bool" where
  "trace_ok sizing W c m d level t \<longleftrightarrow>
     tr_source t = source_of (levels m ! level) level \<and>
     tr_source t \<noteq> [] \<and> set (tr_source t) \<subseteq> set (levels m ! level) \<and> (level = 0 \<longrightarrow> tr_source t = levels m ! 0) \<and>
     tr_lo t = Min (first_key ` set (tr_source t)) \<and> tr_hi t = Max (last_key ` set (tr_source t)) \<and>
     (\<forall>x\<in>set (tr_source t). tr_lo t \<le> first_key x \<and> last_key x \<le> tr_hi t) \<and>
     tr_target t = filter (\<lambda>x. ranges_overlap (first_key x) (last_key x) (tr_lo t) (tr_hi t)) (levels m ! (level + 1)) \<and>
     sorted_kvs (tr_merged t) \<and>
     (\<forall>k. map_of (tr_merged t) k = drop_dead (level + 1 \<ge> max_levels c - 1)
        (map_of (concat (map (ents sizing (files d)) (newest_first (tr_source t @ tr_target t)))) k)) \<and>
     map m_id (tr_new t) = [next_sst_id m..<next_sst_id m + length (tr_new t)] \<and>
     (\<forall>x\<in>set (tr_new t). table_wf sizing W (files (tr_written t)) (level + 1) x) \<and>
     map (ents sizing (files (tr_written t))) (tr_new t) = merged_chunks c (tr_merged t) \<and>
     (\<forall>i < next_sst_id m. fmlookup (files (tr_written t)) (SstPath i) = fmlookup (files d) (SstPath i))"

lemma trace_concat:
  "trace_ok sizing W c m d level t \<Longrightarrow> concat (map (ents sizing (files (tr_written t))) (tr_new t)) = tr_merged t"
  by (simp add: trace_ok_def concat_merged_chunks)

lemma trace_sorted: "trace_ok sizing W c m d level t \<Longrightarrow> sorted_kvs (tr_merged t)"
  by (simp add: trace_ok_def)

text \<open>What the compaction leaves on disk.\<close>

definition after_compaction :: "compaction_trace \<Rightarrow> nat \<Rightarrow> manifest \<Rightarrow> manifest \<times> disk" where
  "after_compaction t level m =
     (let m' = \<lparr>levels = after_levels t level (levels m), next_sst_id = next_sst_id m + length (tr_new t)\<rparr>
      in (m', manifest_save m' ((tr_written t)\<lparr>files := fold (\<lambda>x. fmdrop (m_path x)) (tr_source t @ tr_target t) (files (tr_written t))\<rparr>)))"

lemma compact_level_trace:
  assumes wf: "store_wf sizing W (max_levels c) m d" and fits: "fits_all sizing W"
    and lvl: "level + 1 < max_levels c" "levels m ! level \<noteq> []"
  obtains t res where "trace_ok sizing W c m d level t"
    "compact_level sizing m d level c = Inr (res, fst (after_compaction t level m), snd (after_compaction t level m))"
proof -
  let ?dead = "level + 1 \<ge> max_levels c - 1"
  have len: "length (levels m) = max_levels c" and dist: "ids_unique (levels m)"
    using wf by (simp_all add: store_wf_def)
  define S where "S = source_of (levels m ! level) level"
  define lo where "lo = Min (first_key ` set S)"
  define hi where "hi = Max (last_key ` set S)"
  have S: "select_source (levels m ! level) level = Some (map m_id S, lo, hi)" "S \<noteq> []"
      "set S \<subseteq> set (levels m ! level)" "level = 0 \<Longrightarrow> S = levels m ! level"
      "\<forall>x\<in>set S. lo \<le> first_key x \<and> last_key x \<le> hi"
    using select_source_spec [OF lvl(2), of level] source_of_in [OF lvl(2), of level]
    by (simp_all add: S_def lo_def hi_def source_of_def)
  let ?T = "filter (\<lambda>x. ranges_overlap (first_key x) (last_key x) lo hi) (levels m ! (level + 1))"
  have T: "overlapping_ids m (level + 1) lo hi = map m_id ?T" using len lvl(1) by (simp add: overlapping_ids_def)
  have sub: "set S \<subseteq> set (concat (levels m))" "set ?T \<subseteq> set (concat (levels m))"
  proof -
    have "levels m ! level \<in> set (levels m)" "levels m ! (level + 1) \<in> set (levels m)"
      using len lvl(1) by (simp_all add: nth_mem)
    then show "set S \<subseteq> set (concat (levels m))" "set ?T \<subseteq> set (concat (levels m))" using S(3) by fastforce+
  qed
  have find: "find_metas m (map m_id S) = S" "find_metas m (map m_id ?T) = ?T" "find_metas m (map m_id (S @ ?T)) = S @ ?T"
    by (rule find_metas_ids [OF dist sub(1)], rule find_metas_ids [OF dist sub(2)], rule find_metas_ids [OF dist])
      (use sub in simp)
  have good: "\<forall>x\<in>set (newest_first (S @ ?T)). good_table sizing (files d) x"
    using store_wf_good [OF wf] sub unfolding all_good_def by auto
  obtain es where es: "merge_sstables sizing (files d) (newest_first (S @ ?T)) ?dead = Inr es" "sorted_kvs es"
      "\<forall>k. map_of es k = drop_dead ?dead (map_of (concat (map (ents sizing (files d)) (newest_first (S @ ?T)))) k)"
    by (rule merge_sstables_view [OF good, of ?dead])
  have "set es \<subseteq> W"
  proof
    fix e assume "e \<in> set es"
    then obtain k v where e: "e = (k, v)" "map_of es k = Some v"
      using es(2) sorted_kvs_distinct map_of_is_SomeI by (metis prod.collapse)
    then have "map_of (concat (map (ents sizing (files d)) (newest_first (S @ ?T)))) k = Some v"
      using es(3) by (auto simp: drop_dead_def split: if_splits)
    then obtain x where x: "x \<in> set (S @ ?T)" "map_of (ents sizing (files d) x) k = Some v"
      using map_of_concat_any by fastforce
    then have "x \<in> set (concat (levels m))" using sub by auto
    then have "set (ents sizing (files d) x) \<subseteq> W"
      using wf unfolding store_wf_def table_wf_def by (metis UN_E in_set_conv_nth set_concat)
    then show "e \<in> W" using x(2) e(1) map_of_SomeD by fastforce
  qed
  define cs where "cs = merged_chunks c es"
  have cs: "concat cs = es" "[] \<notin> set cs"
      "write_merged_entries sizing m d es (level + 1) c = write_chunks sizing (level + 1) cs m d"
    unfolding cs_def by (rule concat_merged_chunks, rule concat_merged_chunks, rule write_merged_chunks)
  have "\<forall>x\<in>set cs. sorted_kvs x \<and> x \<noteq> [] \<and> set x \<subseteq> W"
    using es(2) cs(1,2) \<open>set es \<subseteq> W\<close> by (auto simp: in_set_conv_decomp sorted_wrt_append)
  from write_chunks_view [OF fits this, of "level + 1" m d]
  obtain ms m1 d1 where w: "write_chunks sizing (level + 1) cs m d = Inr (ms, m1, d1)" "levels m1 = levels m"
      "next_sst_id m1 = next_sst_id m + length cs" "saved d1 = saved d"
      "map m_id ms = [next_sst_id m..<next_sst_id m + length cs]" "\<forall>x\<in>set ms. table_wf sizing W (files d1) (level + 1) x"
      "map (ents sizing (files d1)) ms = cs" "\<forall>i < next_sst_id m. fmlookup (files d1) (SstPath i) = fmlookup (files d) (SstPath i)"
    by blast
  have n: "length ms = length cs" using w(7) by (metis length_map)
  define t where "t = \<lparr>tr_source = S, tr_target = ?T, tr_lo = lo, tr_hi = hi, tr_merged = es, tr_new = ms, tr_written = d1\<rparr>"
  have ok: "trace_ok sizing W c m d level t"
    unfolding trace_ok_def t_def using S es(2,3) w n cs(1) by (simp add: S_def lo_def hi_def cs_def)
  have find1: "find_metas m1 (map m_id (S @ ?T)) = S @ ?T"
    using find(3) unfolding find_metas_def find_meta_def w(2) .
  have add: "fold add_sstable ms (remove_sstables (map m_id (S @ ?T)) m1) =
      \<lparr>levels = after_levels t level (levels m), next_sst_id = next_sst_id m + length ms\<rparr>"
  proof -
    have kept: "filter (\<lambda>x. m_id x \<notin> set (map m_id (S @ ?T))) = kept t" by (rule ext) (simp add: kept_def old_ids_def t_def)
    have rem: "remove_sstables (map m_id (S @ ?T)) m1 = m1\<lparr>levels := map (kept t) (levels m)\<rparr>"
      unfolding remove_sstables_def kept w(2) ..
    have "fold add_sstable ms (m1\<lparr>levels := map (kept t) (levels m)\<rparr>) =
        m1\<lparr>levels := (map (kept t) (levels m))[level + 1 := map (kept t) (levels m) ! (level + 1) @ ms]\<rparr>"
      using add_sstables_levels [of ms "level + 1" "m1\<lparr>levels := map (kept t) (levels m)\<rparr>"] w(6) len lvl(1)
      by (simp add: table_wf_def)
    moreover have "tr_new t = ms" by (simp add: t_def)
    ultimately show ?thesis unfolding rem using len lvl(1) w(3) n by (simp add: after_levels_def)
  qed
  have "set (newest_first (S @ ?T)) \<noteq> {}" using S(2) unfolding set_newest_first by simp
  then have guards: "\<not> level \<ge> max_levels c - 1" "\<not> level \<ge> length (levels m)" "newest_first (S @ ?T) \<noteq> []"
    using len lvl(1) by force+
  have "compact_level sizing m d level c =
      Inr (\<lparr>removed_ids = map m_id (S @ ?T), new_sstables = ms\<rparr>, fst (after_compaction t level m), snd (after_compaction t level m))"
    unfolding compact_level_def Let_def if_not_P [OF guards(1)] if_not_P [OF guards(2)] S(1) option.case prod.case
      T find if_not_P [OF guards(3)] es(1) sum.case cs(3) w(1)
    using add find1 by (simp add: after_compaction_def remove_files_def t_def Let_def)
  with ok show thesis by (rule that)
qed

section \<open>A compaction keeps the tables well-formed\<close>

lemma good_nonempty:
  assumes "good_table sizing d x"
  shows "ents sizing d x \<noteq> []" "first_key x = fst (hd (ents sizing d x))" "last_key x = fst (last (ents sizing d x))"
  using assms by (simp_all add: good_table_def meta_ok_def)

lemma end_keys:
  assumes "good_table sizing d x"
  shows "first_key x \<in> fst ` set (ents sizing d x)" "last_key x \<in> fst ` set (ents sizing d x)"
  using good_nonempty [OF assms] by simp_all

lemma first_le_last: "good_table sizing d x \<Longrightarrow> first_key x \<le> last_key x"
  using good_table_bounds [of sizing d x] end_keys(1) [of sizing d x] by force

lemma sorted_tables_disjoint:
  "sorted_kvs (concat (map (ents sizing d) ms)) \<Longrightarrow> \<forall>x\<in>set ms. good_table sizing d x \<Longrightarrow> tables_disjoint ms"
proof (induction ms)
  case (Cons x ms)
  have "last_key x < first_key y" if "y \<in> set ms" for y
  proof -
    have "first_key y \<in> fst ` set (concat (map (ents sizing d) ms))" using end_keys(1) [of sizing d y] Cons.prems(2) that by auto
    moreover have "last_key x \<in> fst ` set (ents sizing d x)" using end_keys(2) Cons.prems(2) by simp
    ultimately show ?thesis using Cons.prems(1) by (fastforce simp: sorted_wrt_append)
  qed
  moreover have "tables_disjoint ms" using Cons by (simp add: sorted_wrt_append)
  ultimately show ?case by (auto simp: tables_disjoint_def)
qed (simp add: tables_disjoint_def)

lemma store_wf_table: "store_wf sizing W n m d \<Longrightarrow> i < n \<Longrightarrow> x \<in> set (levels m ! i) \<Longrightarrow>
    table_wf sizing W (files d) i x \<and> m_id x < next_sst_id m"
  by (simp add: store_wf_def)

lemma after_levels_nth:
  "i < length ls \<Longrightarrow> level + 1 < length ls \<Longrightarrow>
    after_levels t level ls ! i = kept t (ls ! i) @ (if i = level + 1 then tr_new t else [])"
  by (auto simp: after_levels_def nth_list_update)

lemma set_kept: "x \<in> set (kept t l) \<longleftrightarrow> x \<in> set l \<and> m_id x \<notin> set (old_ids t)"
  by (auto simp: kept_def)

text \<open>The facts about one compaction that the following lemmas share.\<close>

lemma trace_tables:
  assumes "store_wf sizing W n m d" "trace_ok sizing W c m d level t" "level + 1 < n"
  shows "x \<in> set (tr_source t) \<Longrightarrow> table_wf sizing W (files d) level x \<and> m_id x < next_sst_id m"
    "x \<in> set (tr_target t) \<Longrightarrow> table_wf sizing W (files d) (level + 1) x \<and> m_id x < next_sst_id m"
    "i \<in> set (old_ids t) \<Longrightarrow> i < next_sst_id m"
    "x \<in> set (tr_new t) \<Longrightarrow> next_sst_id m \<le> m_id x \<and> m_id x < next_sst_id m + length (tr_new t)"
proof -
  have src: "x \<in> set (tr_source t) \<Longrightarrow> table_wf sizing W (files d) level x \<and> m_id x < next_sst_id m" for x
    using store_wf_table [OF assms(1), of level x] assms(2,3) by (auto simp: trace_ok_def)
  have tgt: "x \<in> set (tr_target t) \<Longrightarrow> table_wf sizing W (files d) (level + 1) x \<and> m_id x < next_sst_id m" for x
    using store_wf_table [OF assms(1,3), of x] assms(2) by (auto simp: trace_ok_def)
  show "x \<in> set (tr_source t) \<Longrightarrow> table_wf sizing W (files d) level x \<and> m_id x < next_sst_id m" by (rule src)
  show "x \<in> set (tr_target t) \<Longrightarrow> table_wf sizing W (files d) (level + 1) x \<and> m_id x < next_sst_id m" by (rule tgt)
  show "i \<in> set (old_ids t) \<Longrightarrow> i < next_sst_id m" using src tgt by (auto simp: old_ids_def)
  have "m_id ` set (tr_new t) = {next_sst_id m..<next_sst_id m + length (tr_new t)}"
    using assms(2) unfolding trace_ok_def by (metis atLeastLessThan_upt list.set_map)
  then show "x \<in> set (tr_new t) \<Longrightarrow> next_sst_id m \<le> m_id x \<and> m_id x < next_sst_id m + length (tr_new t)"
    by (metis atLeastLessThan_iff imageI)
qed

lemma after_file:
  assumes "store_wf sizing W n m d" "trace_ok sizing W c m d level t" "level + 1 < n" "i \<notin> set (old_ids t)"
  shows "fmlookup (files (snd (after_compaction t level m))) (SstPath i) = fmlookup (files (tr_written t)) (SstPath i)"
proof -
  have "m_path x = SstPath (m_id x)" if "x \<in> set (tr_source t @ tr_target t)" for x
    using trace_tables(1,2) [OF assms(1-3), of x] that by (auto simp: table_wf_def)
  then have "SstPath i \<notin> m_path ` set (tr_source t @ tr_target t)" using assms(4) by (fastforce simp: old_ids_def)
  then show ?thesis
    unfolding after_compaction_def Let_def manifest_save_def by (simp add: fmlookup_fold_drop image_Un)
qed

lemma after_tables:
  assumes wf: "store_wf sizing W n m d" and t: "trace_ok sizing W c m d level t" and lvl: "level + 1 < n"
  defines "d' \<equiv> files (snd (after_compaction t level m))"
  shows "i < n \<Longrightarrow> x \<in> set (kept t (levels m ! i)) \<Longrightarrow> table_wf sizing W d' i x \<and> ents sizing d' x = ents sizing (files d) x"
    "x \<in> set (tr_new t) \<Longrightarrow> table_wf sizing W d' (level + 1) x \<and> ents sizing d' x = ents sizing (files (tr_written t)) x"
proof -
  show "table_wf sizing W d' i x \<and> ents sizing d' x = ents sizing (files d) x" if "i < n" "x \<in> set (kept t (levels m ! i))"
  proof -
    have x: "table_wf sizing W (files d) i x" "m_id x < next_sst_id m" "m_id x \<notin> set (old_ids t)"
      using store_wf_table [OF wf that(1)] that(2) by (auto simp: set_kept)
    have "fmlookup d' (SstPath (m_id x)) = fmlookup (files d) (SstPath (m_id x))"
      using after_file [OF wf t lvl x(3)] x(2) t unfolding trace_ok_def d'_def by simp
    from table_wf_same_file [OF this x(1)] show ?thesis by blast
  qed
  show "table_wf sizing W d' (level + 1) x \<and> ents sizing d' x = ents sizing (files (tr_written t)) x" if "x \<in> set (tr_new t)"
  proof -
    have x: "table_wf sizing W (files (tr_written t)) (level + 1) x" using t that by (simp add: trace_ok_def)
    have "m_id x \<notin> set (old_ids t)" using trace_tables(3,4) [OF wf t lvl] that by (meson leD)
    then have "fmlookup d' (SstPath (m_id x)) = fmlookup (files (tr_written t)) (SstPath (m_id x))"
      using after_file [OF wf t lvl] unfolding d'_def by blast
    from table_wf_same_file [OF this x] show ?thesis by blast
  qed
qed

text \<open>A table of the next level that stays does not reach into the keys of the merge.\<close>

lemma kept_apart:
  assumes wf: "store_wf sizing W n m d" and t: "trace_ok sizing W c m d level t" and lvl: "level + 1 < n"
    and x: "x \<in> set (levels m ! (level + 1))" "x \<notin> set (tr_target t)"
  shows "(\<forall>y\<in>set (tr_source t @ tr_target t). last_key x < first_key y) \<or>
    (\<forall>y\<in>set (tr_source t @ tr_target t). last_key y < first_key x)"
proof -
  have disj: "tables_disjoint (levels m ! (level + 1))" using wf lvl by (simp add: store_wf_def)
  have src: "\<forall>y\<in>set (tr_source t). tr_lo t \<le> first_key y \<and> last_key y \<le> tr_hi t"
    and tgt: "y \<in> set (tr_target t) \<longleftrightarrow> y \<in> set (levels m ! (level + 1)) \<and> first_key y \<le> tr_hi t \<and> tr_lo t \<le> last_key y" for y
    using t by (auto simp: trace_ok_def ranges_overlap_def)
  have le: "first_key y \<le> last_key y" if "y \<in> set (levels m ! (level + 1))" for y
    using store_wf_table [OF wf lvl that] first_le_last by (auto simp: table_wf_def)
  have apart: "last_key x < first_key y \<or> last_key y < first_key x" if "y \<in> set (tr_target t)" for y
  proof -
    have "y \<in> set (levels m ! (level + 1))" "x \<noteq> y" using that tgt x(2) by auto
    then show ?thesis using disj x(1) by (simp add: tables_disjoint_def)
  qed
  have "tr_hi t < first_key x \<or> last_key x < tr_lo t" using tgt x by (meson not_le)
  then show ?thesis
  proof
    assume hi: "tr_hi t < first_key x"
    have "last_key y < first_key x" if "y \<in> set (tr_target t)" for y
    proof -
      have "first_key y < first_key x" using tgt that hi by (meson le_less_trans)
      then have "\<not> last_key x < first_key y" using le [OF x(1)] by auto
      then show ?thesis using apart [OF that] by blast
    qed
    moreover have "last_key y < first_key x" if "y \<in> set (tr_source t)" for y using src that hi by (meson le_less_trans)
    ultimately show ?thesis by auto
  next
    assume lo: "last_key x < tr_lo t"
    have "last_key x < first_key y" if "y \<in> set (tr_target t)" for y
    proof -
      have "last_key x < last_key y" using tgt that lo by (meson less_le_trans)
      then have "\<not> last_key y < first_key x" using le [OF x(1)] by auto
      then show ?thesis using apart [OF that] by blast
    qed
    moreover have "last_key x < first_key y" if "y \<in> set (tr_source t)" for y using src that lo by (meson less_le_trans)
    ultimately show ?thesis by auto
  qed
qed

text \<open>Every key of a new table is a key of a table that goes.\<close>

lemma drop_dead_SomeD: "drop_dead dead x = Some v \<Longrightarrow> x = Some v"
  by (simp add: drop_dead_def split: if_splits)

lemma trace_merged:
  "trace_ok sizing W c m d level t \<Longrightarrow> map_of (tr_merged t) k = drop_dead (level + 1 \<ge> max_levels c - 1)
     (map_of (concat (map (ents sizing (files d)) (newest_first (tr_source t @ tr_target t)))) k)"
  by (simp add: trace_ok_def)

lemma new_keys:
  assumes wf: "store_wf sizing W n m d" and t: "trace_ok sizing W c m d level t" and lvl: "level + 1 < n"
    and k: "k \<in> fst ` set (tr_merged t)"
  obtains y v where "y \<in> set (tr_source t @ tr_target t)" "map_of (ents sizing (files d) y) k = Some v" "first_key y \<le> k" "k \<le> last_key y"
proof -
  obtain v where "map_of (tr_merged t) k = Some v" using k by (metis not_None_eq map_of_eq_None_iff)
  then have "map_of (concat (map (ents sizing (files d)) (newest_first (tr_source t @ tr_target t)))) k = Some v"
    unfolding trace_merged [OF t] by (rule drop_dead_SomeD)
  then obtain y where y: "y \<in> set (tr_source t @ tr_target t)" "map_of (ents sizing (files d) y) k = Some v"
    using map_of_concat_any by fastforce
  have "good_table sizing (files d) y" using trace_tables(1,2) [OF wf t lvl, of y] y(1) by (auto simp: table_wf_def)
  from key_in_bounds [OF this y(2)] show thesis using that y by blast
qed

lemma target_disjoint:
  assumes wf: "store_wf sizing W n m d" and t: "trace_ok sizing W c m d level t" and lvl: "level + 1 < n"
  shows "tables_disjoint (kept t (levels m ! (level + 1)) @ tr_new t)"
proof -
  let ?w = "files (tr_written t)"
  have new: "\<forall>y\<in>set (tr_new t). good_table sizing ?w y" using t by (simp add: trace_ok_def table_wf_def)
  have disj: "tables_disjoint (levels m ! (level + 1))" "tables_disjoint (tr_new t)"
    using wf lvl sorted_tables_disjoint [OF _ new] trace_concat [OF t] trace_sorted [OF t] by (simp_all add: store_wf_def)
  have keys: "first_key y \<in> fst ` set (tr_merged t)" "last_key y \<in> fst ` set (tr_merged t)" if "y \<in> set (tr_new t)" for y
  proof -
    have "tr_merged t = concat (map (ents sizing ?w) (tr_new t))" using trace_concat [OF t] by simp
    then have "set (ents sizing ?w y) \<subseteq> set (tr_merged t)" using that by auto
    then show "first_key y \<in> fst ` set (tr_merged t)" "last_key y \<in> fst ` set (tr_merged t)"
      using end_keys [of sizing ?w y] new that by blast+
  qed
  have "last_key x < first_key y \<or> last_key y < first_key x" if x: "x \<in> set (kept t (levels m ! (level + 1)))" and y: "y \<in> set (tr_new t)" for x y
  proof -
    have "x \<in> set (levels m ! (level + 1))" "x \<notin> set (tr_target t)" using x by (auto simp: set_kept old_ids_def)
    from kept_apart [OF wf t lvl this] show ?thesis
    proof
      assume low: "\<forall>y\<in>set (tr_source t @ tr_target t). last_key x < first_key y"
      obtain z v where "z \<in> set (tr_source t @ tr_target t)" "first_key z \<le> first_key y"
        by (rule new_keys [OF wf t lvl keys(1) [OF y]])
      then show ?thesis using low by (meson less_le_trans)
    next
      assume high: "\<forall>y\<in>set (tr_source t @ tr_target t). last_key y < first_key x"
      obtain z v where "z \<in> set (tr_source t @ tr_target t)" "last_key y \<le> last_key z"
        by (rule new_keys [OF wf t lvl keys(2) [OF y]])
      then show ?thesis using high by (meson le_less_trans)
    qed
  qed
  moreover have "tables_disjoint (kept t (levels m ! (level + 1)))"
    by (rule tables_disjoint_subset [OF disj(1)]) (auto simp: kept_def)
  ultimately show ?thesis using disj(2) by (intro tables_disjoint_append)
qed

lemma ids_unique_after:
  assumes wf: "store_wf sizing W n m d" and t: "trace_ok sizing W c m d level t" and lvl: "level + 1 < n"
  shows "ids_unique (after_levels t level (levels m))"
proof -
  let ?ls = "levels m" and ?ls' = "after_levels t level (levels m)"
  have len: "length ?ls = n" "length ?ls' = n" using wf by (simp_all add: store_wf_def after_levels_def)
  have old: "ids_unique ?ls" using wf by (simp add: store_wf_def)
  have new: "distinct (map m_id (tr_new t))" using t unfolding trace_ok_def by (metis distinct_upt)
  have nth: "?ls' ! i = kept t (?ls ! i) @ (if i = level + 1 then tr_new t else [])" if "i < n" for i
    using after_levels_nth [of i ?ls level t] that len lvl by simp
  have fresh: "m_id x < next_sst_id m" if "i < n" "x \<in> set (?ls ! i)" for i x using store_wf_table [OF wf that] by simp
  have "distinct (map m_id (?ls' ! i))" if i: "i < n" for i
  proof -
    have "distinct (map m_id (?ls ! i))" using old i len by (simp add: ids_unique_def)
    then have k: "distinct (map m_id (kept t (?ls ! i)))" unfolding kept_def by (simp add: distinct_map_filter)
    have "m_id ` set (kept t (?ls ! i)) \<inter> m_id ` set (tr_new t) = {}"
      using fresh [OF i] trace_tables(4) [OF wf t lvl] by (fastforce simp: set_kept)
    then show ?thesis using nth [OF i] k new by (cases "i = level + 1") simp_all
  qed
  moreover have "inj_on m_id (set (concat ?ls'))"
  proof -
    have sub: "set (concat ?ls') \<subseteq> set (concat ?ls) \<union> set (tr_new t)"
      using nth len by (fastforce simp: in_set_conv_nth [of _ ?ls'] set_kept split: if_splits)
    have "inj_on m_id (set (concat ?ls) \<union> set (tr_new t))"
    proof (rule inj_onI)
      fix x y assume *: "x \<in> set (concat ?ls) \<union> set (tr_new t)" "y \<in> set (concat ?ls) \<union> set (tr_new t)" "m_id x = m_id y"
      have lt: "m_id z < next_sst_id m" if Z: "z \<in> set (concat ?ls)" for z
      proof -
        obtain l where l: "l \<in> set ?ls" "z \<in> set l" using Z by auto
        then obtain i where "i < n" "l = ?ls ! i" using len(1) by (metis in_set_conv_nth)
        then show ?thesis using fresh l(2) by blast
      qed
      have ge: "next_sst_id m \<le> m_id z" if "z \<in> set (tr_new t)" for z using trace_tables(4) [OF wf t lvl that] by simp
      consider "x \<in> set (concat ?ls)" "y \<in> set (concat ?ls)" | "x \<in> set (tr_new t)" "y \<in> set (tr_new t)"
        using * lt ge by (metis UnE not_le)
      then show "x = y"
      proof cases
        case 1
        then show ?thesis using old *(3) unfolding ids_unique_def by (meson inj_onD)
      next
        case 2
        then show ?thesis using new *(3) unfolding distinct_map by (meson inj_onD)
      qed
    qed
    then show ?thesis using sub by (rule inj_on_subset)
  qed
  ultimately show ?thesis unfolding ids_unique_def using len(2) by (metis in_set_conv_nth)
qed

text \<open>The tables on disk stay well-formed, whatever level is compacted and whatever the ages of the tables.\<close>

lemma after_compaction_wf:
  assumes wf: "store_wf sizing W n m d" and t: "trace_ok sizing W c m d level t" and lvl: "level + 1 < n"
  shows "store_wf sizing W n (fst (after_compaction t level m)) (snd (after_compaction t level m))"
proof -
  let ?m = "fst (after_compaction t level m)" and ?d = "snd (after_compaction t level m)"
  have len: "length (levels m) = n" using wf by (simp add: store_wf_def)
  have m': "levels ?m = after_levels t level (levels m)" "next_sst_id ?m = next_sst_id m + length (tr_new t)"
    by (simp_all add: after_compaction_def Let_def)
  have nth: "levels ?m ! i = kept t (levels m ! i) @ (if i = level + 1 then tr_new t else [])" if "i < n" for i
    using after_levels_nth [of i "levels m" level t] that len lvl m'(1) by simp
  have "table_wf sizing W (files ?d) i x \<and> m_id x < next_sst_id ?m" if i: "i < n" and x: "x \<in> set (levels ?m ! i)" for i x
  proof -
    consider "x \<in> set (kept t (levels m ! i))" | "i = level + 1" "x \<in> set (tr_new t)"
      using x nth [OF i] by (auto split: if_splits)
    then show ?thesis
    proof cases
      case 1
      then show ?thesis
        using after_tables(1) [OF wf t lvl i] store_wf_table [OF wf i, of x] m'(2) by (simp add: set_kept)
    next
      case 2
      then show ?thesis using after_tables(2) [OF wf t lvl] trace_tables(4) [OF wf t lvl] m'(2) by simp
    qed
  qed
  moreover have "tables_disjoint (levels ?m ! i)" if i: "i < n" "0 < i" for i
  proof (cases "i = level + 1")
    case True
    then show ?thesis using nth [OF i(1)] target_disjoint [OF wf t lvl] by simp
  next
    case False
    have "tables_disjoint (levels m ! i)" using wf i by (simp add: store_wf_def)
    then have "tables_disjoint (kept t (levels m ! i))" by (rule tables_disjoint_subset) (auto simp: set_kept)
    then show ?thesis using nth [OF i(1)] False by simp
  qed
  moreover have "saved_ok n ?m ?d" by (simp add: after_compaction_def Let_def manifest_save_def saved_ok_def)
  moreover have "length (levels ?m) = n" using len m'(1) by (simp add: after_levels_def)
  moreover have "ids_unique (levels ?m)" unfolding m'(1) by (rule ids_unique_after [OF wf t lvl])
  ultimately show ?thesis unfolding store_wf_def by blast
qed

section \<open>A compaction of newer tables keeps every read\<close>

text \<open>The source tables are younger than the tables they are merged with.\<close>

definition source_newer :: "compaction_trace \<Rightarrow> bool" where
  "source_newer t \<longleftrightarrow> (\<forall>x\<in>set (tr_source t). \<forall>y\<in>set (tr_target t). m_id y < m_id x)"

text \<open>Two adjacent levels before and after: \<open>S\<close> and \<open>Rs\<close> make up the source level, \<open>T\<close> and \<open>Rt\<close> the target level.\<close>

lemma merge_two_levels:
  fixes S T Rs Rt M :: "bytes \<Rightarrow> bytes option option"
  assumes "M k = drop_dead dead ((T ++ S) k)" "Rt k \<noteq> None \<Longrightarrow> S k = None \<and> T k = None"
  shows "((M ++ Rt) ++ Rs) k = ((T ++ Rt) ++ (S ++ Rs)) k \<or>
    dead \<and> ((T ++ Rt) ++ (S ++ Rs)) k = Some None \<and> ((M ++ Rt) ++ Rs) k = None"
  using assms by (auto simp: map_add_def drop_dead_def split: option.splits if_splits)

lemma tables_view_Cons: "tables_view sizing d (l # ls) = tables_view sizing d ls ++ lv sizing d l"
  by (simp add: tables_view_simps lv_def)

lemma tables_view_split:
  assumes "i + 1 < length ls"
  shows "tables_view sizing d ls =
    tables_view sizing d (drop (i + 2) ls) ++ (lv sizing d (ls ! (i + 1)) ++ lv sizing d (ls ! i)) ++ tables_view sizing d (take i ls)"
proof -
  have ls: "ls = take i ls @ ls ! i # ls ! (i + 1) # drop (i + 2) ls"
    using assms id_take_nth_drop [of i ls] Cons_nth_drop_Suc [of "Suc i" ls] by simp
  have app: "tables_view sizing d (xs @ ys) = tables_view sizing d ys ++ tables_view sizing d xs" for xs ys
    by (induction xs) (simp_all add: tables_view_simps)
  show ?thesis by (subst ls, subst app) (simp add: tables_view_simps lv_def)
qed

lemma lv_same_ents:
  assumes "\<And>x. x \<in> set l \<Longrightarrow> ents sizing d' x = ents sizing d x"
  shows "lv sizing d' l = lv sizing d l"
  unfolding lv_def using assms by (metis (no_types, lifting) map_cong set_newest_first)

lemma tables_view_same_ents:
  assumes "\<And>l x. l \<in> set ls \<Longrightarrow> x \<in> set l \<Longrightarrow> ents sizing d' x = ents sizing d x"
  shows "tables_view sizing d' ls = tables_view sizing d ls"
  using assms
proof (induction ls)
  case (Cons l ls)
  have "lv sizing d' l = lv sizing d l" using Cons.prems by (intro lv_same_ents) auto
  moreover have "tables_view sizing d' ls = tables_view sizing d ls" using Cons.prems by (intro Cons.IH) auto
  ultimately show ?case by (simp add: tables_view_Cons)
qed (simp add: tables_view_simps)

lemma lv_new:
  assumes t: "trace_ok sizing W c m d level t" and newer: "source_newer t"
    and good: "\<forall>x\<in>set (tr_new t). good_table sizing d' x \<and> ents sizing d' x = ents sizing (files (tr_written t)) x"
  shows "lv sizing d' (tr_new t) k = drop_dead (level + 1 \<ge> max_levels c - 1)
    ((lv sizing (files d) (tr_target t) ++ lv sizing (files d) (tr_source t)) k)"
proof -
  have eq: "map (ents sizing d') (tr_new t) = map (ents sizing (files (tr_written t))) (tr_new t)" using good by simp
  have ents: "concat (map (ents sizing d') (tr_new t)) = tr_merged t" "sorted_kvs (tr_merged t)"
    unfolding eq using trace_concat [OF t] trace_sorted [OF t] by simp_all
  then have disj: "tables_disjoint (tr_new t)" using sorted_tables_disjoint [of sizing d'] good by simp
  have "map_of (concat (map (ents sizing d') (tr_new t))) k = Some v \<longleftrightarrow> lv sizing d' (tr_new t) k = Some v" for v
  proof
    assume "map_of (concat (map (ents sizing d') (tr_new t))) k = Some v"
    then obtain x where "x \<in> set (tr_new t)" "map_of (ents sizing d' x) k = Some v" using map_of_concat_any by fastforce
    then show "lv sizing d' (tr_new t) k = Some v" using lv_disjoint [OF disj] good by blast
  next
    assume "lv sizing d' (tr_new t) k = Some v"
    then obtain x where "x \<in> set (tr_new t)" "map_of (ents sizing d' x) k = Some v" using lv_SomeD by blast
    then have "(k, v) \<in> set (tr_merged t)" unfolding ents(1) [symmetric] using map_of_SomeD by fastforce
    then show "map_of (concat (map (ents sizing d') (tr_new t))) k = Some v"
      using ents sorted_kvs_distinct map_of_is_SomeI by metis
  qed
  then have "lv sizing d' (tr_new t) k = map_of (tr_merged t) k" using ents(1) by (metis not_None_eq)
  moreover have "newest_first (tr_source t @ tr_target t) = newest_first (tr_source t) @ newest_first (tr_target t)"
    using newer newest_first_append by (simp add: source_newer_def)
  ultimately show ?thesis by (simp add: trace_merged [OF t] lv_def)
qed

text \<open>The two levels of a compaction, split into the tables that go and those that stay.\<close>

lemma old_table:
  assumes wf: "store_wf sizing W n m d" and t: "trace_ok sizing W c m d level t" and lvl: "level + 1 < n"
    and x: "x \<in> set (levels m ! i)" "i < n" "m_id x \<in> set (old_ids t)"
  shows "i = level \<and> x \<in> set (tr_source t) \<or> i = level + 1 \<and> x \<in> set (tr_target t)"
proof -
  have len: "length (levels m) = n" using wf by (simp add: store_wf_def)
  have uniq: "x = y" if "y \<in> set (levels m ! j)" "j < n" "m_id x = m_id y" for y j
  proof -
    have "levels m ! i \<in> set (levels m)" "levels m ! j \<in> set (levels m)" using x(2) that(2) len by simp_all
    then have "x \<in> set (concat (levels m))" "y \<in> set (concat (levels m))" using x(1) that(1) by auto
    then show ?thesis using wf that(3) unfolding store_wf_def ids_unique_def by (meson inj_onD)
  qed
  have lx: "m_level x = i" using store_wf_table [OF wf x(2,1)] by (simp add: table_wf_def)
  obtain y where "y \<in> set (tr_source t) \<or> y \<in> set (tr_target t)" "m_id x = m_id y"
    using x(3) by (auto simp: old_ids_def)
  moreover have "m_level y = level" "y \<in> set (levels m ! level)" if "y \<in> set (tr_source t)" for y
    using trace_tables(1) [OF wf t lvl that] t that by (auto simp: trace_ok_def table_wf_def)
  moreover have "m_level y = level + 1" "y \<in> set (levels m ! (level + 1))" if "y \<in> set (tr_target t)" for y
    using trace_tables(2) [OF wf t lvl that] t that by (auto simp: trace_ok_def table_wf_def)
  ultimately show ?thesis using uniq lvl lx by (metis add_lessD1)
qed

lemma trace_split:
  assumes wf: "store_wf sizing W n m d" and t: "trace_ok sizing W c m d level t" and lvl: "level + 1 < n"
  shows "set (levels m ! level) = set (tr_source t) \<union> set (kept t (levels m ! level))"
    "set (levels m ! (level + 1)) = set (tr_target t) \<union> set (kept t (levels m ! (level + 1)))"
proof -
  have "set (tr_source t) \<subseteq> set (levels m ! level)" "set (tr_target t) \<subseteq> set (levels m ! (level + 1))"
    using t by (auto simp: trace_ok_def)
  then show "set (levels m ! level) = set (tr_source t) \<union> set (kept t (levels m ! level))"
    "set (levels m ! (level + 1)) = set (tr_target t) \<union> set (kept t (levels m ! (level + 1)))"
    using old_table [OF wf t lvl, of _ level] old_table [OF wf t lvl, of _ "level + 1"] lvl by (auto simp: set_kept)
qed

lemma kept_key_apart:
  assumes wf: "store_wf sizing W n m d" and t: "trace_ok sizing W c m d level t" and lvl: "level + 1 < n"
    and k: "lv sizing (files d) (kept t (levels m ! (level + 1))) k \<noteq> None"
  shows "lv sizing (files d) (tr_source t) k = None \<and> lv sizing (files d) (tr_target t) k = None"
proof -
  obtain x v where x: "x \<in> set (kept t (levels m ! (level + 1)))" "map_of (ents sizing (files d) x) k = Some v"
    using k lv_SomeD by fastforce
  then have x': "x \<in> set (levels m ! (level + 1))" "x \<notin> set (tr_target t)" by (auto simp: set_kept old_ids_def)
  then have "good_table sizing (files d) x" using store_wf_table [OF wf lvl] by (simp add: table_wf_def)
  then have bx: "first_key x \<le> k" "k \<le> last_key x" using key_in_bounds x(2) by blast+
  have "map_of (ents sizing (files d) y) k = None" if y: "y \<in> set (tr_source t @ tr_target t)" for y
  proof (rule ccontr)
    assume "map_of (ents sizing (files d) y) k \<noteq> None"
    then obtain w where "map_of (ents sizing (files d) y) k = Some w" by blast
    moreover have "good_table sizing (files d) y" using trace_tables(1,2) [OF wf t lvl, of y] y by (auto simp: table_wf_def)
    ultimately have "first_key y \<le> k" "k \<le> last_key y" using key_in_bounds by blast+
    with kept_apart [OF wf t lvl x'] bx y show False by fastforce
  qed
  then show ?thesis by (simp add: lv_None)
qed

text \<open>The effect on the two levels of a compaction, key by key.\<close>

lemma two_levels_after:
  assumes wf: "store_wf sizing W n m d" and t: "trace_ok sizing W c m d level t" and lvl: "level + 1 < n" and newer: "source_newer t"
  defines "d' \<equiv> files (snd (after_compaction t level m))" and "ls' \<equiv> after_levels t level (levels m)"
  defines "before \<equiv> lv sizing (files d) (levels m ! (level + 1)) ++ lv sizing (files d) (levels m ! level)"
    and "after \<equiv> lv sizing d' (ls' ! (level + 1)) ++ lv sizing d' (ls' ! level)"
  shows "after k = before k \<or> level + 1 \<ge> max_levels c - 1 \<and> before k = Some None \<and> after k = None"
proof -
  let ?d = "files d" and ?Ls = "levels m ! level" and ?Lt = "levels m ! (level + 1)"
  let ?S = "tr_source t" and ?T = "tr_target t" and ?Rs = "kept t ?Ls" and ?Rt = "kept t ?Lt"
  have len: "length (levels m) = n" using wf by (simp add: store_wf_def)
  have good: "\<forall>x\<in>set (levels m ! i). good_table sizing ?d x" if "i < n" for i
    using store_wf_table [OF wf that] by (simp add: table_wf_def)
  have splitT: "lv sizing ?d ?Lt = lv sizing ?d ?T ++ lv sizing ?d ?Rt"
    using wf lvl by (intro lv_disjoint_split good trace_split(2) [OF wf t]) (simp_all add: store_wf_def)
  have splitS: "lv sizing ?d ?Ls = lv sizing ?d ?S ++ lv sizing ?d ?Rs"
  proof (cases "level = 0")
    case True
    then have "?S = ?Ls" "?Rs = []" using t by (auto simp: trace_ok_def kept_def old_ids_def filter_empty_conv)
    then show ?thesis by simp
  next
    case False
    then show ?thesis
      using wf lvl by (intro lv_disjoint_split good trace_split(1) [OF wf t]) (simp_all add: store_wf_def)
  qed
  have keptf: "ents sizing d' x = ents sizing ?d x" "good_table sizing d' x" if "i < n" "x \<in> set (kept t (levels m ! i))" for i x
    using after_tables(1) [OF wf t lvl that] unfolding d'_def by (simp_all add: table_wf_def)
  have newf: "\<forall>x\<in>set (tr_new t). good_table sizing d' x \<and> ents sizing d' x = ents sizing (files (tr_written t)) x"
    using after_tables(2) [OF wf t lvl] unfolding d'_def by (simp add: table_wf_def)
  have "lv sizing d' (?Rt @ tr_new t) = lv sizing d' (tr_new t) ++ lv sizing d' ?Rt"
    using target_disjoint [OF wf t lvl] keptf(2) [OF lvl] newf by (intro lv_disjoint_split) auto
  moreover have "lv sizing d' ?Rt = lv sizing ?d ?Rt" by (intro lv_same_ents keptf(1) [OF lvl])
  moreover have "lv sizing d' ?Rs = lv sizing ?d ?Rs" using lvl by (intro lv_same_ents keptf(1) [of level]) simp_all
  moreover have "ls' ! (level + 1) = ?Rt @ tr_new t" "ls' ! level = ?Rs"
    using after_levels_nth [of "level + 1" "levels m" level t] after_levels_nth [of level "levels m" level t] len lvl
    by (simp_all add: ls'_def)
  ultimately have aft: "after = (lv sizing d' (tr_new t) ++ lv sizing ?d ?Rt) ++ lv sizing ?d ?Rs" by (simp add: after_def)
  show ?thesis
    unfolding aft before_def splitS splitT
    by (rule merge_two_levels [OF lv_new [OF t newer newf] kept_key_apart [OF wf t lvl]])
qed

text \<open>
  A compaction whose source tables are younger than the overlapping tables of the next level changes no read. When tombstones are
  dropped there is no deeper level left whose entries they could hide.
\<close>

lemma after_compaction_view:
  assumes wf: "store_wf sizing W (max_levels c) m d" and t: "trace_ok sizing W c m d level t"
    and lvl: "level + 1 < max_levels c" and newer: "source_newer t"
  defines "m' \<equiv> fst (after_compaction t level m)" and "d' \<equiv> snd (after_compaction t level m)"
  shows "vis ((tables_view sizing (files d') (levels m') ++ U) k) = vis ((tables_view sizing (files d) (levels m) ++ U) k)"
proof -
  let ?ls = "levels m" and ?ls' = "after_levels t level (levels m)" and ?n = "max_levels c"
  have len: "length ?ls = ?n" "length ?ls' = ?n" using wf by (simp_all add: store_wf_def after_levels_def)
  have m': "levels m' = ?ls'" by (simp add: m'_def after_compaction_def Let_def)
  have nth: "?ls' ! i = ?ls ! i" if i: "i < ?n" "i \<noteq> level" "i \<noteq> level + 1" for i
  proof -
    have "m_id x \<notin> set (old_ids t)" if "x \<in> set (?ls ! i)" for x using old_table [OF wf t lvl that i(1)] i by blast
    then have "kept t (?ls ! i) = ?ls ! i" unfolding kept_def by (simp add: filter_id_conv)
    then show ?thesis using after_levels_nth [of i ?ls level t] i len lvl by simp
  qed
  have same: "ents sizing (files d') x = ents sizing (files d) x" if i: "i < ?n" "i \<noteq> level" "i \<noteq> level + 1" and x: "x \<in> set (?ls ! i)" for i x
  proof -
    have "kept t (?ls ! i) = ?ls ! i"
      using nth [OF i] after_levels_nth [of i ?ls level t] i len lvl by simp
    then show ?thesis using after_tables(1) [OF wf t lvl i(1), of x] x unfolding d'_def by simp
  qed
  have "take level ?ls' = take level ?ls" "drop (level + 2) ?ls' = drop (level + 2) ?ls"
    using nth len lvl by (auto intro!: nth_equalityI)
  moreover have "tables_view sizing (files d') (take level ?ls) = tables_view sizing (files d) (take level ?ls)"
  proof (rule tables_view_same_ents)
    fix l x assume l: "l \<in> set (take level ?ls)" "x \<in> set l"
    then obtain i where "i < level" "l = ?ls ! i" unfolding set_take_nth by blast
    then show "ents sizing (files d') x = ents sizing (files d) x" using same [of i x] l(2) lvl by simp
  qed
  moreover have "tables_view sizing (files d') (drop (level + 2) ?ls) = tables_view sizing (files d) (drop (level + 2) ?ls)"
  proof (rule tables_view_same_ents)
    fix l x assume l: "l \<in> set (drop (level + 2) ?ls)" "x \<in> set l"
    then obtain i where "level + 2 \<le> i" "i < ?n" "l = ?ls ! i" unfolding set_drop_nth len(1) by blast
    then show "ents sizing (files d') x = ents sizing (files d) x" using same [of i x] l(2) by simp
  qed
  moreover have "drop (level + 2) ?ls = []" if "level + 1 \<ge> ?n - 1" using that len by simp
  ultimately show ?thesis
    using two_levels_after [OF wf t lvl newer, of k]
    unfolding m' tables_view_split [of level ?ls', unfolded len(2), OF lvl] tables_view_split [of level ?ls, unfolded len(1), OF lvl]
    by (auto simp: map_add_def tables_view_simps d'_def split: option.split)
qed

end
