(* ===== verification/Lsm_Props.thy ===== *)
theory Lsm_Props
  imports Lsm_Compaction
begin

text \<open>
  The log-structured engine as a whole: every operation keeps its invariant, a run of operations behaves like a map from keys to
  values, flushed data survives a restart, and when the compaction loop of \<open>sync\<close> ends.
\<close>

section \<open>The invariant of the engine\<close>

definition lsm_wf :: "bloom_sizing \<Rightarrow> kv set \<Rightarrow> lsm \<Rightarrow> bool" where
  "lsm_wf sizing W s \<longleftrightarrow>
     0 < max_levels (config s) \<and> fits_all sizing W \<and>
     store_wf sizing W (max_levels (config s)) (manifest s) (disk s) \<and> l0_newest (manifest s) \<and>
     immutable s = [] \<and> set (mt_iter (active s)) \<subseteq> W"

text \<open>What a read of the key returns.\<close>

definition lsm_value :: "bloom_sizing \<Rightarrow> lsm \<Rightarrow> bytes \<Rightarrow> bytes option" where
  "lsm_value sizing s k = vis (lsm_view sizing s k)"

lemma lsm_wf_get: "lsm_wf sizing W s \<Longrightarrow> lsm_get sizing s k = Inr (lsm_value sizing s k)"
  using store_wf_good by (auto simp: lsm_wf_def lsm_value_def intro!: lsm_get_view)

section \<open>Flushing\<close>

lemma fm_entries_Nil: "fm_entries m = [] \<longleftrightarrow> m = fmempty"
proof
  assume "fm_entries m = []"
  then have "fmlookup m k = fmlookup fmempty k" for k using fun_cong [OF map_of_fm_entries, of m k] by simp
  then show "m = fmempty" by (rule fmap_ext)
next
  assume "m = fmempty"
  then have "set (fm_entries m) = {}" by simp
  then show "fm_entries m = []" by (simp only: set_empty)
qed

text \<open>A new table at the end of level 0.\<close>

lemma push_l0_unique:
  assumes "ids_unique ls" "\<forall>l\<in>set ls. \<forall>x\<in>set l. m_id x < m_id y" "0 < length ls"
  shows "ids_unique (ls[0 := ls ! 0 @ [y]])"
proof -
  obtain l ls' where ls: "ls = l # ls'" using assms(3) by (cases ls) auto
  have "inj_on m_id (insert y (set (concat ls)))"
    using assms(1,2) unfolding ids_unique_def by (fastforce simp: inj_on_insert)
  moreover have "set (concat (ls[0 := ls ! 0 @ [y]])) = insert y (set (concat ls))" using ls by auto
  moreover have "distinct (map m_id (l @ [y]))" using assms(1,2) ls by (auto simp: ids_unique_def)
  ultimately show ?thesis using assms(1) ls by (simp add: ids_unique_def)
qed

lemma l0_view:
  assumes "distinct (map m_id l)" "\<forall>x\<in>set l. m_id x < m_id y"
  shows "tables_view sizing d ((l @ [y]) # ls) = tables_view sizing d (l # ls) ++ map_of (ents sizing d y)"
  using newest_first_snoc [OF assms(2,1)] by (simp add: tables_view_simps)

lemma write_memtable_wf:
  assumes wf: "store_wf sizing W n (manifest s) (disk s)" "l0_newest (manifest s)" "0 < n" "fits_all sizing W"
    and sub: "set (fm_entries entries) \<subseteq> W"
  obtains m d where "write_memtable_to_sst sizing entries s = Inr (s\<lparr>manifest := m, disk := d\<rparr>)" "store_wf sizing W n m d" "l0_newest m"
    "tables_view sizing (files d) (levels m) = tables_view sizing (files (disk s)) (levels (manifest s)) ++ fmlookup entries"
proof (cases "entries = fmempty")
  case True
  have "v ++ fmlookup fmempty = v" for v :: "bytes \<Rightarrow> bytes option option" by (rule ext) (simp add: map_add_def)
  then show thesis using that [of "disk s" "manifest s"] wf(1,2) True by (simp add: write_memtable_to_sst_def)
next
  case False
  let ?m = "manifest s" and ?i = "next_sst_id (manifest s)" and ?ls = "levels (manifest s)"
  have "fm_entries entries \<noteq> []" using False by (simp add: fm_entries_Nil)
  from write_one_table [OF wf(4) sorted_fm_entries this sub, of ?i 0]
  obtain meta fl where meta: "write_table sizing ?i 0 (SstPath ?i) (fm_entries entries) = Inr (meta, fl)" "m_id meta = ?i"
      "\<And>d. fmlookup d (SstPath ?i) = Some fl \<Longrightarrow> table_wf sizing W d 0 meta \<and> ents sizing d meta = fm_entries entries"
    by metis
  let ?d = "fmupd (SstPath ?i) fl (files (disk s))"
  have new: "table_wf sizing W ?d 0 meta" "ents sizing ?d meta = fm_entries entries" using meta(3) [of ?d] by simp_all
  have len: "length ?ls = n" using wf(1) by (simp add: store_wf_def)
  have old: "table_wf sizing W ?d i x" "ents sizing ?d x = ents sizing (files (disk s)) x" "m_id x < ?i"
    if "i < n" "x \<in> set (?ls ! i)" for i x
  proof -
    have x: "table_wf sizing W (files (disk s)) i x" "m_id x < ?i" using store_wf_table [OF wf(1) that] by simp_all
    then have "fmlookup ?d (SstPath (m_id x)) = fmlookup (files (disk s)) (SstPath (m_id x))" by simp
    from table_wf_same_file [OF this x(1)] x(2)
    show "table_wf sizing W ?d i x" "ents sizing ?d x = ents sizing (files (disk s)) x" "m_id x < ?i" by simp_all
  qed
  let ?ls' = "?ls[0 := ?ls ! 0 @ [meta]]"
  have lvl0: "m_level meta = 0" using new(1) by (simp add: table_wf_def)
  define m where "m = \<lparr>levels = ?ls', next_sst_id = ?i + 1\<rparr>"
  define d where "d = manifest_save m ((disk s)\<lparr>files := ?d\<rparr>)"
  have files: "files d = ?d" by (simp add: d_def manifest_save_def)
  have eq: "write_memtable_to_sst sizing entries s = Inr (s\<lparr>manifest := m, disk := d\<rparr>)"
  proof -
    have "?m\<lparr>next_sst_id := ?i + 1, levels := ?ls'\<rparr> = m" by (cases ?m) (simp add: m_def)
    then show ?thesis
      using False meta(1) lvl0 len wf(3)
      by (simp add: write_memtable_to_sst_def allocate_sst_def add_sstable_def push_level_at d_def Let_def)
  qed
  have nth: "levels m ! j = (if j = 0 then ?ls ! 0 @ [meta] else ?ls ! j)" if "j < n" for j
    using that len by (simp add: m_def nth_list_update)
  have fresh: "\<forall>l\<in>set ?ls. \<forall>x\<in>set l. m_id x < m_id meta" using old(3) meta(2) len by (metis in_set_conv_nth)
  have "store_wf sizing W n m d"
    unfolding store_wf_def
  proof (intro conjI allI impI)
    show "length (levels m) = n" using len by (simp add: m_def)
    show "\<forall>x\<in>set (levels m ! j). table_wf sizing W (files d) j x \<and> m_id x < next_sst_id m" if j: "j < n" for j
      using nth [OF j] old [OF j] new(1) meta(2) files j by (auto simp: m_def less_Suc_eq)
    show "ids_unique (levels m)"
      using wf(1) fresh len wf(3) by (simp add: m_def push_l0_unique store_wf_def)
    show "tables_disjoint (levels m ! j)" if "j < n" "0 < j" for j using nth [OF that(1)] that wf(1) by (simp add: store_wf_def)
    show "saved_ok n m d" by (simp add: saved_ok_def d_def manifest_save_def)
  qed
  moreover have "l0_newest m"
    using wf(2) fresh len nth [of 0] nth [of 1] by (auto simp: l0_newest_def m_def)
  moreover have "tables_view sizing (files d) (levels m) = tables_view sizing (files (disk s)) ?ls ++ fmlookup entries"
  proof -
    obtain l ls where ls: "?ls = l # ls" using len wf(3) by (cases ?ls) auto
    have "ids_unique ?ls" using wf(1) by (simp add: store_wf_def)
    then have l: "distinct (map m_id l)" "\<forall>x\<in>set l. m_id x < m_id meta" using fresh ls by (simp_all add: ids_unique_def)
    have "tables_view sizing (files d) (levels m) = tables_view sizing ?d ?ls ++ map_of (ents sizing ?d meta)"
      using l0_view [OF l, of sizing ?d ls] by (simp add: files ls m_def)
    moreover have "tables_view sizing ?d ?ls = tables_view sizing (files (disk s)) ?ls"
      using old(2) len by (intro tables_view_same_ents) (metis in_set_conv_nth)
    ultimately show ?thesis by (simp add: new(2))
  qed
  ultimately show thesis using that eq by blast
qed

lemma mem_view_active: "immutable s = [] \<Longrightarrow> mem_view s = fmlookup (mt_data (active s))"
  by (simp add: mem_view_def mt_iter_def)

lemma mt_new_view [simp]: "mt_data mt_new = fmempty" "mt_iter mt_new = []"
  by (simp_all add: mt_new_def mt_iter_def fm_entries_Nil)

lemma map_add_fmempty [simp]: "m ++ fmlookup fmempty = m"
  by (rule ext) (simp add: map_add_def)

text \<open>Writing the active table out moves its entries to level 0, and no read changes.\<close>

lemma flush_active:
  assumes wf: "lsm_wf sizing W s" and s': "manifest s' = manifest s" "disk s' = disk s"
  obtains m d where "write_memtable_to_sst sizing (mt_data (active s)) s' = Inr (s'\<lparr>manifest := m, disk := d\<rparr>)"
    "lsm_wf sizing W (s\<lparr>active := mt_new, manifest := m, disk := d\<rparr>)"
    "lsm_view sizing (s\<lparr>active := mt_new, manifest := m, disk := d\<rparr>) = lsm_view sizing s"
proof -
  have *: "store_wf sizing W (max_levels (config s)) (manifest s') (disk s')" "l0_newest (manifest s')" "0 < max_levels (config s)"
      "fits_all sizing W" "set (fm_entries (mt_data (active s))) \<subseteq> W" "immutable s = []"
    using wf s' by (simp_all add: lsm_wf_def mt_iter_def)
  obtain m d where md: "write_memtable_to_sst sizing (mt_data (active s)) s' = Inr (s'\<lparr>manifest := m, disk := d\<rparr>)"
      "store_wf sizing W (max_levels (config s)) m d" "l0_newest m"
      "tables_view sizing (files d) (levels m) = tables_view sizing (files (disk s')) (levels (manifest s')) ++ fmlookup (mt_data (active s))"
    by (rule write_memtable_wf [OF *(1-5)])
  show thesis
    using md * s' by (intro that [of d m]) (simp_all add: lsm_wf_def lsm_view_def mem_view_active)
qed

lemma lsm_flush_ok:
  assumes "lsm_wf sizing W s"
  shows "\<exists>s'. lsm_flush sizing s = Inr s' \<and> lsm_wf sizing W s' \<and> lsm_view sizing s' = lsm_view sizing s \<and>
    mt_is_empty (active s') \<and> config s' = config s"
proof (cases "mt_is_empty (active s)")
  case True
  then show ?thesis using assms by (simp add: lsm_flush_def)
next
  case False
  obtain m d where md: "write_memtable_to_sst sizing (mt_data (active s)) (s\<lparr>active := mt_new\<rparr>) =
        Inr (s\<lparr>active := mt_new, manifest := m, disk := d\<rparr>)"
      "lsm_wf sizing W (s\<lparr>active := mt_new, manifest := m, disk := d\<rparr>)"
      "lsm_view sizing (s\<lparr>active := mt_new, manifest := m, disk := d\<rparr>) = lsm_view sizing s"
    using flush_active [OF assms, of "s\<lparr>active := mt_new\<rparr>"] by (metis lsm.surjective lsm.update_convs(1) lsm.select_convs(3,5))
  then have "lsm_flush sizing s = Inr (s\<lparr>active := mt_new, manifest := m, disk := d\<rparr>)"
    using False by (simp add: lsm_flush_def mt_drain_def mt_new_def)
  then show ?thesis using md(2,3) by (simp add: mt_is_empty_def)
qed

lemma flush_immutables_none: "immutable s = [] \<Longrightarrow> flush_immutables sizing s = Inr s"
  by (simp add: flush_immutables_def)

lemma flush_frozen:
  assumes "lsm_wf sizing W s"
  shows "\<exists>s'. flush_immutables sizing (s\<lparr>active := mt_new, immutable := immutable s @ [active s]\<rparr>) = Inr s' \<and>
    lsm_wf sizing W s' \<and> lsm_view sizing s' = lsm_view sizing s \<and> config s' = config s"
proof -
  let ?s = "s\<lparr>active := mt_new, immutable := [active s]\<rparr>"
  have imm: "immutable s = []" using assms by (simp add: lsm_wf_def)
  obtain m d where md: "write_memtable_to_sst sizing (mt_data (active s)) ?s = Inr (?s\<lparr>manifest := m, disk := d\<rparr>)"
      "lsm_wf sizing W (s\<lparr>active := mt_new, manifest := m, disk := d\<rparr>)"
      "lsm_view sizing (s\<lparr>active := mt_new, manifest := m, disk := d\<rparr>) = lsm_view sizing s"
    by (rule flush_active [OF assms, of ?s]) simp_all
  have "s\<lparr>active := mt_new, manifest := m, disk := d, immutable := []\<rparr> = s\<lparr>active := mt_new, manifest := m, disk := d\<rparr>"
    using imm by (cases s) simp
  then have "flush_immutables sizing ?s = Inr (s\<lparr>active := mt_new, manifest := m, disk := d\<rparr>)"
    using md(1) by (simp add: flush_immutables_def mt_drain_def)
  then show ?thesis using md(2,3) imm by simp
qed

section \<open>One compaction\<close>

lemma compact_level_idle:
  assumes "level + 1 < max_levels c \<longrightarrow> level < length (levels m) \<and> levels m ! level = []"
  shows "compact_level sizing m d level c = Inr (no_compaction, m, d)"
  using assms by (auto simp: compact_level_def select_source_def Let_def)

lemma l0_newest_after:
  assumes wf: "store_wf sizing W n m d" and t: "trace_ok sizing W c m d level t" and lvl: "level + 1 < n" and l0: "l0_newest m"
  shows "l0_newest (fst (after_compaction t level m))"
proof -
  have len: "length (levels m) = n" using wf by (simp add: store_wf_def)
  have m': "levels (fst (after_compaction t level m)) = after_levels t level (levels m)"
    by (simp add: after_compaction_def Let_def)
  have nth: "after_levels t level (levels m) ! i = kept t (levels m ! i) @ (if i = level + 1 then tr_new t else [])" if "i < n" for i
    using after_levels_nth [of i "levels m" level t] that len lvl by simp
  show ?thesis
  proof (cases "level = 0")
    case True
    then have "kept t (levels m ! 0) = []" using t by (auto simp: trace_ok_def kept_def old_ids_def filter_empty_conv)
    then have "after_levels t level (levels m) ! 0 = []" using nth [of 0] lvl by simp
    then show ?thesis by (simp add: l0_newest_def m')
  next
    case False
    then have "set (after_levels t level (levels m) ! i) \<subseteq> set (levels m ! i)" if "i < n" "i < 2" for i
      using nth [OF that(1)] that(2) by (auto simp: set_kept)
    from this [of 0] this [of 1] show ?thesis
      using l0 lvl len by (fastforce simp: l0_newest_def m' after_levels_def [of t level "levels m", THEN arg_cong [where f = length]])
  qed
qed

text \<open>A compaction of any level keeps the invariant; one of level 0 changes no read.\<close>

lemma compact_once_ok:
  assumes wf: "lsm_wf sizing W s"
  shows "\<exists>s'. compact_once sizing level s = Inr s' \<and> lsm_wf sizing W s' \<and> config s' = config s \<and> active s' = active s \<and>
    (level = 0 \<longrightarrow> lsm_value sizing s' = lsm_value sizing s)"
proof (cases "level + 1 < max_levels (config s) \<and> levels (manifest s) ! level \<noteq> []")
  case False
  have "length (levels (manifest s)) = max_levels (config s)" using wf by (simp add: lsm_wf_def store_wf_def)
  then have "compact_level sizing (manifest s) (disk s) level (config s) = Inr (no_compaction, manifest s, disk s)"
    using False by (intro compact_level_idle) auto
  then show ?thesis using wf by (simp add: compact_once_def)
next
  case True
  let ?c = "config s" and ?m = "manifest s" and ?d = "disk s"
  have st: "store_wf sizing W (max_levels ?c) ?m ?d" "fits_all sizing W" "l0_newest ?m" "immutable s = []" using wf by (simp_all add: lsm_wf_def)
  obtain t res where t: "trace_ok sizing W ?c ?m ?d level t"
      "compact_level sizing ?m ?d level ?c = Inr (res, fst (after_compaction t level ?m), snd (after_compaction t level ?m))"
    using compact_level_trace [OF st(1,2)] True by blast
  let ?s' = "s\<lparr>manifest := fst (after_compaction t level ?m), disk := snd (after_compaction t level ?m)\<rparr>"
  have "lsm_wf sizing W ?s'"
    using wf after_compaction_wf [OF st(1) t(1)] l0_newest_after [OF st(1) t(1)] st(3) True by (simp add: lsm_wf_def)
  moreover have "lsm_value sizing ?s' = lsm_value sizing s" if "level = 0"
  proof
    have "source_newer t"
      using st(1,3) t(1) that True unfolding source_newer_def trace_ok_def l0_newest_def store_wf_def by auto
    then show "lsm_value sizing ?s' k = lsm_value sizing s k" for k
      using after_compaction_view [OF st(1) t(1), of "mem_view s" k] True st(4)
      by (simp add: lsm_value_def lsm_view_def mem_view_active)
  qed
  moreover have "compact_once sizing level s = Inr ?s'" using t(2) by (simp add: compact_once_def case_prod_unfold)
  ultimately show ?thesis by (intro exI [of _ ?s']) simp
qed

section \<open>The compaction loop ends\<close>

definition level_lengths :: "lsm \<Rightarrow> nat list" where
  "level_lengths s = map length (levels (manifest s))"

text \<open>A level that asks for compaction is not empty and not the last, if level 0 may hold a table before it asks.\<close>

lemma size_check_level: "size_check m c ls limit = Some level \<Longrightarrow> level \<in> set ls \<and> 0 < level_size m level"
  by (induction m c ls limit rule: size_check.induct) (auto split: if_splits)

lemma needs_compaction_level:
  assumes "needs_compaction m c = Some level" "0 < l0_compaction_trigger c" "1 < max_levels c" "length (levels m) = max_levels c"
  shows "level + 1 < max_levels c \<and> levels m ! level \<noteq> []"
  using assms
  by (auto simp: needs_compaction_def level_count_def level_size_def split: if_splits dest!: size_check_level)

lemma lex_at:
  assumes "take i xs = take i ys" "xs ! i < (ys ! i :: nat)" "i < length xs" "length xs = length ys"
  shows "(xs, ys) \<in> lex less_than"
proof -
  have "xs = take i ys @ xs ! i # drop (Suc i) xs" "ys = take i ys @ ys ! i # drop (Suc i) ys"
    using assms id_take_nth_drop by metis+
  then show ?thesis unfolding lex_conv using assms(2,4) by blast
qed

text \<open>It loses at least one table, and the levels above it keep theirs.\<close>

lemma compact_once_decreases:
  assumes wf: "lsm_wf sizing W s" and lvl: "level + 1 < max_levels (config s)" "levels (manifest s) ! level \<noteq> []"
    and s': "compact_once sizing level s = Inr s'"
  shows "(level_lengths s', level_lengths s) \<in> lex less_than"
proof -
  let ?c = "config s" and ?m = "manifest s" and ?d = "disk s" and ?ls = "levels (manifest s)"
  have st: "store_wf sizing W (max_levels ?c) ?m ?d" "fits_all sizing W" using wf by (simp_all add: lsm_wf_def)
  obtain t res where t: "trace_ok sizing W ?c ?m ?d level t"
      "compact_level sizing ?m ?d level ?c = Inr (res, fst (after_compaction t level ?m), snd (after_compaction t level ?m))"
    using compact_level_trace [OF st lvl] by blast
  let ?ls' = "after_levels t level ?ls"
  have len: "length ?ls = max_levels ?c" "length ?ls' = max_levels ?c" using st(1) by (simp_all add: store_wf_def after_levels_def)
  have ls': "levels (manifest s') = ?ls'"
    using s' t(2) by (auto simp: compact_once_def case_prod_unfold after_compaction_def Let_def)
  have nth: "?ls' ! i = kept t (?ls ! i) @ (if i = level + 1 then tr_new t else [])" if "i < max_levels ?c" for i
    using after_levels_nth [of i ?ls level t] that len lvl by simp
  have above: "length (?ls' ! i) = length (?ls ! i)" if i: "i < level" for i
  proof -
    have "m_id x \<notin> set (old_ids t)" if "x \<in> set (?ls ! i)" for x
      using old_table [OF st(1) t(1) lvl(1) that] i lvl(1) by auto
    then have "kept t (?ls ! i) = ?ls ! i" unfolding kept_def by (simp add: filter_id_conv)
    then show ?thesis using nth [of i] i lvl(1) by simp
  qed
  obtain x where "x \<in> set (?ls ! level)" "m_id x \<in> set (old_ids t)"
    using t(1) by (cases "tr_source t") (auto simp: trace_ok_def old_ids_def)
  then have "length (kept t (?ls ! level)) < length (?ls ! level)"
    unfolding kept_def by (intro length_filter_less [of x]) auto
  then have less: "length (?ls' ! level) < length (?ls ! level)" using nth [of level] lvl(1) by simp
  let ?xs = "level_lengths s'" and ?ys = "level_lengths s"
  have lens: "level < length ?xs" "length ?xs = length ?ys" using len lvl(1) ls' by (simp_all add: level_lengths_def)
  have "take level ?xs = take level ?ys" using above len lvl(1) ls' by (intro nth_equalityI) (simp_all add: level_lengths_def)
  moreover have "?xs ! level < ?ys ! level" using less len lvl(1) ls' by (simp add: level_lengths_def)
  ultimately show ?thesis using lens by (intro lex_at)
qed

lemma compact_loop_ends:
  assumes "lsm_wf sizing W s" "0 < l0_compaction_trigger (config s)" "1 < max_levels (config s)"
  shows "\<exists>s'. compact_loop sizing s = Some (Inr s') \<and> lsm_wf sizing W s' \<and> config s' = config s \<and> active s' = active s \<and>
    needs_compaction (manifest s') (config s') = None \<and> (max_levels (config s) = 2 \<longrightarrow> lsm_value sizing s' = lsm_value sizing s)"
  using assms
proof (induction "level_lengths s" arbitrary: s rule: wf_induct_rule [OF wf_lex [OF wf_less_than]])
  case (1 s)
  show ?case
  proof (cases "needs_compaction (manifest s) (config s)")
    case None
    then show ?thesis using 1 by (subst compact_loop.simps) simp
  next
    case (Some level)
    have "length (levels (manifest s)) = max_levels (config s)" using "1.prems"(1) by (simp add: lsm_wf_def store_wf_def)
    then have lvl: "level + 1 < max_levels (config s)" "levels (manifest s) ! level \<noteq> []"
      using needs_compaction_level [OF Some "1.prems"(2,3)] by simp_all
    obtain s1 where s1: "compact_once sizing level s = Inr s1" "lsm_wf sizing W s1" "config s1 = config s" "active s1 = active s"
        "level = 0 \<longrightarrow> lsm_value sizing s1 = lsm_value sizing s"
      using compact_once_ok [OF "1.prems"(1)] by blast
    have "(level_lengths s1, level_lengths s) \<in> lex less_than"
      by (rule compact_once_decreases [OF "1.prems"(1) lvl s1(1)])
    then obtain s' where "compact_loop sizing s1 = Some (Inr s')" "lsm_wf sizing W s'" "config s' = config s" "active s' = active s"
        "needs_compaction (manifest s') (config s') = None" "max_levels (config s) = 2 \<longrightarrow> lsm_value sizing s' = lsm_value sizing s1"
      using "1.hyps" [of s1] s1(2,3,4) "1.prems"(2,3) by auto
    moreover have "compact_loop sizing s = compact_loop sizing s1" using Some s1(1) by (subst compact_loop.simps) simp
    ultimately show ?thesis using s1(5) lvl(1) by auto
  qed
qed

text \<open>Without a second level the loop never makes progress.\<close>

lemma compact_loop_stuck:
  assumes "compact_loop sizing s = Some r"
  shows "max_levels (config s) \<le> 1 \<longrightarrow> needs_compaction (manifest s) (config s) = None"
proof (rule compact_loop.raw_induct [OF _ assms])
  fix loop :: "bloom_sizing \<Rightarrow> lsm \<Rightarrow> lsm io option" and sizing s r
  assume IH: "\<And>sizing s r. loop sizing s = Some r \<Longrightarrow>
      max_levels (config s) \<le> 1 \<longrightarrow> needs_compaction (manifest s) (config s) = None"
    and body: "(case needs_compaction (manifest s) (config s) of None \<Rightarrow> Some (Inr s)
      | Some level \<Rightarrow> case compact_once sizing level s of Inl e \<Rightarrow> Some (Inl e) | Inr s \<Rightarrow> loop sizing s) = Some r"
  show "max_levels (config s) \<le> 1 \<longrightarrow> needs_compaction (manifest s) (config s) = None"
  proof (intro impI, cases "needs_compaction (manifest s) (config s)")
    case (Some level)
    assume one: "max_levels (config s) \<le> 1"
    then have "compact_once sizing level s = Inr s" by (simp add: compact_once_def compact_level_idle)
    then show "needs_compaction (manifest s) (config s) = None" using IH [of sizing s r] one body Some by simp
  qed
qed

section \<open>Operations\<close>

lemma two_levels_l0: "needs_compaction m c = Some level \<Longrightarrow> max_levels c = 2 \<Longrightarrow> level = 0"
  by (auto simp: needs_compaction_def split: if_splits)

lemma compact_needed:
  assumes "lsm_wf sizing W s" "needs_compaction (manifest s) (config s) = Some level"
  obtains s' where "compact_once sizing level s = Inr s'" "lsm_wf sizing W s'" "config s' = config s"
    "max_levels (config s) = 2 \<longrightarrow> lsm_value sizing s' = lsm_value sizing s"
  using compact_once_ok [OF assms(1), of level] two_levels_l0 [OF assms(2)] by blast

lemma maybe_flush_ok:
  assumes "lsm_wf sizing W s"
  shows "\<exists>s'. maybe_flush sizing s = Inr s' \<and> lsm_wf sizing W s' \<and> config s' = config s \<and>
    (max_levels (config s) = 2 \<longrightarrow> lsm_value sizing s' = lsm_value sizing s)"
proof (cases "mt_size (active s) \<ge> memtable_size_threshold (config s)")
  case True
  obtain s1 where s1: "flush_immutables sizing (s\<lparr>active := mt_new, immutable := immutable s @ [active s]\<rparr>) = Inr s1"
      "lsm_wf sizing W s1" "lsm_view sizing s1 = lsm_view sizing s" "config s1 = config s"
    using flush_frozen [OF assms] by blast
  have eq: "lsm_value sizing s1 = lsm_value sizing s" using s1(3) by (simp add: lsm_value_def fun_eq_iff)
  show ?thesis
  proof (cases "needs_compaction (manifest s1) (config s1)")
    case None
    then show ?thesis using True s1 eq by (simp add: maybe_flush_def)
  next
    case (Some level)
    obtain s2 where "compact_once sizing level s1 = Inr s2" "lsm_wf sizing W s2" "config s2 = config s1"
        "max_levels (config s1) = 2 \<longrightarrow> lsm_value sizing s2 = lsm_value sizing s1"
      by (rule compact_needed [OF s1(2) Some])
    then show ?thesis using True Some s1 eq by (simp add: maybe_flush_def)
  qed
qed (use assms in \<open>simp add: maybe_flush_def\<close>)

lemma mt_insert_data: "mt_data (mt_insert n k e t) = fmupd k e (mt_data t)"
  by (simp add: mt_insert_def Let_def)

lemma lsm_write_ok:
  assumes wf: "lsm_wf sizing W s" and e: "(k, e) \<in> W"
  shows "\<exists>s'. maybe_flush sizing (s\<lparr>active := mt_insert n k e (active s)\<rparr>) = Inr s' \<and> lsm_wf sizing W s' \<and> config s' = config s \<and>
    (max_levels (config s) = 2 \<longrightarrow> lsm_value sizing s' = (lsm_value sizing s)(k := e))"
proof -
  let ?s = "s\<lparr>active := mt_insert n k e (active s)\<rparr>"
  have sub: "set (mt_iter (mt_insert n k e (active s))) \<subseteq> insert (k, e) (set (mt_iter (active s)))"
    by (auto simp: mt_iter_def mt_insert_data split: if_splits)
  have "set (mt_iter (active s)) \<subseteq> W" "immutable s = []" using wf by (simp_all add: lsm_wf_def)
  then have "lsm_wf sizing W ?s" using wf e sub by (auto simp: lsm_wf_def)
  moreover have "lsm_value sizing ?s = (lsm_value sizing s)(k := e)"
    using \<open>immutable s = []\<close> by (auto simp: lsm_value_def lsm_view_def mem_view_active mt_insert_data map_add_def)
  ultimately show ?thesis using maybe_flush_ok [of sizing W ?s] by auto
qed

lemma lsm_compact_ok:
  assumes "lsm_wf sizing W s"
  shows "\<exists>b s'. lsm_compact sizing s = Inr (b, s') \<and> lsm_wf sizing W s' \<and> config s' = config s \<and>
    (max_levels (config s) = 2 \<longrightarrow> lsm_value sizing s' = lsm_value sizing s)"
proof (cases "needs_compaction (manifest s) (config s)")
  case None
  then show ?thesis using assms by (auto simp: lsm_compact_def)
next
  case (Some level)
  obtain s' where "compact_once sizing level s = Inr s'" "lsm_wf sizing W s'" "config s' = config s"
      "max_levels (config s) = 2 \<longrightarrow> lsm_value sizing s' = lsm_value sizing s"
    by (rule compact_needed [OF assms Some])
  then show ?thesis using Some by (auto simp: lsm_compact_def)
qed

lemma lsm_sync_ok:
  assumes "lsm_wf sizing W s" "0 < l0_compaction_trigger (config s)" "1 < max_levels (config s)"
  shows "\<exists>s'. lsm_sync sizing s = Some (Inr s') \<and> lsm_wf sizing W s' \<and> config s' = config s \<and> mt_is_empty (active s') \<and>
    needs_compaction (manifest s') (config s') = None \<and> (max_levels (config s) = 2 \<longrightarrow> lsm_value sizing s' = lsm_value sizing s)"
proof -
  obtain s1 where s1: "lsm_flush sizing s = Inr s1" "lsm_wf sizing W s1" "lsm_view sizing s1 = lsm_view sizing s"
      "mt_is_empty (active s1)" "config s1 = config s"
    using lsm_flush_ok [OF assms(1)] by blast
  then have "immutable s1 = []" by (simp add: lsm_wf_def)
  then have "flush_immutables sizing s1 = Inr s1" by (rule flush_immutables_none)
  moreover have "lsm_value sizing s1 = lsm_value sizing s" using s1(3) by (simp add: lsm_value_def fun_eq_iff)
  ultimately show ?thesis
    using compact_loop_ends [OF s1(2)] assms(2,3) s1 by (auto simp: lsm_sync_def)
qed

section \<open>Runs\<close>

datatype lsm_op = OpPut bytes bytes | OpDelete bytes | OpFlush | OpCompact | OpSync

fun lsm_step :: "bloom_sizing \<Rightarrow> lsm_op \<Rightarrow> lsm \<Rightarrow> lsm io option" where
  "lsm_step sizing (OpPut k v) s = Some (lsm_put sizing k v s)"
| "lsm_step sizing (OpDelete k) s = Some (lsm_delete sizing k s)"
| "lsm_step sizing OpFlush s = Some (lsm_flush sizing s)"
| "lsm_step sizing OpCompact s = Some (case lsm_compact sizing s of Inl e \<Rightarrow> Inl e | Inr (_, s) \<Rightarrow> Inr s)"
| "lsm_step sizing OpSync s = lsm_sync sizing s"

fun lsm_run :: "bloom_sizing \<Rightarrow> lsm_op list \<Rightarrow> lsm \<Rightarrow> lsm io option" where
  "lsm_run sizing [] s = Some (Inr s)"
| "lsm_run sizing (op # ops) s =
     (case lsm_step sizing op s of
        None \<Rightarrow> None
      | Some (Inl e) \<Rightarrow> Some (Inl e)
      | Some (Inr s') \<Rightarrow> lsm_run sizing ops s')"

text \<open>The abstract engine: a map from keys to values.\<close>

fun map_step :: "lsm_op \<Rightarrow> (bytes \<Rightarrow> bytes option) \<Rightarrow> bytes \<Rightarrow> bytes option" where
  "map_step (OpPut k v) m = m(k := Some v)"
| "map_step (OpDelete k) m = m(k := None)"
| "map_step _ m = m"

fun op_entries :: "lsm_op \<Rightarrow> kv set" where
  "op_entries (OpPut k v) = {(k, Some v)}"
| "op_entries (OpDelete k) = {(k, None)}"
| "op_entries _ = {}"

definition written :: "lsm_op list \<Rightarrow> kv set" where
  "written ops = (\<Union>op\<in>set ops. op_entries op)"

definition empty_disk :: disk where
  "empty_disk = \<lparr>files = fmempty, saved = None\<rparr>"

lemma lsm_step_ok:
  assumes wf: "lsm_wf sizing W s" and ops: "op_entries op \<subseteq> W"
    and c: "0 < l0_compaction_trigger (config s)" "max_levels (config s) = 2"
  shows "\<exists>s'. lsm_step sizing op s = Some (Inr s') \<and> lsm_wf sizing W s' \<and> config s' = config s \<and>
    lsm_value sizing s' = map_step op (lsm_value sizing s)"
proof (cases op)
  case (OpPut k v)
  then show ?thesis using lsm_write_ok [OF wf, of k "Some v"] ops c by (auto simp: lsm_put_def mt_put_def)
next
  case (OpDelete k)
  then show ?thesis using lsm_write_ok [OF wf, of k None] ops c by (auto simp: lsm_delete_def mt_delete_def)
next
  case OpFlush
  then show ?thesis using lsm_flush_ok [OF wf] by (auto simp: lsm_value_def fun_eq_iff)
next
  case OpCompact
  then show ?thesis using lsm_compact_ok [OF wf] c by auto
next
  case OpSync
  then show ?thesis using lsm_sync_ok [OF wf] c by auto
qed

lemma lsm_run_ok:
  "lsm_wf sizing W s \<Longrightarrow> written ops \<subseteq> W \<Longrightarrow> 0 < l0_compaction_trigger (config s) \<Longrightarrow> max_levels (config s) = 2 \<Longrightarrow>
    \<exists>s'. lsm_run sizing ops s = Some (Inr s') \<and> lsm_wf sizing W s' \<and> config s' = config s \<and>
      lsm_value sizing s' = fold map_step ops (lsm_value sizing s)"
proof (induction ops arbitrary: s)
  case (Cons op ops)
  obtain s1 where s1: "lsm_step sizing op s = Some (Inr s1)" "lsm_wf sizing W s1" "config s1 = config s"
      "lsm_value sizing s1 = map_step op (lsm_value sizing s)"
    using lsm_step_ok [of sizing W s op] Cons.prems by (auto simp: written_def)
  then show ?case using Cons.IH [of s1] Cons.prems by (auto simp: written_def)
qed simp

lemma lsm_open_wf:
  assumes "0 < max_levels c" "fits_all sizing W"
  shows "lsm_wf sizing W (lsm_open empty_disk c)" "lsm_value sizing (lsm_open empty_disk c) = Map.empty"
    "config (lsm_open empty_disk c) = c"
proof -
  have o: "lsm_open empty_disk c = \<lparr>active = mt_new, immutable = [], manifest = manifest_new (max_levels c), config = c, disk = empty_disk\<rparr>"
    by (simp add: lsm_open_def empty_disk_def load_or_create_def)
  show "lsm_wf sizing W (lsm_open empty_disk c)"
    using assms store_wf_empty [of sizing W "max_levels c" fmempty]
    unfolding o by (simp add: lsm_wf_def empty_disk_def l0_newest_def manifest_new_def)
  have "tables_view sizing d (replicate n []) = Map.empty" for d n
    by (induction n) (simp_all add: tables_view_simps)
  then show "lsm_value sizing (lsm_open empty_disk c) = Map.empty"
    by (simp add: o lsm_value_def lsm_view_def mem_view_active manifest_new_def fun_eq_iff)
  show "config (lsm_open empty_disk c) = c" by (simp add: o)
qed

section \<open>Any number of levels\<close>

lemma compact_loop_wf:
  assumes "compact_loop sizing s = Some r"
  shows "lsm_wf sizing W s \<longrightarrow> (\<exists>s'. r = Inr s' \<and> lsm_wf sizing W s' \<and> config s' = config s)"
proof (rule compact_loop.raw_induct [OF _ assms])
  fix loop :: "bloom_sizing \<Rightarrow> lsm \<Rightarrow> lsm io option" and sizing s r
  assume IH: "\<And>sizing s r. loop sizing s = Some r \<Longrightarrow>
      lsm_wf sizing W s \<longrightarrow> (\<exists>s'. r = Inr s' \<and> lsm_wf sizing W s' \<and> config s' = config s)"
    and body: "(case needs_compaction (manifest s) (config s) of None \<Rightarrow> Some (Inr s)
      | Some level \<Rightarrow> case compact_once sizing level s of Inl e \<Rightarrow> Some (Inl e) | Inr s \<Rightarrow> loop sizing s) = Some r"
  show "lsm_wf sizing W s \<longrightarrow> (\<exists>s'. r = Inr s' \<and> lsm_wf sizing W s' \<and> config s' = config s)"
  proof (intro impI, cases "needs_compaction (manifest s) (config s)")
    case None
    assume "lsm_wf sizing W s"
    then show "\<exists>s'. r = Inr s' \<and> lsm_wf sizing W s' \<and> config s' = config s" using None body by auto
  next
    case (Some level)
    assume wf: "lsm_wf sizing W s"
    obtain s1 where s1: "compact_once sizing level s = Inr s1" "lsm_wf sizing W s1" "config s1 = config s"
      using compact_once_ok [OF wf, of level] by blast
    then have "loop sizing s1 = Some r" using body Some by simp
    then show "\<exists>s'. r = Inr s' \<and> lsm_wf sizing W s' \<and> config s' = config s" using IH s1(2,3) by metis
  qed
qed

lemma lsm_sync_wf:
  assumes "lsm_wf sizing W s" "lsm_sync sizing s = Some r"
  shows "\<exists>s'. r = Inr s' \<and> lsm_wf sizing W s' \<and> config s' = config s"
proof -
  obtain s1 where s1: "lsm_flush sizing s = Inr s1" "lsm_wf sizing W s1" "config s1 = config s"
    using lsm_flush_ok [OF assms(1)] by blast
  then have "flush_immutables sizing s1 = Inr s1" by (intro flush_immutables_none) (simp add: lsm_wf_def)
  then have "compact_loop sizing s1 = Some r" using assms(2) s1(1) by (simp add: lsm_sync_def)
  from compact_loop_wf [OF this, of W] show ?thesis using s1(2,3) by simp
qed

lemma lsm_step_wf:
  assumes wf: "lsm_wf sizing W s" and ops: "op_entries op \<subseteq> W" and r: "lsm_step sizing op s = Some r"
  shows "\<exists>s'. r = Inr s' \<and> lsm_wf sizing W s' \<and> config s' = config s"
proof (cases op)
  case (OpPut k v)
  then show ?thesis
    using lsm_write_ok [OF wf, of k "Some v" "length k + length v + 16"] ops r by (auto simp: lsm_put_def mt_put_def)
next
  case (OpDelete k)
  then show ?thesis using lsm_write_ok [OF wf, of k None "length k + 8"] ops r by (auto simp: lsm_delete_def mt_delete_def)
next
  case OpFlush
  then show ?thesis using lsm_flush_ok [OF wf] r by auto
next
  case OpCompact
  then show ?thesis using lsm_compact_ok [OF wf] r by auto
next
  case OpSync
  then show ?thesis using lsm_sync_wf [OF wf] r by simp
qed

lemma lsm_run_wf:
  "lsm_wf sizing W s \<Longrightarrow> written ops \<subseteq> W \<Longrightarrow> lsm_run sizing ops s = Some r \<Longrightarrow>
    \<exists>s'. r = Inr s' \<and> lsm_wf sizing W s' \<and> config s' = config s"
proof (induction ops arbitrary: s)
  case (Cons op ops)
  obtain r1 where r1: "lsm_step sizing op s = Some r1" using Cons.prems(3) by (auto split: option.splits)
  then obtain s1 where s1: "r1 = Inr s1" "lsm_wf sizing W s1" "config s1 = config s"
    using lsm_step_wf [OF Cons.prems(1) _ r1] Cons.prems(2) by (auto simp: written_def)
  then have "lsm_run sizing ops s1 = Some r" using Cons.prems(3) r1 by simp
  then show ?case using Cons.IH [OF s1(2)] Cons.prems(2) s1(3) by (auto simp: written_def)
qed auto

section \<open>Restart\<close>

lemma fold_push_level:
  "\<forall>x\<in>set l. m_level x = i \<Longrightarrow> i < length ls \<Longrightarrow> fold push_level l ls = ls[i := ls ! i @ l]"
proof (induction l arbitrary: ls)
  case (Cons x l)
  then show ?case by (simp add: push_level_at)
qed simp

lemma load_levels:
  assumes "\<forall>i < length ls. \<forall>x\<in>set (ls ! i). m_level x = i"
  shows "fold push_level (concat ls) (replicate (length ls) []) = ls"
proof -
  have "fold push_level (concat (take i ls)) (replicate (length ls) []) = take i ls @ replicate (length ls - i) []"
    if "i \<le> length ls" for i
    using that
  proof (induction i)
    case (Suc i)
    let ?p = "take i ls @ replicate (length ls - i) []"
    have "fold push_level (concat (take (Suc i) ls)) (replicate (length ls) []) = fold push_level (ls ! i) ?p"
      using Suc by (simp add: take_Suc_conv_app_nth)
    also have "\<dots> = ?p[i := ?p ! i @ ls ! i]" using assms Suc.prems by (intro fold_push_level) auto
    also have "\<dots> = take (Suc i) ls @ replicate (length ls - Suc i) []"
    proof -
      have "replicate (length ls - i) [] = [] # replicate (length ls - Suc i) ([] :: sst_meta list)"
        using Suc.prems by (metis Suc_diff_Suc Suc_le_lessD replicate_Suc)
      then show ?thesis using Suc.prems by (simp add: list_update_append nth_append take_Suc_conv_app_nth)
    qed
    finally show ?case .
  qed simp
  from this [of "length ls"] show ?thesis by simp
qed

lemma reopen_manifest:
  assumes "store_wf sizing W n m d"
  shows "load_or_create n d = m"
proof -
  have "saved_ok n m d" "length (levels m) = n" using assms by (simp_all add: store_wf_def)
  moreover have "\<forall>i < length (levels m). \<forall>x\<in>set (levels m ! i). m_level x = i"
    using assms by (simp add: store_wf_def table_wf_def)
  ultimately show ?thesis
    using load_levels [of "levels m"] by (auto simp: saved_ok_def load_or_create_def manifest_load_def)
qed

lemma lsm_reopen: "lsm_wf sizing W s \<Longrightarrow> lsm_open (disk s) (config s) = s\<lparr>active := mt_new\<rparr>"
  using reopen_manifest [of sizing W "max_levels (config s)" "manifest s" "disk s"]
  by (cases s) (simp add: lsm_open_def lsm_wf_def)

section \<open>Instances for the witnesses\<close>

lemma enc_kvs_bound:
  assumes "finite W" "sorted_kvs es" "set es \<subseteq> W"
  shows "length (enc_kvs es) \<le> (\<Sum>e\<in>W. length (enc_kv e))" "length es \<le> card W"
proof -
  have dist: "distinct es" using sorted_kvs_distinct [OF assms(2)] by (simp add: distinct_map)
  have "length (enc_kvs es) = (\<Sum>e\<in>set es. length (enc_kv e))"
    using dist by (simp add: enc_kvs_def length_concat sum_list_distinct_conv_sum_set comp_def)
  also have "\<dots> \<le> (\<Sum>e\<in>W. length (enc_kv e))" using assms(1,3) by (intro sum_mono2) auto
  finally show "length (enc_kvs es) \<le> (\<Sum>e\<in>W. length (enc_kv e))" .
  show "length es \<le> card W" using dist assms(1,3) by (metis card_mono distinct_card)
qed

definition test_sizing :: bloom_sizing where
  "test_sizing n = (10 * n, 7)"

lemma fits_all_small:
  assumes "finite W" "card W \<le> 6" "(\<Sum>e\<in>W. length (enc_kv e)) \<le> 1000"
  shows "fits_all test_sizing W"
proof (unfold fits_all_def, intro allI impI)
  fix es assume es: "es \<noteq> []" "sorted_kvs es" "set es \<subseteq> W"
  have "length es \<le> 6" "length (enc_kvs es) \<le> 1000"
    using enc_kvs_bound [OF assms(1) es(2,3)] assms(2,3) by linarith+
  moreover have "bloom_size_bytes (bloom_new test_sizing n) = 8" if "n \<le> 6" for n
    using that by (simp add: bloom_size_bytes_def bloom_new_def bloom_alloc_def test_sizing_def)
  ultimately show "fits test_sizing es" by (simp add: fits_def table_bytes_def)
qed

definition test_config :: lsm_config where
  "test_config = \<lparr>memtable_size_threshold = 1024, l0_compaction_trigger = 2, level_size_multiplier = 10, max_levels = 2,
     target_sst_size = 4096, l1_target_size = 16384\<rparr>"

definition test_ops :: "lsm_op list" where
  "test_ops = [OpPut [1] [7], OpPut [2] [8], OpFlush, OpDelete [1], OpSync]"

lemma test_written: "written test_ops = {([1], Some [7]), ([2], Some [8]), ([1], None)}"
  by (auto simp: written_def test_ops_def)

lemma test_fits: "fits_all test_sizing (written test_ops)"
proof (rule fits_all_small)
  show "(\<Sum>e\<in>written test_ops. length (enc_kv e)) \<le> 1000" unfolding test_written by (simp add: enc_kv_def)
  show "card (written test_ops) \<le> 6" unfolding test_written by simp
qed (simp add: test_written)

section \<open>Properties\<close>

text \<open>
  C5: The engine behaves like a map. With two levels and a trigger of at least one table, every sequence of puts, deletes, flushes,
  compactions and syncs on a new engine ends without error; afterwards a lookup returns what the map to which the same puts and
  deletes were applied holds, and a range scan returns the entries of that map between the bounds in strictly increasing key order.
  This covers the switch from the in-memory table to table files, the merge of level 0 into level 1 and the removal of tombstones
  there. The hypothesis on the entries written bounds every table that can be made of them by \<open>fits\<close>,
  an upper estimate of the file size (18 times the encoded entries, plus filter and footer) below the 4 GiB that the 32-bit lengths of
  the format can express.
\<close>

theorem lsm_engine_refines_map:
  assumes "max_levels c = 2" "0 < l0_compaction_trigger c" "fits_all sizing (written ops)"
  shows "\<exists>s. lsm_run sizing ops (lsm_open empty_disk c) = Some (Inr s) \<and>
    (\<forall>k. lsm_get sizing s k = Inr (fold map_step ops Map.empty k)) \<and>
    (\<forall>a b. a \<le> b \<longrightarrow> (\<exists>xs. lsm_range sizing s a b = Inr xs \<and> sorted_wrt (<) (map fst xs) \<and>
       set xs = {(k, v). a \<le> k \<and> k \<le> b \<and> fold map_step ops Map.empty k = Some v}))"
proof -
  have init: "lsm_wf sizing (written ops) (lsm_open empty_disk c)" "lsm_value sizing (lsm_open empty_disk c) = Map.empty"
      "config (lsm_open empty_disk c) = c"
    using lsm_open_wf [of c sizing "written ops"] assms by simp_all
  obtain s where s: "lsm_run sizing ops (lsm_open empty_disk c) = Some (Inr s)" "lsm_wf sizing (written ops) s"
      "lsm_value sizing s = fold map_step ops Map.empty"
    using lsm_run_ok [OF init(1) order.refl] assms(1,2) init(2,3) by auto
  have "all_good sizing (files (disk s)) (levels (manifest s))" using s(2) store_wf_good by (auto simp: lsm_wf_def)
  then show ?thesis
    using s lsm_wf_get [OF s(2)] lsm_range_view [of sizing s] by (fastforce simp: lsm_value_def [symmetric])
qed

theorem lsm_engine_refines_map_witness:
  "\<exists>s. lsm_run test_sizing test_ops (lsm_open empty_disk test_config) = Some (Inr s) \<and>
     lsm_get test_sizing s [1] = Inr None \<and> lsm_get test_sizing s [2] = Inr (Some [8])"
proof -
  have "max_levels test_config = 2" "0 < l0_compaction_trigger test_config" by (simp_all add: test_config_def)
  from lsm_engine_refines_map [OF this test_fits] show ?thesis by (auto simp: test_ops_def)
qed

text \<open>
  C31: The tables on disk stay well-formed. Whatever the number of levels, a sequence of operations on a new engine never ends in an
  error, and in every state it reaches each table is a readable file with the first and last key of its metadata and a unique
  number, and the tables of each level but the first cover disjoint key ranges.
\<close>

theorem lsm_tables_well_formed:
  assumes "0 < max_levels c" "fits_all sizing (written ops)" "lsm_run sizing ops (lsm_open empty_disk c) = Some r"
  shows "\<exists>s. r = Inr s \<and> length (levels (manifest s)) = max_levels c \<and> ids_unique (levels (manifest s)) \<and>
    (\<forall>l\<in>set (levels (manifest s)). \<forall>x\<in>set l. good_table sizing (files (disk s)) x \<and> m_id x < next_sst_id (manifest s)) \<and>
    (\<forall>i < max_levels c. 0 < i \<longrightarrow> tables_disjoint (levels (manifest s) ! i))"
proof -
  obtain s where s: "r = Inr s" "lsm_wf sizing (written ops) s" "config s = c"
    using lsm_run_wf [OF lsm_open_wf(1) [OF assms(1,2)] order.refl assms(3)] lsm_open_wf(3) [OF assms(1,2)] by auto
  then have wf: "store_wf sizing (written ops) (max_levels c) (manifest s) (disk s)" by (simp add: lsm_wf_def)
  then have "\<forall>l\<in>set (levels (manifest s)). \<forall>x\<in>set l. good_table sizing (files (disk s)) x \<and> m_id x < next_sst_id (manifest s)"
    unfolding store_wf_def table_wf_def by (metis in_set_conv_nth)
  then show ?thesis using s(1) wf by (simp add: store_wf_def)
qed

theorem lsm_tables_well_formed_witness:
  "\<exists>s. lsm_run test_sizing [OpPut [1] [7], OpFlush] (lsm_open empty_disk (test_config\<lparr>max_levels := 7\<rparr>)) = Some (Inr s) \<and>
     length (levels (manifest s)) = 7"
proof -
  let ?ops = "[OpPut [1] [7], OpFlush]" and ?c = "test_config\<lparr>max_levels := 7\<rparr>"
  have W: "written ?ops = {([1], Some [7])}" by (auto simp: written_def)
  have fits: "fits_all test_sizing (written ?ops)" unfolding W by (rule fits_all_small) (simp_all add: enc_kv_def)
  obtain s1 where s1: "lsm_step test_sizing (OpPut [1] [7]) (lsm_open empty_disk ?c) = Some (Inr s1)"
      "lsm_wf test_sizing (written ?ops) s1"
    using lsm_write_ok [OF lsm_open_wf(1) [OF _ fits, of ?c], of "[1]" "Some [7]" "1 + 1 + 16"] W
    by (auto simp: lsm_put_def mt_put_def test_config_def)
  obtain s where "lsm_flush test_sizing s1 = Inr s" using lsm_flush_ok [OF s1(2)] by blast
  then have run: "lsm_run test_sizing ?ops (lsm_open empty_disk ?c) = Some (Inr s)" using s1(1) by simp
  then show ?thesis using lsm_tables_well_formed [OF _ fits run] by (auto simp: test_config_def)
qed

text \<open>
  C32: A restart loses exactly the in-memory table. Opening the engine on the disk that a sequence of operations left gives the same
  engine with an empty in-memory table: every table and every level is as before, so everything flushed is read back, while entries
  that were only put or deleted in memory are gone without a trace.
\<close>

theorem lsm_restart_keeps_tables:
  assumes "0 < max_levels c" "fits_all sizing (written ops)" "lsm_run sizing ops (lsm_open empty_disk c) = Some (Inr s)"
  shows "lsm_open (disk s) c = s\<lparr>active := mt_new\<rparr> \<and>
    (mt_is_empty (active s) \<longrightarrow> (\<forall>k. lsm_get sizing (lsm_open (disk s) c) k = lsm_get sizing s k))"
proof -
  have s: "lsm_wf sizing (written ops) s" "config s = c"
    using lsm_run_wf [OF lsm_open_wf(1) [OF assms(1,2)] order.refl assms(3)] lsm_open_wf(3) [OF assms(1,2)] by auto
  have open': "lsm_open (disk s) c = s\<lparr>active := mt_new\<rparr>" using lsm_reopen [OF s(1)] s(2) by simp
  moreover have "lsm_get sizing (s\<lparr>active := mt_new\<rparr>) k = lsm_get sizing s k" if "mt_is_empty (active s)" for k
    using that by (simp add: lsm_get_def mt_get_def mt_is_empty_def split: option.split)
  ultimately show ?thesis by simp
qed

theorem lsm_restart_keeps_tables_witness:
  "\<exists>s. lsm_run test_sizing test_ops (lsm_open empty_disk test_config) = Some (Inr s) \<and>
     lsm_open (disk s) test_config = s\<lparr>active := mt_new\<rparr>"
proof -
  have c: "0 < max_levels test_config" "max_levels test_config = 2" "0 < l0_compaction_trigger test_config"
    by (simp_all add: test_config_def)
  obtain s where "lsm_run test_sizing test_ops (lsm_open empty_disk test_config) = Some (Inr s)"
    using lsm_run_ok [OF lsm_open_wf(1) [OF c(1) test_fits] order.refl] c(2,3) lsm_open_wf(3) [OF c(1) test_fits] by auto
  then show ?thesis using lsm_restart_keeps_tables [OF c(1) test_fits] by blast
qed

text \<open>
  C33: \<open>sync\<close> ends. With at least two levels and a trigger of at least one table, the loop of \<open>sync\<close> that compacts until no level
  asks for it comes to an end from every well-formed state, without error, with an empty in-memory table and no level that still asks
  for compaction. Every turn takes a table out of a level and leaves the levels above it alone.
\<close>

theorem lsm_sync_terminates:
  assumes "lsm_wf sizing W s" "0 < l0_compaction_trigger (config s)" "1 < max_levels (config s)"
  shows "\<exists>s'. lsm_sync sizing s = Some (Inr s') \<and> mt_is_empty (active s') \<and> needs_compaction (manifest s') (config s) = None"
  using lsm_sync_ok [OF assms] by force

theorem lsm_sync_terminates_witness:
  "\<exists>s s'. lsm_run test_sizing [OpPut [1] [7]] (lsm_open empty_disk (test_config\<lparr>max_levels := 7\<rparr>)) = Some (Inr s) \<and>
     lsm_sync test_sizing s = Some (Inr s')"
proof -
  let ?ops = "[OpPut [1] [7]]" and ?c = "test_config\<lparr>max_levels := 7\<rparr>"
  have W: "written ?ops = {([1], Some [7])}" by (auto simp: written_def)
  have fits: "fits_all test_sizing (written ?ops)" unfolding W by (rule fits_all_small) (simp_all add: enc_kv_def)
  have c: "0 < max_levels ?c" by (simp add: test_config_def)
  obtain s where s: "lsm_step test_sizing (OpPut [1] [7]) (lsm_open empty_disk ?c) = Some (Inr s)"
      "lsm_wf test_sizing (written ?ops) s" "config s = config (lsm_open empty_disk ?c)"
    using lsm_write_ok [OF lsm_open_wf(1) [OF c fits], of "[1]" "Some [7]" "1 + 1 + 16"] W
    by (auto simp: lsm_put_def mt_put_def)
  have "\<exists>s'. lsm_sync test_sizing s = Some (Inr s') \<and> mt_is_empty (active s') \<and> needs_compaction (manifest s') (config s) = None"
    using s(3) lsm_open_wf(3) [OF c fits] by (intro lsm_sync_terminates [OF s(2)]) (simp_all add: test_config_def)
  then show ?thesis using s(1) by auto
qed

text \<open>
  With a single level the loop has nowhere to move a table to, and \<open>sync\<close> does not return once level 0 holds as many tables as the
  trigger.
\<close>

theorem compact_loop_hangs:
  assumes "max_levels (config s) \<le> 1" "l0_compaction_trigger (config s) \<le> level_count (manifest s) 0"
  shows "compact_loop sizing s = None"
proof (rule ccontr)
  assume "compact_loop sizing s \<noteq> None"
  then obtain r where "compact_loop sizing s = Some r" by blast
  from compact_loop_stuck [OF this] show False using assms by (simp add: needs_compaction_def)
qed

end
