(* ===== verification/Lsm_Lists.thy ===== *)
theory Lsm_Lists
  imports Lsm_Props
begin

text \<open>
  Compaction of the log-structured engine on lists of entries instead of files: the compaction of table files refines it, and on it one
  can compute what a sequence of compactions does to a value.
\<close>

section \<open>Compaction on lists\<close>

type_synonym atable = "nat \<times> kv list"

definition a_first :: "atable \<Rightarrow> bytes" where
  "a_first x = fst (hd (snd x))"

definition a_last :: "atable \<Rightarrow> bytes" where
  "a_last x = fst (last (snd x))"

definition a_newest_first :: "atable list \<Rightarrow> atable list" where
  "a_newest_first xs = sort_key (\<lambda>x. - int (fst x)) xs"

fun keep_first :: "kv list \<Rightarrow> kv list" where
  "keep_first [] = []"
| "keep_first (e # es) = e # filter (\<lambda>x. fst x \<noteq> fst e) (keep_first es)"

definition a_merge :: "bool \<Rightarrow> kv list \<Rightarrow> kv list" where
  "a_merge dead es = filter (\<lambda>(k, v). \<not> dead \<or> v \<noteq> None) (sort_key fst (keep_first es))"

definition a_compact :: "lsm_config \<Rightarrow> nat \<Rightarrow> atable list list \<Rightarrow> nat \<Rightarrow> atable list list \<times> nat" where
  "a_compact c level ls nx =
     (let S = (if level = 0 then ls ! 0 else [arg_min_list a_first (ls ! level)]);
          T = filter (\<lambda>x. ranges_overlap (a_first x) (a_last x) (Min (a_first ` set S)) (Max (a_last ` set S))) (ls ! (level + 1));
          es = a_merge (level + 1 \<ge> max_levels c - 1) (concat (map snd (a_newest_first (S @ T))));
          cs = merged_chunks c es;
          stay = filter (\<lambda>x. fst x \<notin> set (map fst (S @ T)))
      in ((map stay ls)[level + 1 := stay (ls ! (level + 1)) @ zip [nx..<nx + length cs] cs], nx + length cs))"

definition abs_table :: "bloom_sizing \<Rightarrow> directory \<Rightarrow> sst_meta \<Rightarrow> atable" where
  "abs_table sizing d x = (m_id x, ents sizing d x)"

definition abs_levels :: "bloom_sizing \<Rightarrow> manifest \<Rightarrow> disk \<Rightarrow> atable list list" where
  "abs_levels sizing m d = map (map (abs_table sizing (files d))) (levels m)"

section \<open>Merging lists\<close>

lemma keep_first_view: "map_of (keep_first es) = map_of es \<and> distinct (map fst (keep_first es))"
proof (induction es)
  case (Cons e es)
  have "map_of (filter (\<lambda>x. fst x \<noteq> k) xs) = (map_of xs)(k := None)" for k and xs :: "kv list"
    by (induction xs) auto
  then have "map_of (keep_first (e # es)) = map_of (e # es)" using Cons by (cases e) auto
  moreover have "distinct (map fst (keep_first (e # es)))" using Cons by (auto simp: distinct_map_filter)
  ultimately show ?case by blast
qed simp

lemma sorted_kvs_unique: "sorted_kvs xs \<Longrightarrow> sorted_kvs ys \<Longrightarrow> map_of xs = map_of ys \<Longrightarrow> xs = ys"
proof -
  assume *: "sorted_kvs xs" "sorted_kvs ys" "map_of xs = map_of ys"
  then have "set xs = set ys" using sorted_kvs_distinct by (metis map_of_eqI map_of_is_SomeI map_of_SomeD subrelI subset_antisym)
  moreover have "distinct xs" "distinct ys" using *(1,2) sorted_kvs_distinct by (auto simp: distinct_map)
  ultimately have "mset xs = mset ys" by (simp add: set_eq_iff_mset_eq_distinct)
  moreover have "inj_on fst (set xs)" using *(1) sorted_kvs_distinct by (auto simp: distinct_map)
  ultimately have "sort_key fst xs = ys" using *(2) by (intro sort_key_inj_key_eq strict_sorted_imp_sorted)
  then show "xs = ys" using *(1) by (simp add: sort_key_id_if_sorted strict_sorted_imp_sorted)
qed

lemma a_merge_view:
  "sorted_kvs (a_merge dead es)" "map_of (a_merge dead es) k = drop_dead dead (map_of es k)"
proof -
  let ?ks = "keep_first es"
  have dist: "distinct (map fst (sort_key fst ?ks))" using keep_first_view [of es] by (simp add: distinct_map)
  then have "sorted_kvs (sort_key fst ?ks)" by (simp add: strict_sorted_iff)
  then show "sorted_kvs (a_merge dead es)" unfolding a_merge_def by (rule sorted_kvs_filter)
  have "map_of (sort_key fst ?ks) = map_of ?ks"
    using keep_first_view [of es] dist by (intro map_of_inject_set [THEN iffD2]) auto
  then show "map_of (a_merge dead es) k = drop_dead dead (map_of es k)"
    unfolding a_merge_def map_of_filter_value [OF dist] using keep_first_view [of es] by simp
qed

lemma newest_first_abs: "map (abs_table sizing d) (newest_first l) = a_newest_first (map (abs_table sizing d) l)"
proof -
  have "insort_key (\<lambda>x. - int (fst x)) (abs_table sizing d y) (map (abs_table sizing d) l) =
      map (abs_table sizing d) (insort_key (\<lambda>m. - int (m_id m)) y l)" for y l
    by (induction l) (simp_all add: abs_table_def)
  then have "sort_key (\<lambda>x. - int (fst x)) (map (abs_table sizing d) l) = map (abs_table sizing d) (sort_key (\<lambda>m. - int (m_id m)) l)" for l
    by (induction l) simp_all
  then show ?thesis by (simp add: newest_first_def a_newest_first_def)
qed

lemma arg_min_list_map:
  "xs \<noteq> [] \<Longrightarrow> \<forall>x\<in>set xs. f (g x) = h x \<Longrightarrow> arg_min_list f (map g xs) = g (arg_min_list h xs)"
proof (induction xs rule: induct_list012)
  case (3 x y zs)
  have "arg_min_list h (y # zs) \<in> set (y # zs)" by (rule arg_min_list_in) simp
  then have "f (g (arg_min_list h (y # zs))) = h (arg_min_list h (y # zs))" "f (g x) = h x" using 3 by auto
  moreover have "arg_min_list f (g y # map g zs) = g (arg_min_list h (y # zs))" using 3 by simp
  ultimately show ?case by (simp add: Let_def)
qed simp_all

lemma abs_keys:
  assumes "good_table sizing d x"
  shows "a_first (abs_table sizing d x) = first_key x" "a_last (abs_table sizing d x) = last_key x"
  using good_nonempty [OF assms] by (simp_all add: a_first_def a_last_def abs_table_def)

section \<open>The compaction of files refines the compaction of lists\<close>

lemma trace_source_abs:
  assumes wf: "store_wf sizing W n m d" and t: "trace_ok sizing W c m d level t" and lvl: "level < n"
  shows "(if level = 0 then abs_levels sizing m d ! 0 else [arg_min_list a_first (abs_levels sizing m d ! level)]) =
    map (abs_table sizing (files d)) (tr_source t)"
proof -
  let ?A = "abs_table sizing (files d)"
  have len: "length (levels m) = n" using wf by (simp add: store_wf_def)
  have good: "\<forall>x\<in>set (levels m ! level). a_first (?A x) = first_key x"
    using store_wf_table [OF wf lvl] abs_keys(1) by (simp add: table_wf_def)
  have ne: "levels m ! level \<noteq> []" using t by (auto simp: trace_ok_def)
  have src: "tr_source t = source_of (levels m ! level) level" using t by (simp add: trace_ok_def)
  have "abs_levels sizing m d ! level = map ?A (levels m ! level)" using len lvl by (simp add: abs_levels_def)
  then show ?thesis
    using arg_min_list_map [OF ne, of a_first ?A first_key] good unfolding src by (cases "level = 0") (simp_all add: source_of_def)
qed

lemma trace_target_abs:
  assumes wf: "store_wf sizing W n m d" and t: "trace_ok sizing W c m d level t" and lvl: "level + 1 < n"
  defines "S \<equiv> map (abs_table sizing (files d)) (tr_source t)"
  shows "filter (\<lambda>x. ranges_overlap (a_first x) (a_last x) (Min (a_first ` set S)) (Max (a_last ` set S)))
      (abs_levels sizing m d ! (level + 1)) = map (abs_table sizing (files d)) (tr_target t)"
proof -
  let ?A = "abs_table sizing (files d)"
  have len: "length (levels m) = n" using wf by (simp add: store_wf_def)
  have keys: "a_first (?A x) = first_key x" "a_last (?A x) = last_key x" if "i < n" "x \<in> set (levels m ! i)" for i x
    using store_wf_table [OF wf that] abs_keys by (simp_all add: table_wf_def)
  have sub: "set (tr_source t) \<subseteq> set (levels m ! level)" using t unfolding trace_ok_def by blast
  have "a_first ` set S = first_key ` set (tr_source t)" "a_last ` set S = last_key ` set (tr_source t)"
    using keys [of level] sub lvl by (auto simp: S_def image_image intro!: image_cong)
  moreover have "filter (\<lambda>x. ranges_overlap (a_first (?A x)) (a_last (?A x)) lo hi) (levels m ! (level + 1)) =
      filter (\<lambda>x. ranges_overlap (first_key x) (last_key x) lo hi) (levels m ! (level + 1))" for lo hi
    using keys [OF lvl] by (intro filter_cong) auto
  ultimately show ?thesis
    using t len lvl by (simp add: abs_levels_def filter_map comp_def trace_ok_def)
qed

lemma trace_merged_abs:
  assumes "trace_ok sizing W c m d level t"
  shows "a_merge (level + 1 \<ge> max_levels c - 1)
      (concat (map snd (a_newest_first (map (abs_table sizing (files d)) (tr_source t @ tr_target t))))) = tr_merged t"
proof (rule sorted_kvs_unique [OF a_merge_view(1) trace_sorted [OF assms]], rule ext)
  fix k
  have "concat (map snd (a_newest_first (map (abs_table sizing (files d)) l))) = concat (map (ents sizing (files d)) (newest_first l))" for l
    unfolding newest_first_abs [symmetric] by (simp add: abs_table_def comp_def)
  then show "map_of (a_merge (level + 1 \<ge> max_levels c - 1)
      (concat (map snd (a_newest_first (map (abs_table sizing (files d)) (tr_source t @ tr_target t)))))) k = map_of (tr_merged t) k"
    unfolding a_merge_view(2) trace_merged [OF assms] by (simp del: map_append)
qed

lemma kept_abs: "filter (\<lambda>x. fst x \<notin> set (map fst (map (abs_table sizing d) (tr_source t @ tr_target t)))) (map (abs_table sizing d) l) =
    map (abs_table sizing d) (kept t l)"
  by (simp add: filter_map comp_def kept_def old_ids_def abs_table_def image_Un image_image)

lemma compact_level_lists:
  assumes wf: "store_wf sizing W (max_levels c) m d" and fits: "fits_all sizing W"
    and lvl: "level + 1 < max_levels c" "levels m ! level \<noteq> []"
  shows "\<exists>res m' d'. compact_level sizing m d level c = Inr (res, m', d') \<and> store_wf sizing W (max_levels c) m' d' \<and>
    (abs_levels sizing m' d', next_sst_id m') = a_compact c level (abs_levels sizing m d) (next_sst_id m)"
proof -
  obtain t res where t: "trace_ok sizing W c m d level t"
      "compact_level sizing m d level c = Inr (res, fst (after_compaction t level m), snd (after_compaction t level m))"
    using compact_level_trace [OF wf fits lvl] by blast
  let ?m = "fst (after_compaction t level m)" and ?d = "snd (after_compaction t level m)" and ?n = "max_levels c"
  let ?A = "abs_table sizing (files d)" and ?A' = "abs_table sizing (files ?d)" and ?nx = "next_sst_id m"
  let ?cs = "merged_chunks c (tr_merged t)" and ?ls = "levels m"
  have len: "length ?ls = ?n" using wf by (simp add: store_wf_def)
  have cs: "map (ents sizing (files (tr_written t))) (tr_new t) = ?cs" "map m_id (tr_new t) = [?nx..<?nx + length (tr_new t)]"
    using t(1) by (simp_all add: trace_ok_def)
  then have n: "length ?cs = length (tr_new t)" by (metis length_map)
  have stay: "map ?A' (kept t (?ls ! i)) = map ?A (kept t (?ls ! i))" if "i < ?n" for i
    using after_tables(1) [OF wf t(1) lvl(1) that] by (simp add: abs_table_def)
  have new: "map ?A' (tr_new t) = zip [?nx..<?nx + length ?cs] ?cs"
  proof -
    have "zip (map m_id (tr_new t)) (map (ents sizing (files (tr_written t))) (tr_new t)) =
        map (\<lambda>x. (m_id x, ents sizing (files (tr_written t)) x)) (tr_new t)"
      by (rule nth_equalityI) simp_all
    then show ?thesis
      unfolding cs n using after_tables(2) [OF wf t(1) lvl(1)] by (simp add: abs_table_def)
  qed
  have m': "levels ?m = after_levels t level ?ls" "next_sst_id ?m = ?nx + length ?cs"
    using n by (simp_all add: after_compaction_def Let_def)
  have nth: "after_levels t level ?ls ! i = kept t (?ls ! i) @ (if i = level + 1 then tr_new t else [])" if "i < ?n" for i
    using after_levels_nth [of i ?ls level t] that len lvl(1) by simp
  have "abs_levels sizing ?m ?d = (map (\<lambda>l. map ?A (kept t l)) ?ls)[level + 1 := map ?A (kept t (?ls ! (level + 1))) @ zip [?nx..<?nx + length ?cs] ?cs]"
    (is "_ = ?rhs")
  proof (rule nth_equalityI)
    show "length (abs_levels sizing ?m ?d) = length ?rhs" by (simp add: abs_levels_def m'(1) after_levels_def)
    fix i assume "i < length (abs_levels sizing ?m ?d)"
    then have i: "i < ?n" using len by (simp add: abs_levels_def m'(1) after_levels_def)
    have "abs_levels sizing ?m ?d ! i = map ?A' (after_levels t level ?ls ! i)"
      using i len by (simp add: abs_levels_def m'(1) after_levels_def)
    also have "\<dots> = map ?A (kept t (?ls ! i)) @ (if i = level + 1 then zip [?nx..<?nx + length ?cs] ?cs else [])"
      unfolding nth [OF i] map_append stay [OF i] using new by (cases "i = level + 1") simp_all
    also have "\<dots> = ?rhs ! i" using i len lvl(1) by (simp add: nth_list_update)
    finally show "abs_levels sizing ?m ?d ! i = ?rhs ! i" .
  qed
  moreover have "a_compact c level (abs_levels sizing m d) ?nx =
      ((map (\<lambda>l. map ?A (kept t l)) ?ls)[level + 1 := map ?A (kept t (?ls ! (level + 1))) @ zip [?nx..<?nx + length ?cs] ?cs], ?nx + length ?cs)"
    unfolding a_compact_def trace_source_abs [OF wf t(1) add_lessD1 [OF lvl(1)]] Let_def trace_target_abs [OF wf t(1) lvl(1)]
      map_append [symmetric] trace_merged_abs [OF t(1)]
    using kept_abs [of sizing "files d" t] len lvl(1) by (simp add: abs_levels_def comp_def del: map_append)
  ultimately show ?thesis using t(2) after_compaction_wf [OF wf t(1) lvl(1)] m'(2) by (intro exI) auto
qed

section \<open>The engine on lists\<close>

definition abs_state :: "bloom_sizing \<Rightarrow> lsm \<Rightarrow> atable list list \<times> nat" where
  "abs_state sizing s = (abs_levels sizing (manifest s) (disk s), next_sst_id (manifest s))"

lemma tables_view_abs:
  "tables_view sizing d ls = map_of (concat (map snd (concat (map a_newest_first (map (map (abs_table sizing d)) ls)))))"
proof -
  have "concat (map (ents sizing d) (search_order ls)) =
      concat (map snd (concat (map a_newest_first (map (map (abs_table sizing d)) ls))))"
  proof (induction ls)
    case (Cons l ls)
    have "map (ents sizing d) (newest_first l) = map snd (a_newest_first (map (abs_table sizing d) l))"
      unfolding newest_first_abs [symmetric] by (simp add: abs_table_def comp_def)
    then show ?case using Cons by simp
  qed simp
  then show ?thesis by (simp add: tables_view_def)
qed

lemma lsm_get_abs:
  assumes "lsm_wf sizing W s" "active s = mt_new" "fst (abs_state sizing s) = ls"
  shows "lsm_get sizing s k = Inr (vis (map_of (concat (map snd (concat (map a_newest_first ls)))) k))"
proof -
  have "immutable s = []" using assms(1) by (simp add: lsm_wf_def)
  then show ?thesis
    using lsm_wf_get [OF assms(1), of k] assms(2) assms(3) [symmetric]
    by (simp add: lsm_value_def lsm_view_def mem_view_active tables_view_abs abs_state_def abs_levels_def)
qed

lemma flush_abs:
  assumes wf: "lsm_wf sizing W s" and ne: "mt_data (active s) \<noteq> fmempty" and st: "abs_state sizing s = (l # ls, nx)"
  shows "\<exists>s'. lsm_flush sizing s = Inr s' \<and> lsm_wf sizing W s' \<and> config s' = config s \<and> active s' = mt_new \<and>
    abs_state sizing s' = ((l @ [(nx, mt_iter (active s))]) # ls, nx + 1)"
proof -
  obtain s' where s': "lsm_flush sizing s = Inr s'" "lsm_wf sizing W s'" "config s' = config s"
    using lsm_flush_ok [OF wf] by blast
  let ?es = "mt_iter (active s)" and ?m = "manifest s"
  have w: "fits_all sizing W" "sorted_kvs ?es" "?es \<noteq> []" "set ?es \<subseteq> W" "store_wf sizing W (max_levels (config s)) ?m (disk s)"
    using wf ne sorted_fm_entries by (simp_all add: lsm_wf_def mt_iter_def fm_entries_Nil)
  have nx: "nx = next_sst_id ?m" using st by (simp add: abs_state_def)
  obtain meta fl where meta: "write_table sizing nx 0 (SstPath nx) ?es = Inr (meta, fl)" "m_id meta = nx"
      "\<And>d. fmlookup d (SstPath nx) = Some fl \<Longrightarrow> table_wf sizing W d 0 meta \<and> ents sizing d meta = ?es"
    using write_one_table [OF w(1-4), of nx 0] by metis
  let ?d = "fmupd (SstPath nx) fl (files (disk s))"
  have new: "m_level meta = 0" "abs_table sizing ?d meta = (nx, ?es)"
    using meta(3) [of ?d] meta(2) by (simp_all add: table_wf_def abs_table_def)
  have old: "abs_table sizing ?d x = abs_table sizing (files (disk s)) x" if V: "l \<in> set (levels ?m)" "x \<in> set l" for l x
  proof -
    have "length (levels ?m) = max_levels (config s)" using w(5) by (simp add: store_wf_def)
    then obtain i where "i < max_levels (config s)" "x \<in> set (levels ?m ! i)" using V by (metis in_set_conv_nth)
    then have x: "table_wf sizing W (files (disk s)) i x" "m_id x < nx" using store_wf_table [OF w(5)] nx by simp_all
    then have "fmlookup ?d (SstPath (m_id x)) = fmlookup (files (disk s)) (SstPath (m_id x))" by simp
    from table_wf_same_file(2) [OF this x(1)] show ?thesis by (simp add: abs_table_def)
  qed
  obtain l' ls' where lv: "levels ?m = l' # ls'" using st by (auto simp: abs_state_def abs_levels_def)
  then have abs: "l = map (abs_table sizing (files (disk s))) l'" "ls = map (map (abs_table sizing (files (disk s)))) ls'"
    using st by (simp_all add: abs_state_def abs_levels_def)
  have "levels (manifest s') = (l' @ [meta]) # ls'" "next_sst_id (manifest s') = nx + 1" "files (disk s') = ?d" "active s' = mt_new"
    using s'(1) ne meta(1) new(1) lv
    by (auto simp: lsm_flush_def mt_is_empty_def mt_drain_def write_memtable_to_sst_def allocate_sst_def add_sstable_def
        push_level_at manifest_save_def mt_iter_def nx [symmetric] Let_def mt_new_def)
  then show ?thesis
    using s' abs new(2) old lv by (auto simp: abs_state_def abs_levels_def)
qed

lemma needs_compaction_abs:
  assumes "lsm_wf sizing W s" "abs_levels sizing (manifest s) (disk s) = [l0, l1, l2]"
    and c: "max_levels (config s) = 3" "l0_compaction_trigger (config s) = 1" "l1_target_size (config s) = 0"
  shows "needs_compaction (manifest s) (config s) = (if l0 \<noteq> [] then Some 0 else if l1 \<noteq> [] then Some 1 else None)"
proof -
  obtain k0 k1 k2 where lv: "levels (manifest s) = [k0, k1, k2]" "l0 = [] \<longleftrightarrow> k0 = []" "l1 = [] \<longleftrightarrow> k1 = []"
    using assms(2) by (auto simp: abs_levels_def map_eq_Cons_conv)
  have "0 < size_bytes x" if "x \<in> set k1" for x
  proof -
    have "table_wf sizing W (files (disk s)) 1 x"
      using assms(1) c(1) lv(1) that store_wf_table [of sizing W 3 "manifest s" "disk s" 1 x] by (simp add: lsm_wf_def)
    then show ?thesis by (simp add: table_wf_def good_table_def meta_ok_def)
  qed
  then have "0 < sum_list (map size_bytes k1) \<longleftrightarrow> k1 \<noteq> []" by (cases k1) auto
  moreover have "[1..<2] = [1 :: nat]" by (simp add: upt_rec)
  ultimately show ?thesis using lv c by (auto simp: needs_compaction_def level_count_def level_size_def Suc_le_eq)
qed

lemma compact_abs:
  assumes wf: "lsm_wf sizing W s" and st: "abs_state sizing s = ([l0, l1, l2], nx)"
    and c: "max_levels (config s) = 3" "l0_compaction_trigger (config s) = 1" "l1_target_size (config s) = 0"
    and lvl: "level = (if l0 \<noteq> [] then 0 else 1)" "l0 \<noteq> [] \<or> l1 \<noteq> []"
  shows "\<exists>s'. lsm_step sizing OpCompact s = Some (Inr s') \<and> lsm_wf sizing W s' \<and> config s' = config s \<and> active s' = active s \<and>
    abs_state sizing s' = a_compact (config s) level [l0, l1, l2] nx"
proof -
  have lv: "abs_levels sizing (manifest s) (disk s) = [l0, l1, l2]" "next_sst_id (manifest s) = nx" using st by (simp_all add: abs_state_def)
  have asks: "needs_compaction (manifest s) (config s) = Some level"
    using needs_compaction_abs [OF wf lv(1) c] lvl by simp
  obtain s' where s': "compact_once sizing level s = Inr s'" "lsm_wf sizing W s'" "config s' = config s" "active s' = active s"
    using compact_once_ok [OF wf] by blast
  have "abs_levels sizing (manifest s) (disk s) ! level \<noteq> []" using lvl lv(1) by auto
  then have "levels (manifest s) ! level \<noteq> []" using lv(1) lvl by (auto simp: abs_levels_def)
  moreover have "level + 1 < max_levels (config s)" using lvl(1) c(1) by simp
  moreover have "store_wf sizing W (max_levels (config s)) (manifest s) (disk s)" "fits_all sizing W"
    using wf by (simp_all add: lsm_wf_def)
  ultimately obtain res m' d' where "compact_level sizing (manifest s) (disk s) level (config s) = Inr (res, m', d')"
      "(abs_levels sizing m' d', next_sst_id m') = a_compact (config s) level [l0, l1, l2] nx"
    using compact_level_lists [of sizing W "config s" "manifest s" "disk s" level] lv by metis
  then show ?thesis using s' asks by (auto simp: lsm_compact_def compact_once_def abs_state_def)
qed

lemma put_abs:
  assumes wf: "lsm_wf sizing W s" and e: "(k, Some v) \<in> W" and small: "mt_size (mt_put k v (active s)) < memtable_size_threshold (config s)"
  shows "\<exists>s'. lsm_step sizing (OpPut k v) s = Some (Inr s') \<and> lsm_wf sizing W s' \<and> config s' = config s \<and>
    active s' = mt_put k v (active s) \<and> abs_state sizing s' = abs_state sizing s"
proof -
  let ?s = "s\<lparr>active := mt_put k v (active s)\<rparr>"
  have "lsm_put sizing k v s = Inr ?s" using small by (simp add: lsm_put_def maybe_flush_def)
  moreover have "lsm_wf sizing W ?s"
    using lsm_write_ok [OF wf e, of "length k + length v + 16"] calculation by (auto simp: lsm_put_def mt_put_def)
  ultimately show ?thesis by (auto simp: abs_state_def)
qed

section \<open>Properties\<close>

text \<open>
  The instance: keys \<open>[1]\<close> and \<open>[2]\<close> with empty values reach level 2 in one table; then both keys are overwritten with a value of
  twelve bytes, which makes the output tables of the following merges hold one entry each.
\<close>

definition stale_config :: lsm_config where
  "stale_config = \<lparr>memtable_size_threshold = 4096, l0_compaction_trigger = 1, level_size_multiplier = 10, max_levels = 3,
     target_sst_size = 22, l1_target_size = 0\<rparr>"

definition new_value :: bytes where
  "new_value = replicate 12 7"

definition stale_ops :: "lsm_op list" where
  "stale_ops = [OpPut [1] [], OpPut [2] [], OpFlush, OpCompact, OpCompact,
     OpPut [1] new_value, OpPut [2] new_value, OpFlush, OpCompact, OpCompact]"

lemma length_new_value [simp]: "length new_value = 12"
  by (simp add: new_value_def)

lemma new_value_ne [simp]: "new_value \<noteq> []" "[] \<noteq> new_value"
  by (auto simp: new_value_def)

lemma chunks_Nil [simp]: "chunks n [] = []"
  by (simp add: chunks.simps)

lemma chunks_Cons: "0 < n \<Longrightarrow> chunks n (x # xs) = take n (x # xs) # chunks n (drop n (x # xs))"
  by (subst chunks.simps) simp

lemma stale_chunks:
  "merged_chunks stale_config [([1], Some []), ([2], Some [])] = [[([1], Some []), ([2], Some [])]]"
  "merged_chunks stale_config [([1], Some new_value), ([2], Some new_value)] = [[([1], Some new_value)], [([2], Some new_value)]]"
  "merged_chunks stale_config [([1], Some new_value), ([2], Some [])] = [[([1], Some new_value)], [([2], Some [])]]"
  "merged_chunks stale_config [([2], Some [])] = [[([2], Some [])]]"
  by (simp_all add: merged_chunks_def stale_config_def estimate_entries_per_sst_def chunks_Cons numeral_2_eq_2 [symmetric])

lemma stale_merges:
  "a_merge dead [([1], Some []), ([2], Some [])] = [([1], Some []), ([2], Some [])]"
  "a_merge dead [([1], Some new_value), ([2], Some new_value)] = [([1], Some new_value), ([2], Some new_value)]"
  "a_merge dead [([1], Some new_value), ([1], Some []), ([2], Some [])] = [([1], Some new_value), ([2], Some [])]"
  "a_merge dead [([2], Some []), ([2], Some new_value)] = [([2], Some [])]"
  by (simp_all add: a_merge_def)

lemma stale_order:
  "a_newest_first [(5, X), (3, Y)] = [(5, X), (3, Y)]" "a_newest_first [(6, X), (8, Y)] = [(8, Y), (6, X)]"
  "a_newest_first [x] = [x]" "a_newest_first [] = []"
  "a_newest_first [(7, X), (9, Y)] = [(9, Y), (7, X)]"
  by (simp_all add: a_newest_first_def)

lemma stale_levels: "max_levels stale_config = 3"
  by (simp add: stale_config_def)

lemmas stale_eval = a_compact_def a_first_def a_last_def ranges_overlap_def stale_order stale_merges stale_chunks stale_levels

lemma stale_steps:
  "a_compact stale_config 0 [[(1, [([1], Some []), ([2], Some [])])], [], []] 2 =
     ([[], [(2, [([1], Some []), ([2], Some [])])], []], 3)"
  "a_compact stale_config 1 [[], [(2, [([1], Some []), ([2], Some [])])], []] 3 =
     ([[], [], [(3, [([1], Some []), ([2], Some [])])]], 4)"
  "a_compact stale_config 0 [[(4, [([1], Some new_value), ([2], Some new_value)])], [], [(3, [([1], Some []), ([2], Some [])])]] 5 =
     ([[], [(5, [([1], Some new_value)]), (6, [([2], Some new_value)])], [(3, [([1], Some []), ([2], Some [])])]], 7)"
  "a_compact stale_config 1 [[], [(5, [([1], Some new_value)]), (6, [([2], Some new_value)])], [(3, [([1], Some []), ([2], Some [])])]] 7 =
     ([[], [(6, [([2], Some new_value)])], [(7, [([1], Some new_value)]), (8, [([2], Some [])])]], 9)"
  "a_compact stale_config 1 [[], [(6, [([2], Some new_value)])], [(7, [([1], Some new_value)]), (8, [([2], Some [])])]] 9 =
     ([[], [], [(7, [([1], Some new_value)]), (9, [([2], Some [])])]], 10)"
  by (simp_all add: stale_eval)

lemma stale_fits: "fits_all test_sizing (written stale_ops)"
proof (rule fits_all_small)
  have W: "written stale_ops = {([1], Some []), ([2], Some []), ([1], Some new_value), ([2], Some new_value)}"
    by (auto simp: written_def stale_ops_def)
  show "finite (written stale_ops)" "card (written stale_ops) \<le> 6" "(\<Sum>e\<in>written stale_ops. length (enc_kv e)) \<le> 1000"
    unfolding W by (simp_all add: enc_kv_def card_insert_if)
qed

lemma stale_config_simps:
  "max_levels stale_config = 3" "l0_compaction_trigger stale_config = 1" "l1_target_size stale_config = 0"
  "memtable_size_threshold stale_config = 4096"
  by (simp_all add: stale_config_def)

text \<open>The two keys put in order, and the flush and the two compactions that follow.\<close>

lemma two_puts_flush:
  assumes wf: "lsm_wf test_sizing W s" "config s = stale_config" "active s = mt_new" and st: "abs_state test_sizing s = ([[], l1, l2], nx)"
    and v: "([1], Some v) \<in> W" "([2], Some v) \<in> W" "length v \<le> 12"
  shows "\<exists>s'. lsm_run test_sizing [OpPut [1] v, OpPut [2] v, OpFlush] s = Some (Inr s') \<and> lsm_wf test_sizing W s' \<and>
    config s' = stale_config \<and> active s' = mt_new \<and>
    abs_state test_sizing s' = ([[(nx, [([1], Some v), ([2], Some v)])], l1, l2], nx + 1)"
proof -
  obtain s1 where s1: "lsm_step test_sizing (OpPut [1] v) s = Some (Inr s1)" "lsm_wf test_sizing W s1" "config s1 = stale_config"
      "active s1 = mt_put [1] v mt_new" "abs_state test_sizing s1 = ([[], l1, l2], nx)"
    using put_abs [OF wf(1) v(1)] wf(2,3) st v(3) by (auto simp: stale_config_simps mt_put_def mt_insert_def mt_new_def)
  obtain s2 where s2: "lsm_step test_sizing (OpPut [2] v) s1 = Some (Inr s2)" "lsm_wf test_sizing W s2" "config s2 = stale_config"
      "active s2 = mt_put [2] v (mt_put [1] v mt_new)" "abs_state test_sizing s2 = ([[], l1, l2], nx)"
    using put_abs [OF s1(2) v(2)] s1(3,4,5) v(3) by (auto simp: stale_config_simps mt_put_def mt_insert_def mt_new_def)
  have data: "mt_data (active s2) = fmupd [2] (Some v) (fmupd [1] (Some v) fmempty)"
    using s2(4) by (simp add: mt_put_def mt_insert_data)
  have "map_of (mt_iter (active s2)) = map_of [([1], Some v), ([2], Some v)]"
    unfolding mt_iter_def map_of_fm_entries data by (rule ext) simp
  then have iter: "mt_iter (active s2) = [([1], Some v), ([2], Some v)]"
    using sorted_fm_entries by (intro sorted_kvs_unique) (simp_all add: mt_iter_def)
  have "mt_data (active s2) \<noteq> fmempty" using iter by (auto simp: mt_iter_def fm_entries_Nil [symmetric])
  then obtain s3 where "lsm_flush test_sizing s2 = Inr s3" "lsm_wf test_sizing W s3" "config s3 = stale_config" "active s3 = mt_new"
      "abs_state test_sizing s3 = ([[(nx, [([1], Some v), ([2], Some v)])], l1, l2], nx + 1)"
    using flush_abs [OF s2(2) _ s2(5)] s2(3) iter by auto
  then show ?thesis using s1(1) s2(1) by simp
qed

lemma two_compactions:
  assumes wf: "lsm_wf test_sizing W s" "config s = stale_config" and st: "abs_state test_sizing s = ([[x], [], l2], nx)"
    and c1: "a_compact stale_config 0 [[x], [], l2] nx = ([[], y # ys, l2'], n1)"
    and c2: "a_compact stale_config 1 [[], y # ys, l2'] n1 = (ls, n2)"
  shows "\<exists>s'. lsm_run test_sizing [OpCompact, OpCompact] s = Some (Inr s') \<and> lsm_wf test_sizing W s' \<and>
    config s' = stale_config \<and> active s' = active s \<and> abs_state test_sizing s' = (ls, n2)"
proof -
  obtain s1 where s1: "lsm_step test_sizing OpCompact s = Some (Inr s1)" "lsm_wf test_sizing W s1" "config s1 = stale_config"
      "active s1 = active s" "abs_state test_sizing s1 = ([[], y # ys, l2'], n1)"
    using compact_abs [OF wf(1) st, of 0] wf(2) c1 by (auto simp: stale_config_simps)
  obtain s2 where "lsm_step test_sizing OpCompact s1 = Some (Inr s2)" "lsm_wf test_sizing W s2" "config s2 = stale_config"
      "active s2 = active s1" "abs_state test_sizing s2 = (ls, n2)"
    using compact_abs [OF s1(2,5), of 1] s1(3) c2 by (auto simp: stale_config_simps)
  then show ?thesis using s1(1,4) by simp
qed

lemma lsm_run_append:
  "lsm_run sizing (xs @ ys) s = (case lsm_run sizing xs s of None \<Rightarrow> None | Some (Inl e) \<Rightarrow> Some (Inl e) | Some (Inr s') \<Rightarrow> lsm_run sizing ys s')"
  by (induction xs arbitrary: s) (auto split: option.split sum.split)

lemma stale_run:
  "\<exists>s. lsm_run test_sizing stale_ops (lsm_open empty_disk stale_config) = Some (Inr s) \<and> lsm_wf test_sizing (written stale_ops) s \<and>
     config s = stale_config \<and> active s = mt_new \<and>
     abs_state test_sizing s = ([[], [(6, [([2], Some new_value)])], [(7, [([1], Some new_value)]), (8, [([2], Some [])])]], 9)"
proof -
  let ?W = "written stale_ops" and ?s = "lsm_open empty_disk stale_config"
  have s0: "lsm_wf test_sizing ?W ?s" "config ?s = stale_config"
    using lsm_open_wf [OF _ stale_fits, of stale_config] by (simp_all add: stale_config_simps)
  have o: "active ?s = mt_new" "abs_state test_sizing ?s = ([[], [], []], 1)"
    by (simp_all add: lsm_open_def empty_disk_def load_or_create_def manifest_new_def abs_state_def abs_levels_def stale_config_simps
        numeral_3_eq_3)
  have W: "([1], Some []) \<in> ?W" "([2], Some []) \<in> ?W" "([1], Some new_value) \<in> ?W" "([2], Some new_value) \<in> ?W"
    by (simp_all add: written_def stale_ops_def)
  obtain s1 where s1: "lsm_run test_sizing [OpPut [1] [], OpPut [2] [], OpFlush] ?s = Some (Inr s1)" "lsm_wf test_sizing ?W s1"
      "config s1 = stale_config" "active s1 = mt_new" "abs_state test_sizing s1 = ([[(1, [([1], Some []), ([2], Some [])])], [], []], 2)"
    using two_puts_flush [OF s0 o W(1,2)] by auto
  obtain s2 where s2: "lsm_run test_sizing [OpCompact, OpCompact] s1 = Some (Inr s2)" "lsm_wf test_sizing ?W s2"
      "config s2 = stale_config" "active s2 = mt_new" "abs_state test_sizing s2 = ([[], [], [(3, [([1], Some []), ([2], Some [])])]], 4)"
    using two_compactions [OF s1(2,3,5) stale_steps(1,2)] s1(4) by auto
  obtain s3 where s3: "lsm_run test_sizing [OpPut [1] new_value, OpPut [2] new_value, OpFlush] s2 = Some (Inr s3)"
      "lsm_wf test_sizing ?W s3" "config s3 = stale_config" "active s3 = mt_new" "abs_state test_sizing s3 =
        ([[(4, [([1], Some new_value), ([2], Some new_value)])], [], [(3, [([1], Some []), ([2], Some [])])]], 5)"
    using two_puts_flush [OF s2(2-5) W(3,4)] by auto
  obtain s4 where s4: "lsm_run test_sizing [OpCompact, OpCompact] s3 = Some (Inr s4)" "lsm_wf test_sizing ?W s4"
      "config s4 = stale_config" "active s4 = mt_new" "abs_state test_sizing s4 =
        ([[], [(6, [([2], Some new_value)])], [(7, [([1], Some new_value)]), (8, [([2], Some [])])]], 9)"
    using two_compactions [OF s3(2,3,5) stale_steps(3,4)] s3(4) by auto
  have ops: "stale_ops = ([OpPut [1] [], OpPut [2] [], OpFlush] @ [OpCompact, OpCompact]) @
      ([OpPut [1] new_value, OpPut [2] new_value, OpFlush] @ [OpCompact, OpCompact])"
    by (simp add: stale_ops_def)
  have "lsm_run test_sizing stale_ops ?s = Some (Inr s4)"
    unfolding ops lsm_run_append s1(1) option.case sum.case s2(1) s3(1) s4(1) ..
  then show ?thesis using s4 by blast
qed

text \<open>
  The tables that a compaction of \<open>level\<close> takes are younger than the tables of the next level that they overlap.
\<close>

definition compaction_safe :: "manifest \<Rightarrow> nat \<Rightarrow> bool" where
  "compaction_safe m level \<longleftrightarrow>
     (let S = source_of (levels m ! level) level
      in \<forall>x\<in>set S. \<forall>y\<in>set (levels m ! (level + 1)).
           ranges_overlap (first_key y) (last_key y) (Min (first_key ` set S)) (Max (last_key ` set S)) \<longrightarrow> m_id y < m_id x)"

text \<open>
  C34: A compaction of tables that are younger than those they are merged with changes no read, whatever the level: it succeeds, keeps
  the tables well-formed, and every lookup returns what it returned before, also where the merge reaches the last level and drops
  tombstones.
\<close>

theorem lsm_compaction_keeps_reads:
  assumes wf: "lsm_wf sizing W s" and lvl: "level + 1 < max_levels (config s)" "levels (manifest s) ! level \<noteq> []"
    and safe: "compaction_safe (manifest s) level"
  shows "\<exists>s'. compact_once sizing level s = Inr s' \<and> lsm_wf sizing W s' \<and> (\<forall>k. lsm_get sizing s' k = lsm_get sizing s k)"
proof -
  let ?c = "config s" and ?m = "manifest s" and ?d = "disk s"
  have st: "store_wf sizing W (max_levels ?c) ?m ?d" "fits_all sizing W" "immutable s = []" using wf by (simp_all add: lsm_wf_def)
  obtain t res where t: "trace_ok sizing W ?c ?m ?d level t"
      "compact_level sizing ?m ?d level ?c = Inr (res, fst (after_compaction t level ?m), snd (after_compaction t level ?m))"
    using compact_level_trace [OF st(1,2) lvl] by blast
  let ?s' = "s\<lparr>manifest := fst (after_compaction t level ?m), disk := snd (after_compaction t level ?m)\<rparr>"
  have once: "compact_once sizing level s = Inr ?s'" using t(2) by (simp add: compact_once_def case_prod_unfold)
  then have wf': "lsm_wf sizing W ?s'" using compact_once_ok [OF wf, of level] by auto
  have "source_newer t" using safe t(1) by (simp add: source_newer_def compaction_safe_def trace_ok_def Let_def)
  then have "lsm_value sizing ?s' k = lsm_value sizing s k" for k
    using after_compaction_view [OF st(1) t(1) lvl(1), of "mem_view s" k] st(3)
    by (simp add: lsm_value_def lsm_view_def mem_view_active)
  then have "\<forall>k. lsm_get sizing ?s' k = lsm_get sizing s k" using lsm_wf_get [OF wf'] lsm_wf_get [OF wf] by simp
  then show ?thesis using once wf' by blast
qed

theorem lsm_compaction_keeps_reads_witness:
  "\<exists>s s'. lsm_run test_sizing [OpPut [1] [], OpPut [2] [], OpFlush] (lsm_open empty_disk stale_config) = Some (Inr s) \<and>
     compact_once test_sizing 0 s = Inr s' \<and> (\<forall>k. lsm_get test_sizing s' k = lsm_get test_sizing s k)"
proof -
  let ?W = "written stale_ops" and ?s = "lsm_open empty_disk stale_config"
  have s0: "lsm_wf test_sizing ?W ?s" "config ?s = stale_config" "active ?s = mt_new" "abs_state test_sizing ?s = ([[], [], []], 1)"
    using lsm_open_wf [OF _ stale_fits, of stale_config]
    by (simp_all add: stale_config_simps lsm_open_def empty_disk_def load_or_create_def manifest_new_def abs_state_def abs_levels_def
        numeral_3_eq_3)
  obtain s where s: "lsm_run test_sizing [OpPut [1] [], OpPut [2] [], OpFlush] ?s = Some (Inr s)" "lsm_wf test_sizing ?W s"
      "config s = stale_config" "abs_state test_sizing s = ([[(1, [([1], Some []), ([2], Some [])])], [], []], 2)"
    using two_puts_flush [OF s0, of "[]"] by (auto simp: written_def stale_ops_def)
  then obtain x where lv: "levels (manifest s) = [[x], [], []]" by (auto simp: abs_state_def abs_levels_def map_eq_Cons_conv)
  then have "compaction_safe (manifest s) 0" by (simp add: compaction_safe_def)
  with lv show ?thesis
    using lsm_compaction_keeps_reads [OF s(2), of 0] s(1,3) by (auto simp: stale_config_simps)
qed

text \<open>
  C35: A compaction between two deeper levels can bring an overwritten value back. After ten operations on a new engine with three
  levels, a lookup of the key \<open>[2]\<close> returns the value last put. One more call of \<open>compact\<close> succeeds, and the same lookup returns the
  empty value that the key had before: the merge ranks its inputs by table number, and the older entry of level 2 had in the meantime
  been rewritten into a table with a higher number than the table of level 1 that holds the newer entry.
\<close>

theorem lsm_compaction_restores_old_value:
  "\<exists>s s'. lsm_run test_sizing stale_ops (lsm_open empty_disk stale_config) = Some (Inr s) \<and>
     lsm_get test_sizing s [2] = Inr (Some new_value) \<and> fold map_step stale_ops Map.empty [2] = Some new_value \<and>
     lsm_compact test_sizing s = Inr (True, s') \<and> lsm_get test_sizing s' [2] = Inr (Some [])"
proof -
  obtain s where s: "lsm_run test_sizing stale_ops (lsm_open empty_disk stale_config) = Some (Inr s)"
      "lsm_wf test_sizing (written stale_ops) s" "config s = stale_config" "active s = mt_new"
      "abs_state test_sizing s = ([[], [(6, [([2], Some new_value)])], [(7, [([1], Some new_value)]), (8, [([2], Some [])])]], 9)"
    using stale_run by blast
  obtain s' where s': "lsm_step test_sizing OpCompact s = Some (Inr s')" "lsm_wf test_sizing (written stale_ops) s'" "active s' = mt_new"
      "abs_state test_sizing s' = ([[], [], [(7, [([1], Some new_value)]), (9, [([2], Some [])])]], 10)"
    using compact_abs [OF s(2,5), of 1] s(3,4) stale_steps(5) by (auto simp: stale_config_simps)
  have "needs_compaction (manifest s) (config s) = Some 1"
    using needs_compaction_abs [OF s(2)] s(3,5) by (auto simp: abs_state_def stale_config_simps)
  then have "lsm_compact test_sizing s = Inr (True, s')"
    using s'(1) by (auto simp: lsm_compact_def split: sum.splits)
  moreover have "lsm_get test_sizing s' [2] = Inr (Some [])"
    using lsm_get_abs [OF s'(2,3) refl, of "[2]"] s'(4) by (simp add: stale_order)
  moreover have "lsm_get test_sizing s [2] = Inr (Some new_value)"
    using lsm_get_abs [OF s(2,4) refl, of "[2]"] s(5) by (simp add: stale_order a_newest_first_def)
  moreover have "fold map_step stale_ops Map.empty [2] = Some new_value" by (simp add: stale_ops_def)
  ultimately show ?thesis using s(1) by blast
qed

end
