(* ===== verification/Spec2Isabelle.thy ===== *)
theory Spec2Isabelle
  imports Crdt_Mv Crdt_Orset Mvcc_Props Tpc_Props Raft_Props Lsm_Lists
begin

text \<open>
  A verification library for JouleDB, a database server written in Rust (\<open>src/crates\<close>).

  \<^bold>\<open>The program and its parts.\<close> A server process (\<open>joule-db-server\<close>) executes queries over record stores. Beneath the query
  layers lie the parts that decide whether data is kept and agreed upon, and those are the parts modelled here:

  \<^item> the multi-version store (\<open>joule-db-core/src/concurrency/mvcc.rs\<close>), which gives each transaction a snapshot and lets the first
    committer win;
  \<^item> the log-structured storage engine (\<open>joule-db-local/src/lsm\<close>, \<open>joule-db-local/src/bloom.rs\<close>), which keeps the pairs of a node
    in memory and in sorted table files;
  \<^item> two-phase commit between shards (\<open>joule-db-server/src/two_phase_commit.rs\<close>): a coordinator, participants over a storage
    trait, and a recovery log;
  \<^item> the Raft consensus layer between replicas (\<open>joule-db-server/src/raft.rs\<close>) with its write-ahead log, and the erasure coding
    of the snapshots it can ship (\<open>joule-db-server/src/hrp_erasure.rs\<close>);
  \<^item> the replicated data types of the eventually consistent mode (\<open>joule-db-crdt\<close>).

  The parts call each other through narrow interfaces, and where the library rests on one it is a locale: a participant uses its
  storage through \<open>participant_storage\<close> (the trait \<open>ParticipantStorage\<close>), elections use quorums through \<open>quorum_system\<close>, the reads of
  the storage engine use memory tables and table files through \<open>kv_layer\<close>, and convergence of replicas rests on \<open>crdt\<close>. Every one is
  interpreted on the definitions translated from the code.

  \<^bold>\<open>How code is translated.\<close> A struct is a record, an enum a datatype, a method a function that returns the new state with its result,
  an error or early return a value of a sum or option type. A panic (index out of range, division by zero), or a wait that never
  ends, is the value \<open>None\<close> or \<open>Panicked\<close>. \<open>HashMap\<close> is a finite map and \<open>BTreeMap\<close> a finite map iterated in key order; where the code iterates a \<open>HashMap\<close> the
  model takes the key order, and no property depends on the choice. Counters such as timestamps, terms, indices, log positions and
  table numbers are natural numbers: they grow by one from zero and do not reach \<open>2 ^ 64\<close>. Bytes, hashes, bit masks and encoded
  lengths are words or numbers reduced to their width. The wall clock is an argument. A method is one atomic step, also where the code
  takes its locks one after the other. Those places are: \<open>MvccTransaction::put\<close> and \<open>delete\<close> (the conflict check, then the intent), \<open>commit\<close>
  (validation, the commit timestamp, the publication) and \<open>new\<close> (the timestamp, then the registration), the coordinator's \<open>handle_vote\<close>
  (the last vote, then the decision), and the handlers of \<open>RaftNode\<close>. For the store and the
  coordinator, theorems on the sub-steps show what an interleaving there can do: a lost update, a snapshot that moves, two decisions.
  Operating-system failures other than a crash, a missing file or a short file are left out.

  \<^bold>\<open>Prelude.\<close> Machine types, integer codecs and their round trips (\<open>codec_simps\<close>), loops over maps (\<open>fm_simps\<close>).

  \<^bold>\<open>Multi-version store.\<close>
  \<^item> \<open>Mvcc_Chain\<close>: \<open>VersionChain\<close> with visibility, intents, commit, abort and garbage collection, and what each does to the version
    that a timestamp sees.
  \<^item> \<open>Mvcc\<close>: \<open>MvccStore\<close>, \<open>MvccTransaction\<close>, \<open>MvccTransactionManager\<close>, \<open>TimestampOracle\<close>, and the key encoding of \<open>tx/traits.rs\<close>.
  \<^item> \<open>Mvcc_System\<close>: the store and all open transactions as a transition system, its invariant and the history of commits.
  \<^item> \<open>Mvcc_Props\<close>: reads refine snapshots of the commit history, first committer wins, commits are atomic, aborts leave no trace,
    garbage collection is invisible; and what an orphaned intent, a savepoint and the gaps between two locks do.

  \<^bold>\<open>Log-structured engine.\<close>
  \<^item> \<open>Bloom\<close>: \<open>BloomFilter\<close> bit by bit with the hash functions at 64 bits; the floating-point sizing is a parameter. No false negatives,
    and the byte format round trips.
  \<^item> \<open>Sstable\<close>: \<open>SSTableWriter\<close> and \<open>SSTableReader\<close> byte by byte; what is written is read back by scan, lookup and range. The bound
    \<open>fits\<close> keeps an upper estimate of the file size (18 times the encoded entries, plus filter and footer) below the 4 GiB that the
    32-bit lengths of the format allow.
  \<^item> \<open>Lsm\<close>: \<open>MemTable\<close>, \<open>Manifest\<close>, \<open>compaction.rs\<close> and \<open>LsmEngine\<close>. The loop of \<open>sync\<close> is a partial function into option.
  \<^item> \<open>Lsm_View\<close>: lookups and range scans of the engine as reads of layers, newest first (\<open>kv_layer\<close>).
  \<^item> \<open>Lsm_Compaction\<close>: the invariant of the tables on disk, kept by flush and compaction; when a compaction changes no read.
  \<^item> \<open>Lsm_Props\<close>: an engine with two levels refines a map; tables stay well-formed with any number of levels; a restart loses only the
    memory table; \<open>sync\<close> ends.
  \<^item> \<open>Lsm_Lists\<close>: compaction computed on lists of entries, refined by the compaction of files; with three levels it can bring an
    overwritten value back.

  \<^bold>\<open>Two-phase commit.\<close>
  \<^item> \<open>Tpc_Log\<close>, \<open>Tpc_Coordinator\<close>, \<open>Tpc_Participant\<close>: messages, recovery log, \<open>TransactionCoordinator\<close>, \<open>TransactionParticipant\<close> and
    \<open>InMemoryStorage\<close> with the contract \<open>participant_storage\<close>.
  \<^item> \<open>Tpc_System\<close>: coordinator, participants, a network that loses, delays and reorders messages, timeouts and cleanup; nodes may stop
    for ever but do not restart, because \<open>TransactionCoordinator::new\<close> and \<open>TransactionParticipant::new\<close> always start with an empty log in
    memory. The coordinator's part of the invariant. \<open>Tpc_Agreement\<close>: the participants' part, for every storage that meets the contract.
  \<^item> \<open>Tpc_Props\<close>: atomic commitment, unanimity, the decision logged before it is sent, recovery from the log that is there; and the ways
    in which an agreed commit is lost: a lost message, a restart of either side, the gap between two locks.

  \<^bold>\<open>Consensus.\<close>
  \<^item> \<open>Raft_Types\<close>, \<open>Raft_Wal\<close>, \<open>Raft_Node\<close>: configurations and quorums, messages, the log, the write-ahead log byte by byte, and the
    handlers of \<open>RaftNode\<close>. The checksum and the entry encoding (crates \<open>crc32fast\<close> and \<open>serde_json\<close>) are the parameter \<open>wal_codec\<close>.
  \<^item> \<open>Raft_Election\<close>: elections as a transition system with lost, repeated and reordered messages and crashes; one leader per term.
  \<^item> \<open>Raft_Log\<close>: appending to a follower's log equals a reference merge. \<open>Raft_Props\<close>: election safety, replication, the commit rule,
    restart, membership changes; and how heartbeats, snapshots and log compaction break them. A snapshot chunk that is not the
    last one makes \<open>handle_install_snapshot\<close> wait for a lock it holds, which is \<open>None\<close>.
  \<^item> \<open>Erasure\<close>: padding, cutting and reassembly of shards over any erasure code with the documented law (crate
    \<open>reed-solomon-erasure\<close>).

  \<^bold>\<open>Replicated types.\<close> \<open>Crdt\<close> (clock, counters, last-writer-wins register and map), \<open>Crdt_Mv\<close> (multi-value register), \<open>Crdt_Orset\<close>
  (observed-remove set): a merge that is commutative, associative and absorbs what it has merged, on the states in question, makes replicas
  that start from one state converge whatever the order and repetition of messages. The multi-value register meets this as a set of
  entries, when equal clocks carry equal values.

  \<^bold>\<open>Not modelled.\<close> The query front ends (SQL parsing and planning, \<open>joule-db-query\<close>, \<open>joule-db-server/src/query.rs\<close>, the wire
  protocols) are large tables of cases over external formats. The page-based B-tree and buffer pool (\<open>joule-db-core/src/engine\<close>,
  \<open>storage\<close>) use their own page cache and latches. The amorphic record store and the hyperdimensional computing
  crates compute on floating-point vectors. \<open>joule-web\<close>, the energy, telemetry, authentication and client crates
  are separate libraries around the database. The adapter \<open>AmorphicParticipantStorage\<close> goes through the JSON interface of the
  amorphic store, and the loop that drives \<open>RaftNode\<close> over sockets is input and output only.
\<close>

end
